(* ===== verification/C_Prelude.thy ===== *)
theory C_Prelude
  imports Main "HOL-Library.Word"
begin

unbundle bit_operations_syntax

text \<open>
  What every other theory of the development shares: the machine integers of
  \<^verbatim>\<open>src/src/helper/wulkanat/descriptive_types.h\<close>, the faults a run of the C code can
  end in, the command type through which state is threaded, pointers into byte objects, and
  little-endian loads and stores. The machine is the one the project is built for (x86-64
  Linux, gcc/clang): little-endian, 64-bit \<^verbatim>\<open>size_t\<close>.
\<close>

section \<open>Collections of rewrite rules\<close>

named_theorems cmd_simps \<open>unfolding of the command combinators\<close>
named_theorems mem_simps \<open>evaluation of loads and stores\<close>

section \<open>Integers\<close>

type_synonym byte8 = "8 word"
type_synonym byte16 = "16 word"
type_synonym byte32 = "32 word"
type_synonym size_t = "64 word"
type_synonym bytes = "byte8 list"

lemma unat_byte8_less: "unat (b :: byte8) < 256"
  by (rule order_less_le_trans [OF unsigned_less]) simp

lemma unat_byte16_less: "unat (w :: byte16) < 65536"
  by (rule order_less_le_trans [OF unsigned_less]) simp

section \<open>Faults\<close>

text \<open>
  A fault is the end of a run. The first four are undefined behaviour of C at the access that
  causes it; \<open>ProgramExit c\<close> is a call of \<^verbatim>\<open>exit(c)\<close>; \<open>OutOfFuel\<close> says that a
  loop of the source has used up the iterations the model was given.
\<close>

datatype fault =
    NullDeref
  | OutOfBounds
  | UseAfterFree
  | WildPointer
  | ProgramExit int
  | OutOfFuel

section \<open>Partial values and commands\<close>

definition bindr :: "fault + 'a \<Rightarrow> ('a \<Rightarrow> fault + 'b) \<Rightarrow> fault + 'b" where
  "bindr r k = (case r of Inl f \<Rightarrow> Inl f | Inr x \<Rightarrow> k x)"

lemma bindr_simps [simp]:
  "bindr (Inl f) k = Inl f"
  "bindr (Inr x) k = k x"
  by (simp_all add: bindr_def)

lemma bindr_eq_Inr: "bindr r k = Inr y \<longleftrightarrow> (\<exists>x. r = Inr x \<and> k x = Inr y)"
  by (cases r) auto

lemma bindr_assoc: "bindr (bindr r k) l = bindr r (\<lambda>x. bindr (k x) l)"
  by (cases r) simp_all

lemma bindr_cong [fundef_cong]:
  "r = r' \<Longrightarrow> (\<And>x. r' = Inr x \<Longrightarrow> k x = k' x) \<Longrightarrow> bindr r k = bindr r' k'"
  by (cases r') auto

text \<open>
  A command takes the state and returns the value, or the fault, together with the state it
  reached: what was done before a fault stays visible.
\<close>

type_synonym ('s, 'a) cmd = "'s \<Rightarrow> (fault + 'a) \<times> 's"

definition ret :: "'a \<Rightarrow> ('s, 'a) cmd" where
  "ret x = (\<lambda>s. (Inr x, s))"

definition failc :: "fault \<Rightarrow> ('s, 'a) cmd" where
  "failc f = (\<lambda>s. (Inl f, s))"

definition bindc :: "('s, 'a) cmd \<Rightarrow> ('a \<Rightarrow> ('s, 'b) cmd) \<Rightarrow> ('s, 'b) cmd" where
  "bindc m k = (\<lambda>s. case m s of (Inl f, t) \<Rightarrow> (Inl f, t) | (Inr x, t) \<Rightarrow> k x t)"

definition seqc :: "('s, 'a) cmd \<Rightarrow> ('s, 'b) cmd \<Rightarrow> ('s, 'b) cmd" where
  "seqc m n = bindc m (\<lambda>_. n)"

definition liftr :: "fault + 'a \<Rightarrow> ('s, 'a) cmd" where
  "liftr r = (\<lambda>s. (r, s))"

definition getc :: "('s, 's) cmd" where
  "getc = (\<lambda>s. (Inr s, s))"

definition modifyc :: "('s \<Rightarrow> 's) \<Rightarrow> ('s, unit) cmd" where
  "modifyc f = (\<lambda>s. (Inr (), f s))"

text \<open>\<open>zoomc g p m\<close> runs a command on the part of the state that \<open>g\<close> reads and \<open>p\<close> writes.\<close>

definition zoomc :: "('s \<Rightarrow> 't) \<Rightarrow> ('t \<Rightarrow> 's \<Rightarrow> 's) \<Rightarrow> ('t, 'a) cmd \<Rightarrow> ('s, 'a) cmd" where
  "zoomc g p m = (\<lambda>s. case m (g s) of (r, t) \<Rightarrow> (r, p t s))"

lemma cmd_run [simp, cmd_simps]:
  "ret x s = (Inr x, s)"
  "failc f s = (Inl f, s)"
  "liftr r s = (r, s)"
  "getc s = (Inr s, s)"
  "modifyc h s = (Inr (), h s)"
  by (simp_all add: ret_def failc_def liftr_def getc_def modifyc_def)

lemma bindc_run:
  "bindc m k s = (case m s of (Inl f, t) \<Rightarrow> (Inl f, t) | (Inr x, t) \<Rightarrow> k x t)"
  by (simp add: bindc_def)

lemma seqc_run:
  "seqc m n s = (case m s of (Inl f, t) \<Rightarrow> (Inl f, t) | (Inr x, t) \<Rightarrow> n t)"
  by (simp add: seqc_def bindc_def)

lemma zoomc_run: "zoomc g p m s = (fst (m (g s)), p (snd (m (g s))) s)"
  by (simp add: zoomc_def split: prod.splits)

declare bindc_run [cmd_simps] seqc_run [cmd_simps] zoomc_run [cmd_simps]

lemma bindc_laws:
  "bindc (ret x) k = k x"
  "bindc m ret = m"
  "bindc (bindc m k) l = bindc m (\<lambda>x. bindc (k x) l)"
  by (auto simp: fun_eq_iff cmd_simps split: prod.splits sum.splits)

lemma bindc_eqD:
  assumes "bindc m k s = (Inr y, t)"
  obtains x u where "m s = (Inr x, u)" "k x u = (Inr y, t)"
  using assms by (auto simp: cmd_simps split: prod.splits sum.splits)

lemma bindc_cong [fundef_cong]:
  assumes "s = s'" "m s' = m' s'" "\<And>x t. m' s' = (Inr x, t) \<Longrightarrow> k x t = k' x t"
  shows "bindc m k s = bindc m' k' s'"
  using assms by (auto simp: cmd_simps split: prod.splits sum.splits)

text \<open>
  An invariant of a command: it holds of the state after a run that started in a state where it
  holds, whether the run ends in a value or in a fault.
\<close>

definition keeps :: "('s \<Rightarrow> bool) \<Rightarrow> ('s, 'a) cmd \<Rightarrow> bool" where
  "keeps I m \<longleftrightarrow> (\<forall>s. I s \<longrightarrow> I (snd (m s)))"

named_theorems keeps_intros \<open>compositional rules for invariants of commands\<close>

lemma keepsI: "(\<And>s. I s \<Longrightarrow> I (snd (m s))) \<Longrightarrow> keeps I m"
  by (simp add: keeps_def)

lemma keepsD: "keeps I m \<Longrightarrow> I s \<Longrightarrow> I (snd (m s))"
  by (simp add: keeps_def)

lemma keeps_basic [keeps_intros]:
  "keeps I (ret x)" "keeps I (failc f)" "keeps I (liftr r)" "keeps I getc"
  by (simp_all add: keeps_def)

lemma keeps_bindc [keeps_intros]:
  assumes "keeps I m" "\<And>x. keeps I (k x)"
  shows "keeps I (bindc m k)"
  using assms by (fastforce simp: keeps_def cmd_simps split: prod.splits sum.splits)

lemma keeps_seqc [keeps_intros]: "keeps I m \<Longrightarrow> keeps I n \<Longrightarrow> keeps I (seqc m n)"
  by (simp add: seqc_def keeps_bindc)

lemma keeps_if [keeps_intros]:
  "(b \<Longrightarrow> keeps I m) \<Longrightarrow> (\<not> b \<Longrightarrow> keeps I n) \<Longrightarrow> keeps I (if b then m else n)"
  by simp

lemma keeps_option [keeps_intros]:
  "(x = None \<Longrightarrow> keeps I m) \<Longrightarrow> (\<And>y. x = Some y \<Longrightarrow> keeps I (k y)) \<Longrightarrow>
   keeps I (case x of None \<Rightarrow> m | Some y \<Rightarrow> k y)"
  by (cases x) simp_all

lemma keeps_Let [keeps_intros]: "keeps I (k x) \<Longrightarrow> keeps I (let y = x in k y)"
  by simp

lemma keeps_modifyc: "(\<And>s. I s \<Longrightarrow> I (h s)) \<Longrightarrow> keeps I (modifyc h)"
  by (simp add: keeps_def)

lemma keeps_zoomc: "(\<And>s t. I s \<Longrightarrow> J (g s)) \<Longrightarrow> keeps J m \<Longrightarrow>
   (\<And>s t. I s \<Longrightarrow> J t \<Longrightarrow> I (p t s)) \<Longrightarrow> keeps I (zoomc g p m)"
  by (simp add: keeps_def zoomc_run)

lemma in_concat_map:
  "a \<in> set (concat (map f bs)) \<longleftrightarrow> (\<exists>j<length bs. a \<in> set (f (bs ! j)))"
  by simp (metis in_set_conv_nth)

lemma find_SomeD: "find P xs = Some a \<Longrightarrow> a \<in> set xs \<and> P a"
  by (auto simp: find_Some_iff)

lemma map_find_cong:
  assumes "\<And>a. a \<in> set xs \<Longrightarrow> f' a = f a \<and> g' a = g a"
  shows "map_option g' (find (\<lambda>a. f' a = k) xs) = map_option g (find (\<lambda>a. f a = k) xs)"
  using assms by (induction xs) auto

lemma find_append_new: "\<not> P y \<Longrightarrow> find P (xs @ [y]) = find P xs"
  by (induction xs) auto

lemma find_same:
  assumes "\<And>a. P a \<Longrightarrow> a \<in> set ys \<longleftrightarrow> a \<in> set xs"
    and "\<And>a b. a \<in> set xs \<Longrightarrow> b \<in> set xs \<Longrightarrow> P a \<Longrightarrow> P b \<Longrightarrow> a = b"
  shows "find P ys = find P xs"
proof (cases "find P xs")
  case None
  then have "find P ys = None" using assms(1) by (auto simp: find_None_iff)
  with None show ?thesis by simp
next
  case (Some a)
  then have a: "a \<in> set xs" "P a" by (auto dest: find_SomeD)
  then have "find P ys \<noteq> None" using assms(1) by (auto simp: find_None_iff)
  then obtain b where b: "find P ys = Some b" by auto
  then have "b \<in> set ys" "P b" by (auto dest: find_SomeD)
  then have "b = a" using a assms by blast
  with b Some show ?thesis by simp
qed

lemma drop_1_Cons [simp]: "drop 1 (x # xs) = xs"
  by simp

section \<open>Pointers into byte objects\<close>

text \<open>
  \<open>Obj bs\<close> points into a live object of which the bytes \<open>bs\<close> follow the pointer;
  \<open>Dangling\<close> is a pointer whose object has been freed or that was never set.
\<close>

datatype ptr = Null | Dangling | Obj bytes

fun ptr_add :: "ptr \<Rightarrow> nat \<Rightarrow> ptr" where
  "ptr_add Null n = Dangling"
| "ptr_add Dangling n = Dangling"
| "ptr_add (Obj bs) n = Obj (drop n bs)"

text \<open>Reading \<open>n\<close> bytes; as for \<^verbatim>\<open>memcpy\<close> and \<^verbatim>\<open>memcmp\<close> on the platform, no byte
  is touched when \<open>n = 0\<close>.\<close>

fun read_bytes :: "ptr \<Rightarrow> nat \<Rightarrow> fault + bytes" where
  "read_bytes p n =
     (if n = 0 then Inr []
      else case p of
        Null \<Rightarrow> Inl NullDeref
      | Dangling \<Rightarrow> Inl UseAfterFree
      | Obj bs \<Rightarrow> if n \<le> length bs then Inr (take n bs) else Inl OutOfBounds)"

declare read_bytes.simps [simp del]

lemma read_bytes_simps [simp]:
  "read_bytes p 0 = Inr []"
  "0 < n \<Longrightarrow> read_bytes Null n = Inl NullDeref"
  "0 < n \<Longrightarrow> read_bytes Dangling n = Inl UseAfterFree"
  "n \<le> length bs \<Longrightarrow> read_bytes (Obj bs) n = Inr (take n bs)"
  "length bs < n \<Longrightarrow> read_bytes (Obj bs) n = Inl OutOfBounds"
  by (auto simp: read_bytes.simps)

lemma read_bytes_length: "read_bytes p n = Inr bs \<Longrightarrow> length bs = n"
  by (auto simp: read_bytes.simps split: if_splits ptr.splits)

text \<open>Allocation: \<open>n\<close> requested bytes, followed by the bytes of the same heap chunk that the
  allocator gave on top (its \<^verbatim>\<open>malloc_usable_size\<close> rounding). A strict reading of C has
  no such bytes: \<open>slack n = []\<close>.\<close>

definition calloc :: "(nat \<Rightarrow> bytes) \<Rightarrow> nat \<Rightarrow> bytes" where
  "calloc slack n = replicate n 0 @ slack n"

lemma length_calloc [simp]: "length (calloc slack n) = n + length (slack n)"
  by (simp add: calloc_def)

definition store :: "nat \<Rightarrow> bytes \<Rightarrow> bytes \<Rightarrow> fault + bytes" where
  "store off bs buf =
     (if off + length bs \<le> length buf
      then Inr (take off buf @ bs @ drop (off + length bs) buf)
      else Inl OutOfBounds)"

text \<open>Little-endian byte order of the machine.\<close>

definition le16 :: "byte16 \<Rightarrow> bytes" where
  "le16 w = [ucast w, ucast (drop_bit 8 w)]"

definition le32 :: "byte32 \<Rightarrow> bytes" where
  "le32 w = [ucast w, ucast (drop_bit 8 w), ucast (drop_bit 16 w), ucast (drop_bit 24 w)]"

fun of_le16 :: "bytes \<Rightarrow> byte16" where
  "of_le16 (b0 # b1 # _) = ucast b0 OR push_bit 8 (ucast b1)"
| "of_le16 _ = 0"

fun of_le32 :: "bytes \<Rightarrow> byte32" where
  "of_le32 (b0 # b1 # b2 # b3 # _) =
     ucast b0 OR push_bit 8 (ucast b1) OR push_bit 16 (ucast b2) OR push_bit 24 (ucast b3)"
| "of_le32 _ = 0"

definition load8 :: "ptr \<Rightarrow> fault + byte8" where
  "load8 p = bindr (read_bytes p 1) (\<lambda>bs. Inr (hd bs))"

definition load16 :: "ptr \<Rightarrow> fault + byte16" where
  "load16 p = bindr (read_bytes p 2) (\<lambda>bs. Inr (of_le16 bs))"

definition load32 :: "ptr \<Rightarrow> fault + byte32" where
  "load32 p = bindr (read_bytes p 4) (\<lambda>bs. Inr (of_le32 bs))"

text \<open>\<^verbatim>\<open>htons\<close>, \<^verbatim>\<open>htonl\<close> and their inverses reverse the bytes of a word
  on this machine.\<close>

definition htons :: "byte16 \<Rightarrow> byte16" where
  "htons w = of_le16 (rev (le16 w))"

definition htonl :: "byte32 \<Rightarrow> byte32" where
  "htonl w = of_le32 (rev (le32 w))"

abbreviation ntohs :: "byte16 \<Rightarrow> byte16" where "ntohs \<equiv> htons"
abbreviation ntohl :: "byte32 \<Rightarrow> byte32" where "ntohl \<equiv> htonl"

lemma bit_byte8_high [simp]:
  "bit (b :: byte8) (8 + n) = False" "bit b (16 + n) = False" "bit b (24 + n) = False"
  by (auto dest: bit_imp_le_length)

lemma bit_byte16_high [simp]:
  "bit (w :: byte16) (16 + n) = False" "bit w (24 + n) = False"
  by (auto dest: bit_imp_le_length)

lemma length_le [simp]: "length (le16 w) = 2" "length (le32 v) = 4"
  by (simp_all add: le16_def le32_def)

lemma of_le16_le16 [simp]: "of_le16 (le16 w @ r) = w"
  by (rule bit_word_eqI) (auto simp: le16_def bit_simps)

lemma le16_of_le16 [simp]: "le16 (of_le16 [a, b]) = [a, b]"
  by (auto simp: le16_def bit_simps intro!: bit_word_eqI)

lemma of_le32_le32 [simp]: "of_le32 (le32 w @ r) = w"
proof (rule bit_word_eqI)
  fix n assume "n < LENGTH(32)"
  then consider "n < 8" | "8 \<le> n" "n < 16" | "16 \<le> n" "n < 24" | "24 \<le> n" "n < 32"
    by fastforce
  then show "bit (of_le32 (le32 w @ r)) n = bit w n"
    by cases (auto simp: le32_def bit_simps)
qed

lemma le32_of_le32 [simp]: "le32 (of_le32 [a, b, c, d]) = [a, b, c, d]"
  by (auto simp: le32_def bit_simps intro!: bit_word_eqI)

lemma of_le_nil [simp]: "of_le16 (le16 w) = w" "of_le32 (le32 v) = v"
  using of_le16_le16 [of w "[]"] of_le32_le32 [of v "[]"] by simp_all

lemma le16_htons: "le16 (htons w) = rev (le16 w)"
  unfolding htons_def le16_def [of w] rev.simps append.simps le16_of_le16 ..

lemma le32_htonl: "le32 (htonl w) = rev (le32 w)"
  unfolding htonl_def le32_def [of w] rev.simps append.simps le32_of_le32 ..

lemma htons_htons [simp]: "htons (htons w) = w"
  by (subst htons_def) (simp add: le16_htons)

lemma htonl_htonl [simp]: "htonl (htonl w) = w"
  by (subst htonl_def) (simp add: le32_htonl)

lemma load_simps [mem_simps]:
  "load8 (Obj (b # bs)) = Inr b"
  "load16 (Obj (le16 v @ bs)) = Inr v"
  "load32 (Obj (le32 w @ bs)) = Inr w"
  by (simp_all add: load8_def load16_def load32_def)

end
