(* ===== verification/Uthash.thy ===== *)
theory Uthash
  imports C_Prelude "HOL-Library.Multiset"
begin

text \<open>
  The part of \<^verbatim>\<open>src/src/libraries/uthash.h\<close> the program uses, in the configuration it is
  compiled in (\<^verbatim>\<open>HASH_JEN\<close>, no \<^verbatim>\<open>HASH_BLOOM\<close>, no \<^verbatim>\<open>HASH_DEBUG\<close>,
  \<^verbatim>\<open>HASH_NONFATAL_OOM\<close> 0). An element is named by its address; the doubly linked lists of
  the source (application order, and the chain of each bucket) are the lists of the addresses
  they link, the head first. \<^verbatim>\<open>head\<close> is the head of the application order and is
  \<^verbatim>\<open>NULL\<close> when there is no table.
\<close>

section \<open>Jenkins' hash\<close>

definition HASH_JEN_MIX :: "byte32 \<Rightarrow> byte32 \<Rightarrow> byte32 \<Rightarrow> byte32 \<times> byte32 \<times> byte32" where
  "HASH_JEN_MIX a b c =
     (let a = a - b; a = a - c; a = a XOR drop_bit 13 c;
          b = b - c; b = b - a; b = b XOR push_bit 8 a;
          c = c - a; c = c - b; c = c XOR drop_bit 13 b;
          a = a - b; a = a - c; a = a XOR drop_bit 12 c;
          b = b - c; b = b - a; b = b XOR push_bit 16 a;
          c = c - a; c = c - b; c = c XOR drop_bit 5 b;
          a = a - b; a = a - c; a = a XOR drop_bit 3 c;
          b = b - c; b = b - a; b = b XOR push_bit 10 a;
          c = c - a; c = c - b; c = c XOR drop_bit 15 b
      in (a, b, c))"

definition jen_word :: "byte8 \<Rightarrow> byte8 \<Rightarrow> byte8 \<Rightarrow> byte8 \<Rightarrow> byte32" where
  "jen_word k0 k1 k2 k3 =
     ucast k0 + push_bit 8 (ucast k1) + push_bit 16 (ucast k2) + push_bit 24 (ucast k3)"

text \<open>The loop over blocks of twelve bytes: what is left of the key, and the three words.\<close>

function jen_loop :: "bytes \<Rightarrow> byte32 \<Rightarrow> byte32 \<Rightarrow> byte32 \<Rightarrow> bytes \<times> byte32 \<times> byte32 \<times> byte32" where
  "jen_loop key i j hashv =
     (if 12 \<le> length key
      then (case HASH_JEN_MIX
                   (i + jen_word (key ! 0) (key ! 1) (key ! 2) (key ! 3))
                   (j + jen_word (key ! 4) (key ! 5) (key ! 6) (key ! 7))
                   (hashv + jen_word (key ! 8) (key ! 9) (key ! 10) (key ! 11))
            of (i, j, hashv) \<Rightarrow> jen_loop (drop 12 key) i j hashv)
      else (key, i, j, hashv))"
  by pat_completeness auto
termination
  by (relation "measure (\<lambda>(key, i, j, hashv). length key)") auto

declare jen_loop.simps [simp del]

text \<open>One label \<^verbatim>\<open>case n+1:\<close> of the falling-through switch: reached when the rest of the key
  has more than \<open>n\<close> bytes.\<close>

definition jen_case :: "bytes \<Rightarrow> nat \<Rightarrow> nat \<Rightarrow> byte32" where
  "jen_case key n shift = (if n < length key then push_bit shift (ucast (key ! n)) else 0)"

definition HASH_JEN :: "bytes \<Rightarrow> byte32" where
  "HASH_JEN key =
     (case jen_loop key 0x9e3779b9 0x9e3779b9 0xfeedbeef of (rest, i, j, hashv) \<Rightarrow>
      let hashv = hashv + of_nat (length key);
          hashv = hashv + jen_case rest 10 24; hashv = hashv + jen_case rest 9 16;
          hashv = hashv + jen_case rest 8 8;
          j = j + jen_case rest 7 24; j = j + jen_case rest 6 16; j = j + jen_case rest 5 8;
          j = j + jen_case rest 4 0;
          i = i + jen_case rest 3 24; i = i + jen_case rest 2 16; i = i + jen_case rest 1 8;
          i = i + jen_case rest 0 0
      in snd (snd (HASH_JEN_MIX i j hashv)))"

text \<open>\<^verbatim>\<open>HASH_VALUE\<close>: the hash of \<open>keylen\<close> bytes, each of which is read.\<close>

definition HASH_VALUE :: "ptr \<Rightarrow> nat \<Rightarrow> fault + byte32" where
  "HASH_VALUE keyptr keylen = bindr (read_bytes keyptr keylen) (\<lambda>key. Inr (HASH_JEN key))"

text \<open>For evaluation the mixing is split into its three rounds.\<close>

definition jen_round :: "nat \<Rightarrow> nat \<Rightarrow> nat \<Rightarrow> byte32 \<Rightarrow> byte32 \<Rightarrow> byte32 \<Rightarrow> byte32 \<times> byte32 \<times> byte32" where
  "jen_round p q r a b c =
     (let a = a - b - c; a = a XOR drop_bit p c; b = b - c - a; b = b XOR push_bit q a;
          c = c - a - b; c = c XOR drop_bit r b in (a, b, c))"

lemma HASH_JEN_MIX_rounds:
  "HASH_JEN_MIX a b c =
     (case jen_round 13 8 13 a b c of (a, b, c) \<Rightarrow>
      case jen_round 12 16 5 a b c of (a, b, c) \<Rightarrow> jen_round 3 10 15 a b c)"
  unfolding HASH_JEN_MIX_def jen_round_def by (simp only: Let_def prod.case)

lemma DataKey_rounds:
    "jen_round 13 8 13 4289452797 2662391556 4276993782 = (1644874350, 930233248, 1701905273)"
    "jen_round 12 16 5 1644874350 930233248 1701905273 = (3307330629, 3499776994, 3375372685)"
    "jen_round 3 10 15 3307330629 3499776994 3375372685 = (846292455, 292503662, 2236568038)"
  by (simp_all add: jen_round_def Let_def)

lemma HASH_JEN_DataKey: "HASH_JEN [0x44, 0x61, 0x74, 0x61, 0x4B, 0x65, 0x79] = 2236568038"
proof -
  let ?k = "[0x44, 0x61, 0x74, 0x61, 0x4B, 0x65, 0x79] :: bytes"
  have "HASH_JEN ?k = snd (snd (HASH_JEN_MIX 4289452797 2662391556 4276993782))"
    by (simp add: HASH_JEN_def jen_loop.simps jen_case_def)
  then show ?thesis by (simp add: HASH_JEN_MIX_rounds DataKey_rounds)
qed

section \<open>The table\<close>

text \<open>\<^verbatim>\<open>struct HashElement\<close> of \<^verbatim>\<open>hash_helper.h\<close> with its \<^verbatim>\<open>UT_hash_handle\<close>; the link
  fields are the positions in the lists of the table.\<close>

record hash_element =
  he_key :: ptr
  he_value :: ptr
  he_value_length :: byte32
  hh_key :: ptr
  hh_keylen :: byte32
  hh_hashv :: byte32

type_synonym heap = "nat \<Rightarrow> hash_element option"

record ut_bucket =
  bkt_chain :: "nat list"
  bkt_count :: byte32
  bkt_expand_mult :: byte32

record ut_table =
  tbl_buckets :: "ut_bucket list"
  tbl_num_buckets :: byte32
  tbl_log2_num_buckets :: byte32
  tbl_num_items :: byte32
  tbl_order :: "nat list"
  tbl_ideal_chain_maxlen :: byte32
  tbl_nonideal_items :: byte32
  tbl_ineff_expands :: byte32
  tbl_noexpand :: byte32

definition HASH_INITIAL_NUM_BUCKETS :: byte32 where "HASH_INITIAL_NUM_BUCKETS = 32"
definition HASH_INITIAL_NUM_BUCKETS_LOG2 :: byte32 where "HASH_INITIAL_NUM_BUCKETS_LOG2 = 5"
definition HASH_BKT_CAPACITY_THRESH :: byte32 where "HASH_BKT_CAPACITY_THRESH = 10"

definition empty_bucket :: ut_bucket where
  "empty_bucket = \<lparr>bkt_chain = [], bkt_count = 0, bkt_expand_mult = 0\<rparr>"

definition deref :: "heap \<Rightarrow> nat \<Rightarrow> fault + hash_element" where
  "deref hp a = (case hp a of None \<Rightarrow> Inl UseAfterFree | Some e \<Rightarrow> Inr e)"

definition bucket_at :: "ut_bucket list \<Rightarrow> nat \<Rightarrow> fault + ut_bucket" where
  "bucket_at bs i = (if i < length bs then Inr (bs ! i) else Inl OutOfBounds)"

definition HASH_TO_BKT :: "byte32 \<Rightarrow> byte32 \<Rightarrow> nat" where
  "HASH_TO_BKT hashv num_bkts = unat (hashv AND (num_bkts - 1))"

subsection \<open>Lookup\<close>

definition HASH_KEYCMP :: "ptr \<Rightarrow> ptr \<Rightarrow> nat \<Rightarrow> fault + bool" where
  "HASH_KEYCMP p q n = bindr (read_bytes p n) (\<lambda>x. bindr (read_bytes q n) (\<lambda>y. Inr (x = y)))"

fun HASH_FIND_IN_BKT :: "heap \<Rightarrow> nat list \<Rightarrow> ptr \<Rightarrow> byte32 \<Rightarrow> byte32 \<Rightarrow> fault + nat option" where
  "HASH_FIND_IN_BKT hp [] keyptr keylen hashval = Inr None"
| "HASH_FIND_IN_BKT hp (out # chain) keyptr keylen hashval =
     bindr (deref hp out) (\<lambda>e.
     if hh_hashv e = hashval \<and> hh_keylen e = keylen
     then bindr (HASH_KEYCMP (hh_key e) keyptr (unat keylen)) (\<lambda>same.
          if same then Inr (Some out) else HASH_FIND_IN_BKT hp chain keyptr keylen hashval)
     else HASH_FIND_IN_BKT hp chain keyptr keylen hashval)"

definition HASH_FIND :: "heap \<Rightarrow> ut_table option \<Rightarrow> ptr \<Rightarrow> byte32 \<Rightarrow> fault + nat option" where
  "HASH_FIND hp head keyptr keylen =
     (case head of None \<Rightarrow> Inr None
      | Some tbl \<Rightarrow>
          bindr (HASH_VALUE keyptr (unat keylen)) (\<lambda>hashv.
          bindr (bucket_at (tbl_buckets tbl) (HASH_TO_BKT hashv (tbl_num_buckets tbl))) (\<lambda>b.
          HASH_FIND_IN_BKT hp (bkt_chain b) keyptr keylen hashv)))"

definition HASH_COUNT :: "ut_table option \<Rightarrow> byte32" where
  "HASH_COUNT head = (case head of None \<Rightarrow> 0 | Some tbl \<Rightarrow> tbl_num_items tbl)"

subsection \<open>Insertion\<close>

text \<open>One element moves to its bucket among the new ones; the flag says that the bucket is now
  longer than the ideal chain.\<close>

definition rehash_bucket :: "byte32 \<Rightarrow> nat \<Rightarrow> ut_bucket \<Rightarrow> ut_bucket \<times> bool" where
  "rehash_bucket ideal thh newbkt =
     (let newbkt = newbkt\<lparr>bkt_count := bkt_count newbkt + 1\<rparr>;
          over = bkt_count newbkt > ideal;
          newbkt = (if over \<and> bkt_count newbkt > bkt_expand_mult newbkt * ideal
                    then newbkt\<lparr>bkt_expand_mult := bkt_expand_mult newbkt + 1\<rparr> else newbkt)
      in (newbkt\<lparr>bkt_chain := thh # bkt_chain newbkt\<rparr>, over))"

definition rehash_step ::
    "heap \<Rightarrow> byte32 \<Rightarrow> byte32 \<Rightarrow> nat \<Rightarrow> ut_bucket list \<times> byte32 \<Rightarrow> fault + ut_bucket list \<times> byte32" where
  "rehash_step hp num2 ideal thh = (\<lambda>(new_buckets, nonideal).
     bindr (deref hp thh) (\<lambda>e.
     let bkt = HASH_TO_BKT (hh_hashv e) num2 in
     bindr (bucket_at new_buckets bkt) (\<lambda>newbkt.
     case rehash_bucket ideal thh newbkt of (newbkt, over) \<Rightarrow>
     Inr (new_buckets[bkt := newbkt], if over then nonideal + 1 else nonideal))))"

fun rehash_chain ::
    "heap \<Rightarrow> byte32 \<Rightarrow> byte32 \<Rightarrow> nat list \<Rightarrow> ut_bucket list \<times> byte32 \<Rightarrow> fault + ut_bucket list \<times> byte32" where
  "rehash_chain hp num2 ideal [] st = Inr st"
| "rehash_chain hp num2 ideal (thh # chain) st =
     bindr (rehash_step hp num2 ideal thh st) (\<lambda>st. rehash_chain hp num2 ideal chain st)"

fun rehash_buckets ::
    "heap \<Rightarrow> byte32 \<Rightarrow> byte32 \<Rightarrow> ut_bucket list \<Rightarrow> ut_bucket list \<times> byte32 \<Rightarrow> fault + ut_bucket list \<times> byte32" where
  "rehash_buckets hp num2 ideal [] st = Inr st"
| "rehash_buckets hp num2 ideal (b # bs) st =
     bindr (rehash_chain hp num2 ideal (bkt_chain b) st) (\<lambda>st. rehash_buckets hp num2 ideal bs st)"

text \<open>\<open>can_alloc n\<close> says whether the allocator can give \<open>n\<close> bytes; a bucket has 16. A failed
  allocation is fatal to the program (\<^verbatim>\<open>uthash_fatal\<close>).\<close>

definition ideal_chain_maxlen :: "ut_table \<Rightarrow> byte32" where
  "ideal_chain_maxlen tbl =
     drop_bit (unat (tbl_log2_num_buckets tbl + 1)) (tbl_num_items tbl) +
     (if tbl_num_items tbl AND (tbl_num_buckets tbl * 2 - 1) \<noteq> 0 then 1 else 0)"

definition HASH_EXPAND_BUCKETS :: "(nat \<Rightarrow> bool) \<Rightarrow> heap \<Rightarrow> ut_table \<Rightarrow> fault + ut_table" where
  "HASH_EXPAND_BUCKETS can_alloc hp tbl =
     (if \<not> can_alloc (2 * unat (tbl_num_buckets tbl) * 16) then Inl (ProgramExit (-1))
      else
        let new_buckets = replicate (2 * unat (tbl_num_buckets tbl)) empty_bucket;
            ideal = ideal_chain_maxlen tbl
        in bindr (rehash_buckets hp (tbl_num_buckets tbl * 2) ideal
                    (take (unat (tbl_num_buckets tbl)) (tbl_buckets tbl)) (new_buckets, 0))
           (\<lambda>(new_buckets, nonideal).
        let ineff = (if nonideal > drop_bit 1 (tbl_num_items tbl)
                     then tbl_ineff_expands tbl + 1 else 0)
        in Inr (tbl\<lparr>tbl_ideal_chain_maxlen := ideal, tbl_nonideal_items := nonideal,
             tbl_num_buckets := tbl_num_buckets tbl * 2,
             tbl_log2_num_buckets := tbl_log2_num_buckets tbl + 1,
             tbl_buckets := new_buckets, tbl_ineff_expands := ineff,
             tbl_noexpand := (if ineff > 1 then 1 else tbl_noexpand tbl)\<rparr>)))"

definition HASH_ADD_TO_BKT :: "(nat \<Rightarrow> bool) \<Rightarrow> heap \<Rightarrow> nat \<Rightarrow> nat \<Rightarrow> ut_table \<Rightarrow> fault + ut_table" where
  "HASH_ADD_TO_BKT can_alloc hp bkt add tbl =
     bindr (bucket_at (tbl_buckets tbl) bkt) (\<lambda>b.
     let b = b\<lparr>bkt_count := bkt_count b + 1, bkt_chain := add # bkt_chain b\<rparr>;
         tbl = tbl\<lparr>tbl_buckets := (tbl_buckets tbl)[bkt := b]\<rparr>
     in if bkt_count b \<ge> (bkt_expand_mult b + 1) * HASH_BKT_CAPACITY_THRESH
           \<and> tbl_noexpand tbl = 0
        then HASH_EXPAND_BUCKETS can_alloc hp tbl else Inr tbl)"

definition HASH_ADD_TO_TABLE ::
    "(nat \<Rightarrow> bool) \<Rightarrow> heap \<Rightarrow> byte32 \<Rightarrow> nat \<Rightarrow> ut_table \<Rightarrow> fault + ut_table" where
  "HASH_ADD_TO_TABLE can_alloc hp hashval add tbl =
     (let tbl = tbl\<lparr>tbl_num_items := tbl_num_items tbl + 1\<rparr>
      in HASH_ADD_TO_BKT can_alloc hp (HASH_TO_BKT hashval (tbl_num_buckets tbl)) add tbl)"

text \<open>The two allocations of \<^verbatim>\<open>HASH_MAKE_TABLE\<close>: the table (64 bytes) and its buckets.\<close>

definition HASH_MAKE_TABLE :: "(nat \<Rightarrow> bool) \<Rightarrow> nat \<Rightarrow> fault + ut_table" where
  "HASH_MAKE_TABLE can_alloc head =
     (if \<not> can_alloc 64 \<or> \<not> can_alloc (unat HASH_INITIAL_NUM_BUCKETS * 16)
      then Inl (ProgramExit (-1))
      else Inr \<lparr>tbl_buckets = replicate (unat HASH_INITIAL_NUM_BUCKETS) empty_bucket,
        tbl_num_buckets = HASH_INITIAL_NUM_BUCKETS,
        tbl_log2_num_buckets = HASH_INITIAL_NUM_BUCKETS_LOG2, tbl_num_items = 0,
        tbl_order = [head], tbl_ideal_chain_maxlen = 0, tbl_nonideal_items = 0,
        tbl_ineff_expands = 0, tbl_noexpand = 0\<rparr>)"

definition HASH_APPEND_LIST :: "nat \<Rightarrow> ut_table \<Rightarrow> ut_table" where
  "HASH_APPEND_LIST add tbl = tbl\<lparr>tbl_order := tbl_order tbl @ [add]\<rparr>"

definition HASH_ADD_KEYPTR :: "(nat \<Rightarrow> bool) \<Rightarrow> heap \<Rightarrow> ut_table option \<Rightarrow> ptr \<Rightarrow> size_t \<Rightarrow> nat
    \<Rightarrow> fault + heap \<times> ut_table" where
  "HASH_ADD_KEYPTR can_alloc hp head keyptr keylen_in add =
     bindr (HASH_VALUE keyptr (unat keylen_in)) (\<lambda>hashv.
     bindr (deref hp add) (\<lambda>e.
     let hp = hp(add \<mapsto> e\<lparr>hh_hashv := hashv, hh_key := keyptr, hh_keylen := ucast keylen_in\<rparr>) in
     bindr (case head of None \<Rightarrow> HASH_MAKE_TABLE can_alloc add
            | Some tbl \<Rightarrow> Inr (HASH_APPEND_LIST add tbl)) (\<lambda>tbl.
     bindr (HASH_ADD_TO_TABLE can_alloc hp hashv add tbl) (\<lambda>tbl. Inr (hp, tbl)))))"

subsection \<open>Deletion\<close>

definition HASH_DEL_IN_BKT :: "nat \<Rightarrow> nat \<Rightarrow> ut_table \<Rightarrow> fault + ut_table" where
  "HASH_DEL_IN_BKT bkt delhh tbl =
     bindr (bucket_at (tbl_buckets tbl) bkt) (\<lambda>b.
     let b = b\<lparr>bkt_count := bkt_count b - 1, bkt_chain := remove1 delhh (bkt_chain b)\<rparr>
     in Inr (tbl\<lparr>tbl_buckets := (tbl_buckets tbl)[bkt := b]\<rparr>))"

text \<open>\<^verbatim>\<open>delptr\<close> is followed before anything else: a \<^verbatim>\<open>NULL\<close> argument is a fault. The element
  has neither neighbour exactly when the order holds nothing else.\<close>

definition HASH_DELETE :: "heap \<Rightarrow> ut_table option \<Rightarrow> nat option \<Rightarrow> fault + ut_table option" where
  "HASH_DELETE hp head delptr =
     (case delptr of None \<Rightarrow> Inl NullDeref
      | Some del \<Rightarrow>
          bindr (deref hp del) (\<lambda>e.
          case head of None \<Rightarrow> Inl NullDeref
          | Some tbl \<Rightarrow>
              if tbl_order tbl = [del] then Inr None
              else
                let tbl = tbl\<lparr>tbl_order := remove1 del (tbl_order tbl)\<rparr> in
                bindr (HASH_DEL_IN_BKT (HASH_TO_BKT (hh_hashv e) (tbl_num_buckets tbl)) del tbl)
                (\<lambda>tbl. Inr (Some (tbl\<lparr>tbl_num_items := tbl_num_items tbl - 1\<rparr>)))))"

section \<open>The invariant of a table\<close>

text \<open>Key bytes of an element, and the well-formedness of its handle.\<close>

definition key_of :: "heap \<Rightarrow> nat \<Rightarrow> bytes" where
  "key_of hp a = (case hp a of None \<Rightarrow> []
     | Some e \<Rightarrow> (case read_bytes (hh_key e) (unat (hh_keylen e)) of Inl _ \<Rightarrow> [] | Inr k \<Rightarrow> k))"

definition handle_ok :: "heap \<Rightarrow> nat \<Rightarrow> bool" where
  "handle_ok hp a = (case hp a of None \<Rightarrow> False
     | Some e \<Rightarrow> (case read_bytes (hh_key e) (unat (hh_keylen e)) of Inl _ \<Rightarrow> False
                | Inr k \<Rightarrow> hh_hashv e = HASH_JEN k))"

lemma handle_okE:
  assumes "handle_ok hp a"
  obtains e where "hp a = Some e" "read_bytes (hh_key e) (unat (hh_keylen e)) = Inr (key_of hp a)"
    "hh_hashv e = HASH_JEN (key_of hp a)" "length (key_of hp a) = unat (hh_keylen e)"
  using assms by (auto simp: handle_ok_def key_of_def split: option.splits sum.splits
      dest: read_bytes_length)

definition bucket_of :: "heap \<Rightarrow> byte32 \<Rightarrow> nat \<Rightarrow> nat" where
  "bucket_of hp num a = HASH_TO_BKT (HASH_JEN (key_of hp a)) num"

text \<open>Buckets that hold each element of a multiset once, in the bucket of its hash.\<close>

definition buckets_ok :: "heap \<Rightarrow> byte32 \<Rightarrow> ut_bucket list \<Rightarrow> nat multiset \<Rightarrow> bool" where
  "buckets_ok hp num bs M \<longleftrightarrow>
     length bs = unat num \<and> mset (concat (map bkt_chain bs)) = M \<and>
     (\<forall>i<length bs. \<forall>a\<in>set (bkt_chain (bs ! i)). bucket_of hp num a = i) \<and>
     (\<forall>b\<in>set bs. bkt_count b = of_nat (length (bkt_chain b)))"

definition table_ok :: "heap \<Rightarrow> ut_table \<Rightarrow> bool" where
  "table_ok hp t \<longleftrightarrow>
     tbl_log2_num_buckets t < 32 \<and> unat (tbl_num_buckets t) = 2 ^ unat (tbl_log2_num_buckets t) \<and>
     distinct (tbl_order t) \<and> tbl_order t \<noteq> [] \<and>
     tbl_num_items t = of_nat (length (tbl_order t)) \<and>
     (\<forall>a\<in>set (tbl_order t). handle_ok hp a) \<and> inj_on (key_of hp) (set (tbl_order t)) \<and>
     buckets_ok hp (tbl_num_buckets t) (tbl_buckets t) (mset (tbl_order t))"

lemma HASH_TO_BKT_less: "0 < unat num \<Longrightarrow> HASH_TO_BKT h num < unat num"
proof -
  assume "0 < unat num"
  then have "unat (num - 1) = unat num - 1" by (simp add: unat_minus_one unat_gt_0)
  moreover have "unat (h AND (num - 1)) \<le> unat (num - 1)"
    by (rule word_and_le1 [THEN word_le_nat_alt [THEN iffD1]])
  ultimately show ?thesis using \<open>0 < unat num\<close> by (simp add: HASH_TO_BKT_def)
qed

lemma bucket_of_less: "0 < unat num \<Longrightarrow> bucket_of hp num a < unat num"
  by (simp add: bucket_of_def HASH_TO_BKT_less)

subsection \<open>One bucket changes\<close>

lemma mset_concat_update:
  assumes "i < length bs"
  shows "mset (concat (map f (bs[i := b]))) + mset (f (bs ! i)) =
    mset (concat (map f bs)) + mset (f b)"
  using assms
proof (induction bs arbitrary: i)
  case (Cons x bs)
  show ?case
  proof (cases i)
    case 0
    then show ?thesis by (simp add: ac_simps)
  next
    case (Suc j)
    with Cons.prems Cons.IH [of j] show ?thesis by (simp add: add.assoc)
  qed
qed simp

lemma buckets_ok_push:
  assumes ok: "buckets_ok hp num bs M" and num: "0 < unat num"
    and i: "i = bucket_of hp num a"
    and b: "bkt_chain b = a # bkt_chain (bs ! i)" "bkt_count b = bkt_count (bs ! i) + 1"
  shows "buckets_ok hp num (bs[i := b]) (add_mset a M)"
proof -
  have len: "i < length bs" using ok num bucket_of_less by (simp add: buckets_ok_def i)
  have "mset (concat (map bkt_chain (bs[i := b]))) = add_mset a M"
    using mset_concat_update [OF len, of bkt_chain b] ok b by (simp add: buckets_ok_def)
  moreover have "\<forall>c\<in>set (bs[i := b]). bkt_count c = of_nat (length (bkt_chain c))"
    using ok b len by (auto simp: buckets_ok_def dest!: set_update_subset_insert [THEN subsetD])
  moreover have "\<forall>j<length (bs[i := b]). \<forall>x\<in>set (bkt_chain (bs[i := b] ! j)). bucket_of hp num x = j"
    using ok b len i by (auto simp: buckets_ok_def nth_list_update)
  ultimately show ?thesis using ok by (simp add: buckets_ok_def)
qed

lemma buckets_ok_remove:
  assumes ok: "buckets_ok hp num bs M" and a: "a \<in># M" and num: "0 < unat num"
    and i: "i = bucket_of hp num a"
    and b: "bkt_chain b = remove1 a (bkt_chain (bs ! i))" "bkt_count b = bkt_count (bs ! i) - 1"
  shows "buckets_ok hp num (bs[i := b]) (M - {#a#})"
proof -
  have len: "i < length bs" using ok num bucket_of_less by (simp add: buckets_ok_def i)
  have "a \<in> set (concat (map bkt_chain bs))"
    using ok a by (metis buckets_ok_def set_mset_mset)
  then obtain j where j: "j < length bs" "a \<in> set (bkt_chain (bs ! j))"
    by (simp add: in_concat_map del: set_concat) blast
  then have "j = i" using ok i by (simp add: buckets_ok_def)
  with j have mem: "a \<in> set (bkt_chain (bs ! i))" by simp
  then have h: "mset (bkt_chain (bs ! i)) = mset (bkt_chain b) + {#a#}" by (simp add: b)
  have "mset (concat (map bkt_chain (bs[i := b]))) + (mset (bkt_chain b) + {#a#})
      = M + mset (bkt_chain b)"
    using mset_concat_update [OF len, of bkt_chain b] ok unfolding h
    by (simp add: buckets_ok_def del: mset_concat)
  then have "mset (concat (map bkt_chain (bs[i := b]))) + {#a#} + mset (bkt_chain b)
      = M + mset (bkt_chain b)"
    by (simp only: ac_simps)
  then have "mset (concat (map bkt_chain (bs[i := b]))) + {#a#} = M"
    by (simp only: add_right_cancel)
  then have "mset (concat (map bkt_chain (bs[i := b]))) = M - {#a#}"
    by (metis add_diff_cancel_right')
  moreover have "length (bkt_chain (bs ! i)) = Suc (length (bkt_chain b))"
    using mem length_pos_if_in_set [OF mem] by (simp add: b length_remove1)
  then have "bkt_count b = of_nat (length (bkt_chain b))"
    using ok b(2) len by (simp add: buckets_ok_def)
  then have "\<forall>c\<in>set (bs[i := b]). bkt_count c = of_nat (length (bkt_chain c))"
    using ok by (auto simp: buckets_ok_def dest!: set_update_subset_insert [THEN subsetD])
  moreover have "\<forall>j<length (bs[i := b]). \<forall>x\<in>set (bkt_chain (bs[i := b] ! j)). bucket_of hp num x = j"
    using ok b len i by (auto simp: buckets_ok_def nth_list_update dest!: set_remove1_subset [THEN subsetD])
  ultimately show ?thesis using ok by (simp add: buckets_ok_def)
qed

subsection \<open>Lookup\<close>

lemma HASH_FIND_IN_BKT_spec:
  assumes "\<forall>a\<in>set chain. handle_ok hp a" "read_bytes p (unat n) = Inr k"
  shows "HASH_FIND_IN_BKT hp chain p n (HASH_JEN k) =
    Inr (find (\<lambda>a. key_of hp a = k) chain)"
  using assms(1)
proof (induction chain)
  case (Cons a chain)
  then obtain e where e: "hp a = Some e"
    "read_bytes (hh_key e) (unat (hh_keylen e)) = Inr (key_of hp a)"
    "hh_hashv e = HASH_JEN (key_of hp a)" "length (key_of hp a) = unat (hh_keylen e)"
    by (auto elim: handle_okE)
  have len: "length k = unat n" using assms(2) by (rule read_bytes_length)
  have IH: "HASH_FIND_IN_BKT hp chain p n (HASH_JEN k) = Inr (find (\<lambda>a. key_of hp a = k) chain)"
    using Cons by simp
  show ?case
  proof (cases "key_of hp a = k")
    case True
    with len e(4) have "hh_keylen e = n" by (simp add: word_unat_eq_iff)
    with True e assms(2) show ?thesis
      by (simp add: deref_def HASH_KEYCMP_def)
  next
    case False
    with e assms(2) IH show ?thesis
      by (auto simp: deref_def HASH_KEYCMP_def)
  qed
qed simp

lemma HASH_FIND_spec:
  assumes ok: "table_ok hp t" and k: "read_bytes p (unat n) = Inr k"
  shows "HASH_FIND hp (Some t) p n = Inr (find (\<lambda>a. key_of hp a = k) (tbl_order t))"
proof -
  let ?i = "HASH_TO_BKT (HASH_JEN k) (tbl_num_buckets t)"
  let ?bs = "tbl_buckets t"
  have num: "0 < unat (tbl_num_buckets t)" using ok by (simp add: table_ok_def)
  have bok: "buckets_ok hp (tbl_num_buckets t) ?bs (mset (tbl_order t))"
    using ok by (simp add: table_ok_def)
  then have i: "?i < length ?bs" using HASH_TO_BKT_less [OF num] by (simp add: buckets_ok_def)
  have all: "set (tbl_order t) = set (concat (map bkt_chain ?bs))"
    using bok by (metis buckets_ok_def set_mset_mset)
  have sub: "set (bkt_chain (?bs ! ?i)) \<subseteq> set (tbl_order t)"
    using i by (auto simp: all in_concat_map simp del: set_concat)
  have in_bkt: "a \<in> set (bkt_chain (?bs ! ?i))"
    if mem: "a \<in> set (tbl_order t)" and key: "key_of hp a = k" for a
  proof -
    obtain j where j: "j < length ?bs" "a \<in> set (bkt_chain (?bs ! j))"
      using mem unfolding all in_concat_map by blast
    then have "bucket_of hp (tbl_num_buckets t) a = j" using bok by (simp add: buckets_ok_def)
    then have "j = ?i" using key by (simp add: bucket_of_def)
    with j show ?thesis by simp
  qed
  have "HASH_FIND hp (Some t) p n = Inr (find (\<lambda>a. key_of hp a = k) (bkt_chain (?bs ! ?i)))"
  proof -
    have "\<forall>a\<in>set (bkt_chain (?bs ! ?i)). handle_ok hp a"
      using sub ok by (auto simp: table_ok_def)
    from HASH_FIND_IN_BKT_spec [OF this k] show ?thesis
      by (simp add: HASH_FIND_def HASH_VALUE_def k bucket_at_def i)
  qed
  also have "find (\<lambda>a. key_of hp a = k) (bkt_chain (?bs ! ?i)) =
      find (\<lambda>a. key_of hp a = k) (tbl_order t)"
  proof (rule find_same)
    show "a \<in> set (bkt_chain (?bs ! ?i)) \<longleftrightarrow> a \<in> set (tbl_order t)" if "key_of hp a = k" for a
      using sub in_bkt that by blast
    show "a = b" if "a \<in> set (tbl_order t)" "b \<in> set (tbl_order t)"
      "key_of hp a = k" "key_of hp b = k" for a b
      using ok that by (auto simp: table_ok_def inj_on_def)
  qed
  finally show ?thesis .
qed

subsection \<open>Expansion\<close>

lemma rehash_bucket_eq:
  "bkt_chain (fst (rehash_bucket ideal a b)) = a # bkt_chain b"
  "bkt_count (fst (rehash_bucket ideal a b)) = bkt_count b + 1"
  by (simp_all add: rehash_bucket_def Let_def)

lemma rehash_step_ok:
  assumes "buckets_ok hp num nb M" "0 < unat num" "handle_ok hp a"
  obtains nb' ni' where "rehash_step hp num ideal a (nb, ni) = Inr (nb', ni')"
    "buckets_ok hp num nb' (add_mset a M)"
proof -
  let ?i = "bucket_of hp num a"
  obtain e where e: "hp a = Some e" "hh_hashv e = HASH_JEN (key_of hp a)"
    using assms(3) by (auto elim: handle_okE)
  have i: "?i < length nb"
    using assms bucket_of_less by (simp add: buckets_ok_def)
  obtain b over where r: "rehash_bucket ideal a (nb ! ?i) = (b, over)" by fastforce
  then have b: "bkt_chain b = a # bkt_chain (nb ! ?i)" "bkt_count b = bkt_count (nb ! ?i) + 1"
    using rehash_bucket_eq [of ideal a "nb ! ?i"] by simp_all
  have "rehash_step hp num ideal a (nb, ni) = Inr (nb[?i := b], if over then ni + 1 else ni)"
    using i r by (simp add: rehash_step_def deref_def e bucket_of_def bucket_at_def)
  from that [OF this buckets_ok_push [OF assms(1,2) refl b]] show thesis .
qed

lemma rehash_chain_ok:
  assumes "buckets_ok hp num nb M" "0 < unat num" "\<forall>a\<in>set chain. handle_ok hp a"
  shows "\<exists>nb' ni'. rehash_chain hp num ideal chain (nb, ni) = Inr (nb', ni') \<and>
    buckets_ok hp num nb' (mset chain + M)"
  using assms
proof (induction chain arbitrary: nb ni M)
  case (Cons a chain)
  obtain nb1 ni1 where 1: "rehash_step hp num ideal a (nb, ni) = Inr (nb1, ni1)"
    "buckets_ok hp num nb1 (add_mset a M)"
    using rehash_step_ok Cons.prems by (metis list.set_intros(1))
  from Cons.IH [OF 1(2) Cons.prems(2), of ni1] Cons.prems(3) 1(1) show ?case by simp
qed simp

lemma rehash_buckets_ok:
  assumes "buckets_ok hp num nb M" "0 < unat num"
    and "\<forall>a\<in>set (concat (map bkt_chain bs)). handle_ok hp a"
  shows "\<exists>nb' ni'. rehash_buckets hp num ideal bs (nb, ni) = Inr (nb', ni') \<and>
    buckets_ok hp num nb' (mset (concat (map bkt_chain bs)) + M)"
  using assms
proof (induction bs arbitrary: nb ni M)
  case (Cons b bs)
  have "\<forall>a\<in>set (bkt_chain b). handle_ok hp a" using Cons.prems(3) by simp
  from rehash_chain_ok [OF Cons.prems(1,2) this, of ideal ni]
  obtain nb1 ni1 where 1: "rehash_chain hp num ideal (bkt_chain b) (nb, ni) = Inr (nb1, ni1)"
    "buckets_ok hp num nb1 (mset (bkt_chain b) + M)" by blast
  from Cons.IH [OF 1(2) Cons.prems(2), of ni1] Cons.prems(3) 1(1) show ?case
    by (auto simp: ac_simps)
qed simp

lemma buckets_ok_empty:
  "buckets_ok hp num (replicate (unat num) empty_bucket) {#}"
  by (auto simp: buckets_ok_def empty_bucket_def)

text \<open>\<open>memory_bound\<close>: the allocator cannot give the 64 GiB that the expansion from \<open>2 ^ 31\<close>
  buckets asks for, so the number of buckets stays a power of two below \<open>2 ^ 32\<close>.\<close>

definition memory_bound :: "(nat \<Rightarrow> bool) \<Rightarrow> bool" where
  "memory_bound can_alloc \<longleftrightarrow> (\<forall>n. can_alloc n \<longrightarrow> n < 2 ^ 36)"

lemma expand_num:
  fixes num log2 :: byte32
  assumes "unat num = 2 ^ unat log2" "2 * unat num * 16 < 2 ^ 36"
  shows "unat (num * 2) = 2 * unat num" "log2 + 1 < 32"
    "unat (num * 2) = 2 ^ unat (log2 + 1)"
proof -
  have "(2::nat) ^ (unat log2 + 5) < 2 ^ 36"
    using assms by (simp add: power_add)
  then have "unat log2 + 5 < 36" by (subst (asm) power_strict_increasing_iff) simp_all
  then have k: "unat log2 < 31" by simp
  then have l: "unat (log2 + 1) = unat log2 + 1"
    by (simp add: unat_word_ariths)
  have "unat num < 2 ^ 31"
    using k unfolding assms(1) by (subst power_strict_increasing_iff) simp_all
  then show n: "unat (num * 2) = 2 * unat num"
    by (simp add: unat_word_ariths)
  show "log2 + 1 < 32" using k l by (simp add: word_less_nat_alt)
  show "unat (num * 2) = 2 ^ unat (log2 + 1)" by (simp add: n l assms(1))
qed

text \<open>The buckets of a table hold the elements \<open>M\<close>.\<close>

definition hash_ok :: "heap \<Rightarrow> ut_table \<Rightarrow> nat multiset \<Rightarrow> bool" where
  "hash_ok hp t M \<longleftrightarrow> tbl_log2_num_buckets t < 32 \<and>
     unat (tbl_num_buckets t) = 2 ^ unat (tbl_log2_num_buckets t) \<and>
     buckets_ok hp (tbl_num_buckets t) (tbl_buckets t) M"

lemma HASH_EXPAND_BUCKETS_ok:
  assumes ok: "hash_ok hp t M" and handles: "\<forall>a\<in>#M. handle_ok hp a" and mem: "memory_bound can_alloc"
    and alloc: "can_alloc (2 * unat (tbl_num_buckets t) * 16)"
  obtains t' where "HASH_EXPAND_BUCKETS can_alloc hp t = Inr t'" "hash_ok hp t' M"
    "tbl_order t' = tbl_order t" "tbl_num_items t' = tbl_num_items t"
proof -
  let ?n = "tbl_num_buckets t"
  have bok: "buckets_ok hp ?n (tbl_buckets t) M" using ok by (simp add: hash_ok_def)
  have "2 * unat ?n * 16 < 2 ^ 36" using mem alloc by (simp add: memory_bound_def)
  note num = expand_num [OF _ this, of "tbl_log2_num_buckets t"]
  have n2: "unat (?n * 2) = 2 * unat ?n" "tbl_log2_num_buckets t + 1 < 32"
    "unat (?n * 2) = 2 ^ unat (tbl_log2_num_buckets t + 1)" "0 < unat (?n * 2)"
    using num ok by (simp_all add: hash_ok_def)
  have all: "take (unat ?n) (tbl_buckets t) = tbl_buckets t" using bok by (simp add: buckets_ok_def)
  have conc: "mset (concat (map bkt_chain (tbl_buckets t))) = M" using bok by (simp add: buckets_ok_def)
  then have "\<forall>a\<in>set (concat (map bkt_chain (tbl_buckets t))). handle_ok hp a"
    using handles by (metis set_mset_mset)
  from rehash_buckets_ok [OF buckets_ok_empty n2(4) this, of "ideal_chain_maxlen t" 0]
  obtain nb ni where r: "rehash_buckets hp (?n * 2) (ideal_chain_maxlen t) (tbl_buckets t)
        (replicate (2 * unat ?n) empty_bucket, 0) = Inr (nb, ni)"
      "buckets_ok hp (?n * 2) nb M"
    unfolding n2(1) conc by auto
  obtain t' where t': "HASH_EXPAND_BUCKETS can_alloc hp t = Inr t'"
    "tbl_order t' = tbl_order t" "tbl_num_items t' = tbl_num_items t" "tbl_buckets t' = nb"
    "tbl_num_buckets t' = ?n * 2" "tbl_log2_num_buckets t' = tbl_log2_num_buckets t + 1"
    using alloc r(1) by (simp add: HASH_EXPAND_BUCKETS_def all Let_def)
  then have "hash_ok hp t' M" using r(2) n2 by (simp add: hash_ok_def)
  with that t'(1,2,3) show thesis by blast
qed

text \<open>An element comes into its bucket, or the allocator refuses the expansion.\<close>

lemma HASH_ADD_TO_BKT_ok:
  assumes ok: "hash_ok hp t M" and handles: "\<forall>b\<in>#add_mset a M. handle_ok hp b"
    and mem: "memory_bound can_alloc"
  shows "HASH_ADD_TO_BKT can_alloc hp (bucket_of hp (tbl_num_buckets t) a) a t = Inl (ProgramExit (-1)) \<or>
    (\<exists>t'. HASH_ADD_TO_BKT can_alloc hp (bucket_of hp (tbl_num_buckets t) a) a t = Inr t' \<and>
       hash_ok hp t' (add_mset a M) \<and> tbl_order t' = tbl_order t \<and> tbl_num_items t' = tbl_num_items t)"
proof -
  let ?n = "tbl_num_buckets t" and ?bs = "tbl_buckets t"
  let ?i = "bucket_of hp ?n a"
  let ?b = "(?bs ! ?i)\<lparr>bkt_count := bkt_count (?bs ! ?i) + 1, bkt_chain := a # bkt_chain (?bs ! ?i)\<rparr>"
  let ?t = "t\<lparr>tbl_buckets := ?bs[?i := ?b]\<rparr>"
  have num: "0 < unat ?n" and bok: "buckets_ok hp ?n ?bs M" using ok by (simp_all add: hash_ok_def)
  have i: "?i < length ?bs" using bok bucket_of_less [OF num] by (simp add: buckets_ok_def)
  have "buckets_ok hp ?n (?bs[?i := ?b]) (add_mset a M)"
    by (rule buckets_ok_push [OF bok num refl]) simp_all
  then have tok: "hash_ok hp ?t (add_mset a M)" using ok by (simp add: hash_ok_def)
  have eq: "HASH_ADD_TO_BKT can_alloc hp ?i a t =
     (if bkt_count ?b \<ge> (bkt_expand_mult ?b + 1) * HASH_BKT_CAPACITY_THRESH \<and> tbl_noexpand t = 0
      then HASH_EXPAND_BUCKETS can_alloc hp ?t else Inr ?t)"
    using i by (simp add: HASH_ADD_TO_BKT_def bucket_at_def Let_def)
  show ?thesis
  proof (cases "can_alloc (2 * unat (tbl_num_buckets ?t) * 16)")
    case True
    obtain t' where "HASH_EXPAND_BUCKETS can_alloc hp ?t = Inr t'" "hash_ok hp t' (add_mset a M)"
      "tbl_order t' = tbl_order ?t" "tbl_num_items t' = tbl_num_items ?t"
      by (rule HASH_EXPAND_BUCKETS_ok [OF tok handles mem True])
    then show ?thesis using tok by (simp add: eq)
  next
    case False
    then have "HASH_EXPAND_BUCKETS can_alloc hp ?t = Inl (ProgramExit (-1))"
      by (simp add: HASH_EXPAND_BUCKETS_def)
    then show ?thesis using tok by (simp add: eq)
  qed
qed

subsection \<open>Insertion\<close>

text \<open>The bucket of an element depends on the heap only through its handle.\<close>

lemma buckets_ok_cong:
  assumes "\<And>a. a \<in># M \<Longrightarrow> key_of hp' a = key_of hp a" "buckets_ok hp num bs M"
  shows "buckets_ok hp' num bs M"
proof -
  have "a \<in># M" if "i < length bs" "a \<in> set (bkt_chain (bs ! i))" for i a
  proof -
    have "a \<in> set (concat (map bkt_chain bs))" using that by (auto simp: in_concat_map simp del: set_concat)
    then show ?thesis using assms(2) by (metis buckets_ok_def set_mset_mset)
  qed
  then show ?thesis
    using assms by (simp add: buckets_ok_def bucket_of_def)
qed

definition order_of :: "ut_table option \<Rightarrow> nat list" where
  "order_of head = (case head of None \<Rightarrow> [] | Some t \<Rightarrow> tbl_order t)"

definition head_ok :: "heap \<Rightarrow> ut_table option \<Rightarrow> bool" where
  "head_ok hp head = (case head of None \<Rightarrow> True | Some t \<Rightarrow> table_ok hp t)"

lemma order_of_simps [simp]: "order_of None = []" "order_of (Some t) = tbl_order t"
  by (simp_all add: order_of_def)

lemma head_ok_simps [simp]: "head_ok hp None" "head_ok hp (Some t) = table_ok hp t"
  by (simp_all add: head_ok_def)

text \<open>A table that is well formed but for the element \<open>a\<close> that is linked in the order and not
  yet in a bucket.\<close>

definition linked_ok :: "heap \<Rightarrow> nat \<Rightarrow> ut_table \<Rightarrow> bool" where
  "linked_ok hp a t \<longleftrightarrow>
     tbl_log2_num_buckets t < 32 \<and> unat (tbl_num_buckets t) = 2 ^ unat (tbl_log2_num_buckets t) \<and>
     distinct (tbl_order t) \<and> a \<in> set (tbl_order t) \<and>
     tbl_num_items t + 1 = of_nat (length (tbl_order t)) \<and>
     (\<forall>a\<in>set (tbl_order t). handle_ok hp a) \<and> inj_on (key_of hp) (set (tbl_order t)) \<and>
     buckets_ok hp (tbl_num_buckets t) (tbl_buckets t) (mset (tbl_order t) - {#a#})"

lemma HASH_ADD_TO_TABLE_ok:
  assumes ok: "linked_ok hp a t" and mem: "memory_bound can_alloc"
  shows "HASH_ADD_TO_TABLE can_alloc hp (HASH_JEN (key_of hp a)) a t = Inl (ProgramExit (-1)) \<or>
    (\<exists>t'. HASH_ADD_TO_TABLE can_alloc hp (HASH_JEN (key_of hp a)) a t = Inr t' \<and>
       table_ok hp t' \<and> tbl_order t' = tbl_order t)"
proof -
  let ?M = "mset (tbl_order t) - {#a#}" and ?t = "t\<lparr>tbl_num_items := tbl_num_items t + 1\<rparr>"
  have M: "add_mset a ?M = mset (tbl_order t)" using ok by (simp add: linked_ok_def)
  have "hash_ok hp ?t ?M" using ok by (simp add: linked_ok_def hash_ok_def)
  moreover have "\<forall>b\<in>#add_mset a ?M. handle_ok hp b" unfolding M using ok by (simp add: linked_ok_def)
  ultimately have "HASH_ADD_TO_BKT can_alloc hp (bucket_of hp (tbl_num_buckets ?t) a) a ?t = Inl (ProgramExit (-1)) \<or>
    (\<exists>t'. HASH_ADD_TO_BKT can_alloc hp (bucket_of hp (tbl_num_buckets ?t) a) a ?t = Inr t' \<and>
       hash_ok hp t' (add_mset a ?M) \<and> tbl_order t' = tbl_order ?t \<and> tbl_num_items t' = tbl_num_items ?t)"
    by (rule HASH_ADD_TO_BKT_ok [OF _ _ mem])
  then show ?thesis
    unfolding M using ok
    by (auto simp: HASH_ADD_TO_TABLE_def Let_def bucket_of_def linked_ok_def table_ok_def hash_ok_def)
qed

lemma handle_upd_other:
  assumes "b \<noteq> a"
  shows "key_of (hp(a := x)) b = key_of hp b" "handle_ok (hp(a := x)) b = handle_ok hp b"
  using assms by (simp_all add: key_of_def handle_ok_def)

text \<open>The first half of an insertion: the table is made, or the element appended to its list.\<close>

definition link_element :: "(nat \<Rightarrow> bool) \<Rightarrow> ut_table option \<Rightarrow> nat \<Rightarrow> fault + ut_table" where
  "link_element can_alloc head a =
     (case head of None \<Rightarrow> HASH_MAKE_TABLE can_alloc a | Some t \<Rightarrow> Inr (HASH_APPEND_LIST a t))"

lemma link_element_cases:
  "link_element can_alloc head a = Inl f \<Longrightarrow> f = ProgramExit (-1)"
  "link_element can_alloc head a = Inr t \<Longrightarrow> tbl_order t = order_of head @ [a]"
  by (auto simp: link_element_def HASH_MAKE_TABLE_def HASH_APPEND_LIST_def
      split: option.splits if_splits)

lemma link_element_ok:
  assumes ok: "head_ok hp head" and fresh: "a \<notin> set (order_of head)" and h: "handle_ok hp' a"
    and new: "\<forall>b\<in>set (order_of head). key_of hp b \<noteq> key_of hp' a"
    and other: "\<And>b. b \<in> set (order_of head) \<Longrightarrow> key_of hp' b = key_of hp b"
      "\<And>b. b \<in> set (order_of head) \<Longrightarrow> handle_ok hp' b = handle_ok hp b"
    and link: "link_element can_alloc head a = Inr t"
  shows "linked_ok hp' a t"
proof (cases head)
  case None
  then have "t = \<lparr>tbl_buckets = replicate 32 empty_bucket, tbl_num_buckets = 32,
    tbl_log2_num_buckets = 5, tbl_num_items = 0, tbl_order = [a], tbl_ideal_chain_maxlen = 0,
    tbl_nonideal_items = 0, tbl_ineff_expands = 0, tbl_noexpand = 0\<rparr>"
    using link by (simp add: link_element_def HASH_MAKE_TABLE_def HASH_INITIAL_NUM_BUCKETS_def
        HASH_INITIAL_NUM_BUCKETS_LOG2_def split: if_splits)
  then show ?thesis using h buckets_ok_empty [of hp' 32] by (simp add: linked_ok_def)
next
  case (Some t0)
  then have t: "t = t0\<lparr>tbl_order := tbl_order t0 @ [a]\<rparr>"
    using link by (simp add: link_element_def HASH_APPEND_LIST_def)
  have "table_ok hp t0" using ok Some by simp
  moreover have "buckets_ok hp' (tbl_num_buckets t0) (tbl_buckets t0) (mset (tbl_order t0))"
    by (rule buckets_ok_cong [where hp = hp])
      (use calculation other(1) Some in \<open>simp_all add: table_ok_def\<close>)
  moreover have "inj_on (key_of hp') (set (tbl_order t0)) = inj_on (key_of hp) (set (tbl_order t0))"
    by (rule inj_on_cong) (simp add: other(1) Some)
  then have "inj_on (key_of hp') (set (tbl_order t0))"
    using calculation(1) by (simp add: table_ok_def)
  then have "inj_on (key_of hp') (insert a (set (tbl_order t0)))"
    using other(1) new Some by (fastforce simp: inj_on_insert)
  ultimately show ?thesis
    using fresh h other Some by (auto simp: t linked_ok_def table_ok_def)
qed

lemma HASH_ADD_KEYPTR_ok:
  assumes ok: "head_ok hp head" and mem: "memory_bound can_alloc"
    and e: "hp a = Some e" and fresh: "a \<notin> set (order_of head)"
    and k: "read_bytes p (unat n) = Inr k" and n: "unat n < 2 ^ 32"
    and new: "\<forall>b\<in>set (order_of head). key_of hp b \<noteq> k"
    and hp': "hp' = hp(a \<mapsto> e\<lparr>hh_hashv := HASH_JEN k, hh_key := p, hh_keylen := ucast n\<rparr>)"
  shows "HASH_ADD_KEYPTR can_alloc hp head p n a = Inl (ProgramExit (-1)) \<or>
    (\<exists>t. HASH_ADD_KEYPTR can_alloc hp head p n a = Inr (hp', t) \<and> table_ok hp' t \<and>
       tbl_order t = order_of head @ [a])"
proof -
  have len: "unat (ucast n :: byte32) = unat n"
    using n by (simp add: unsigned_ucast_eq take_bit_nat_eq_self)
  have key: "key_of hp' a = k" and h: "handle_ok hp' a"
    by (simp_all add: hp' key_of_def handle_ok_def len k)
  have other: "key_of hp' b = key_of hp b" "handle_ok hp' b = handle_ok hp b"
    if "b \<in> set (order_of head)" for b
    using that fresh by (auto simp: hp' intro!: handle_upd_other)
  have eq: "HASH_ADD_KEYPTR can_alloc hp head p n a =
    bindr (link_element can_alloc head a)
      (\<lambda>t. bindr (HASH_ADD_TO_TABLE can_alloc hp' (HASH_JEN (key_of hp' a)) a t)
             (\<lambda>t. Inr (hp', t)))"
    unfolding key by (simp add: link_element_def HASH_ADD_KEYPTR_def HASH_VALUE_def k deref_def e Let_def hp')
  show ?thesis
  proof (cases "link_element can_alloc head a")
    case (Inl f)
    then show ?thesis using link_element_cases(1) by (simp add: eq)
  next
    case (Inr t)
    have "linked_ok hp' a t"
      by (rule link_element_ok [OF ok fresh h _ other Inr]) (simp_all add: key new)
    from HASH_ADD_TO_TABLE_ok [OF this mem] link_element_cases(2) [OF Inr] Inr
    show ?thesis by (auto simp: eq)
  qed
qed

subsection \<open>Deletion\<close>

lemma HASH_DELETE_ok:
  assumes ok: "table_ok hp t" and a: "a \<in> set (tbl_order t)"
  shows "\<exists>head. HASH_DELETE hp (Some t) (Some a) = Inr head \<and> head_ok hp head \<and>
    order_of head = remove1 a (tbl_order t)"
proof (cases "tbl_order t = [a]")
  case True
  then obtain e where "hp a = Some e" using ok by (auto simp: table_ok_def elim: handle_okE)
  with True show ?thesis by (simp add: HASH_DELETE_def deref_def)
next
  case False
  let ?n = "tbl_num_buckets t" and ?bs = "tbl_buckets t"
  let ?i = "bucket_of hp ?n a"
  let ?b = "(?bs ! ?i)\<lparr>bkt_count := bkt_count (?bs ! ?i) - 1,
              bkt_chain := remove1 a (bkt_chain (?bs ! ?i))\<rparr>"
  let ?t = "t\<lparr>tbl_order := remove1 a (tbl_order t), tbl_buckets := ?bs[?i := ?b],
              tbl_num_items := tbl_num_items t - 1\<rparr>"
  obtain e where e: "hp a = Some e" "hh_hashv e = HASH_JEN (key_of hp a)"
    using ok a by (auto simp: table_ok_def elim: handle_okE)
  have num: "0 < unat ?n" using ok by (simp add: table_ok_def)
  have bok: "buckets_ok hp ?n ?bs (mset (tbl_order t))" using ok by (simp add: table_ok_def)
  have i: "?i < length ?bs" using bok bucket_of_less [OF num] by (simp add: buckets_ok_def)
  have "buckets_ok hp ?n (?bs[?i := ?b]) (mset (tbl_order t) - {#a#})"
    by (rule buckets_ok_remove [OF bok _ num refl]) (simp_all add: a)
  moreover have ne: "remove1 a (tbl_order t) \<noteq> []"
    using False a by (cases "tbl_order t") (auto split: if_splits)
  moreover have "length (tbl_order t) = Suc (length (remove1 a (tbl_order t)))"
    using a length_pos_if_in_set [OF a] by (simp add: length_remove1)
  then have "tbl_num_items t - 1 = of_nat (length (remove1 a (tbl_order t)))"
    using ok by (simp add: table_ok_def)
  ultimately have "table_ok hp ?t"
    using ok a by (auto simp: table_ok_def intro: inj_on_subset)
  moreover have "HASH_DELETE hp (Some t) (Some a) = Inr (Some ?t)"
    using False e i
    by (simp add: HASH_DELETE_def HASH_DEL_IN_BKT_def deref_def bucket_at_def Let_def bucket_of_def)
  ultimately show ?thesis by simp
qed

lemma HASH_FIND_head:
  assumes "head_ok hp head" "read_bytes p (unat n) = Inr k"
  shows "HASH_FIND hp head p n = Inr (find (\<lambda>a. key_of hp a = k) (order_of head))"
  using assms HASH_FIND_spec by (cases head) (auto simp: HASH_FIND_def)

section \<open>The interface of a table of elements\<close>

text \<open>What \<^verbatim>\<open>hash_helper.c\<close> relies on: the laws of lookup, insertion and deletion over the
  keys of the linked elements. An insertion may end the program instead when the allocator
  refuses.\<close>

locale element_table =
  fixes tok :: "heap \<Rightarrow> 't \<Rightarrow> bool"
    and elems :: "'t \<Rightarrow> nat list"
    and findt :: "heap \<Rightarrow> 't \<Rightarrow> ptr \<Rightarrow> byte32 \<Rightarrow> fault + nat option"
    and addt :: "(nat \<Rightarrow> bool) \<Rightarrow> heap \<Rightarrow> 't \<Rightarrow> ptr \<Rightarrow> size_t \<Rightarrow> nat \<Rightarrow> fault + heap \<times> 't"
    and delt :: "heap \<Rightarrow> 't \<Rightarrow> nat option \<Rightarrow> fault + 't"
  assumes tok_distinct: "tok hp t \<Longrightarrow> distinct (elems t) \<and> inj_on (key_of hp) (set (elems t))"
    and tok_handle: "tok hp t \<Longrightarrow> a \<in> set (elems t) \<Longrightarrow> handle_ok hp a"
    and tok_frame: "tok hp t \<Longrightarrow> (\<And>a. a \<in> set (elems t) \<Longrightarrow>
        key_of hp' a = key_of hp a \<and> handle_ok hp' a) \<Longrightarrow> tok hp' t"
    and find_law: "tok hp t \<Longrightarrow> read_bytes p (unat n) = Inr k \<Longrightarrow>
        findt hp t p n = Inr (find (\<lambda>a. key_of hp a = k) (elems t))"
    and add_law: "tok hp t \<Longrightarrow> memory_bound can_alloc \<Longrightarrow> hp a = Some e \<Longrightarrow> a \<notin> set (elems t) \<Longrightarrow>
        read_bytes p (unat m) = Inr k \<Longrightarrow> unat m < 2 ^ 32 \<Longrightarrow>
        \<forall>b\<in>set (elems t). key_of hp b \<noteq> k \<Longrightarrow>
        hp' = hp(a \<mapsto> e\<lparr>hh_hashv := HASH_JEN k, hh_key := p, hh_keylen := ucast m\<rparr>) \<Longrightarrow>
        addt can_alloc hp t p m a = Inl (ProgramExit (-1)) \<or>
        (\<exists>t'. addt can_alloc hp t p m a = Inr (hp', t') \<and> tok hp' t' \<and> elems t' = elems t @ [a])"
    and del_law: "tok hp t \<Longrightarrow> a \<in> set (elems t) \<Longrightarrow>
        \<exists>t'. delt hp t (Some a) = Inr t' \<and> tok hp t' \<and> elems t' = remove1 a (elems t)"
    and del_null: "delt hp t None = Inl NullDeref"
begin

lemma find_Some:
  assumes "tok hp t"
  shows "find (\<lambda>a. key_of hp a = k) (elems t) = Some a \<longleftrightarrow> a \<in> set (elems t) \<and> key_of hp a = k"
proof
  assume "a \<in> set (elems t) \<and> key_of hp a = k"
  moreover then obtain b where "find (\<lambda>a. key_of hp a = k) (elems t) = Some b"
    by (cases "find (\<lambda>a. key_of hp a = k) (elems t)") (auto simp: find_None_iff)
  moreover then have "b \<in> set (elems t) \<and> key_of hp b = k"
    by (auto dest: find_SomeD)
  ultimately show "find (\<lambda>a. key_of hp a = k) (elems t) = Some a"
    using tok_distinct [OF assms] by (auto dest: inj_onD)
qed (auto dest: find_SomeD)

lemma find_iff:
  assumes "tok hp t" "read_bytes p (unat n) = Inr k"
  shows "findt hp t p n = Inr (Some a) \<longleftrightarrow> a \<in> set (elems t) \<and> key_of hp a = k"
  by (simp add: find_law [OF assms] find_Some [OF assms(1)])

lemma find_remove:
  assumes "tok hp t" "a \<in> set (elems t)"
  shows "find (\<lambda>b. key_of hp b = k) (remove1 a (elems t)) =
    (if k = key_of hp a then None else find (\<lambda>b. key_of hp b = k) (elems t))"
proof (cases "k = key_of hp a")
  case True
  have "set (remove1 a (elems t)) = set (elems t) - {a}"
    using tok_distinct [OF assms(1)] by (simp add: set_remove1_eq)
  then have "\<forall>b\<in>set (remove1 a (elems t)). key_of hp b \<noteq> k"
    using True assms(2) tok_distinct [OF assms(1)] by (auto dest: inj_onD)
  then show ?thesis using True by (simp add: find_None_iff)
next
  case False
  have "find (\<lambda>b. key_of hp b = k) (remove1 a (elems t)) = find (\<lambda>b. key_of hp b = k) (elems t)"
  proof (rule find_same)
    show "b \<in> set (remove1 a (elems t)) \<longleftrightarrow> b \<in> set (elems t)" if "key_of hp b = k" for b
    proof -
      have "b \<noteq> a" using that False by auto
      then show ?thesis by (simp add: in_set_remove1)
    qed
    show "b = c" if "b \<in> set (elems t)" "c \<in> set (elems t)" "key_of hp b = k" "key_of hp c = k" for b c
      using that tok_distinct [OF assms(1)] by (auto dest: inj_onD)
  qed
  then show ?thesis using False by simp
qed

end

lemma table_ok_frame:
  assumes "head_ok hp t" "\<And>a. a \<in> set (order_of t) \<Longrightarrow> key_of hp' a = key_of hp a \<and> handle_ok hp' a"
  shows "head_ok hp' t"
proof (cases t)
  case (Some u)
  have "buckets_ok hp' (tbl_num_buckets u) (tbl_buckets u) (mset (tbl_order u))"
    by (rule buckets_ok_cong [where hp = hp]) (use assms Some in \<open>simp_all add: table_ok_def\<close>)
  moreover have "inj_on (key_of hp') (set (tbl_order u)) = inj_on (key_of hp) (set (tbl_order u))"
    by (rule inj_on_cong) (use assms(2) Some in simp)
  ultimately show ?thesis using assms Some by (simp add: table_ok_def)
qed simp

text \<open>The insertion with the new value of \<^verbatim>\<open>head\<close>.\<close>

definition HASH_ADD_HEAD :: "(nat \<Rightarrow> bool) \<Rightarrow> heap \<Rightarrow> ut_table option \<Rightarrow> ptr \<Rightarrow> size_t \<Rightarrow> nat
    \<Rightarrow> fault + heap \<times> ut_table option" where
  "HASH_ADD_HEAD can_alloc hp head p n a =
     bindr (HASH_ADD_KEYPTR can_alloc hp head p n a) (\<lambda>(hp, t). Inr (hp, Some t))"

interpretation ut: element_table head_ok order_of HASH_FIND HASH_ADD_HEAD HASH_DELETE
proof unfold_locales
  fix hp t assume "head_ok hp t"
  then show "distinct (order_of t) \<and> inj_on (key_of hp) (set (order_of t))"
    by (cases t) (auto simp: table_ok_def)
next
  fix hp t a assume "head_ok hp t" "a \<in> set (order_of t)"
  then show "handle_ok hp a" by (cases t) (auto simp: table_ok_def)
next
  fix hp t hp' assume "head_ok hp t"
    "\<And>a. a \<in> set (order_of t) \<Longrightarrow> key_of hp' a = key_of hp a \<and> handle_ok hp' a"
  then show "head_ok hp' t" by (rule table_ok_frame)
next
  fix hp t p k and n :: byte32
  assume "head_ok hp t" "read_bytes p (unat n) = Inr k"
  then show "HASH_FIND hp t p n = Inr (find (\<lambda>a. key_of hp a = k) (order_of t))"
    by (rule HASH_FIND_head)
next
  fix hp hp' t can_alloc a e p k and m :: size_t
  assume "head_ok hp t" "memory_bound can_alloc" "hp a = Some e" "a \<notin> set (order_of t)"
    "read_bytes p (unat m) = Inr k" "unat m < 2 ^ 32" "\<forall>b\<in>set (order_of t). key_of hp b \<noteq> k"
    "hp' = hp(a \<mapsto> e\<lparr>hh_hashv := HASH_JEN k, hh_key := p, hh_keylen := ucast m\<rparr>)"
  from HASH_ADD_KEYPTR_ok [OF this]
  show "HASH_ADD_HEAD can_alloc hp t p m a = Inl (ProgramExit (-1)) \<or>
    (\<exists>t'. HASH_ADD_HEAD can_alloc hp t p m a = Inr (hp', t') \<and> head_ok hp' t' \<and>
       order_of t' = order_of t @ [a])"
    by (auto simp: HASH_ADD_HEAD_def)
next
  fix hp t a assume a: "head_ok hp t" "a \<in> set (order_of t)"
  then obtain u where "t = Some u" by (cases t) auto
  with a show "\<exists>t'. HASH_DELETE hp t (Some a) = Inr t' \<and> head_ok hp t' \<and>
      order_of t' = remove1 a (order_of t)"
    using HASH_DELETE_ok by simp
qed (simp add: HASH_DELETE_def)

end
