(* ===== verification/Uthash_Refine.thy ===== *)
theory Uthash_Refine
  imports Uthash_Links
begin

text \<open>
  The operations of \<^verbatim>\<open>Uthash_Links\<close>, which follow the pointers of
  \<^verbatim>\<open>src/src/libraries/uthash.h\<close>, refine those of \<^verbatim>\<open>Uthash\<close> on lists: started in related
  states both end in the same fault, or in related states.
\<close>

section \<open>Runs that agree\<close>

definition simr :: "('a \<Rightarrow> 'b \<Rightarrow> bool) \<Rightarrow> fault + 'a \<Rightarrow> fault + 'b \<Rightarrow> bool" where
  "simr P x y = (case x of Inl f \<Rightarrow> y = Inl f | Inr a \<Rightarrow> (\<exists>b. y = Inr b \<and> P a b))"

lemma simr_simps [simp]:
  "simr P (Inl f) y \<longleftrightarrow> y = Inl f"
  "simr P (Inr a) y \<longleftrightarrow> (\<exists>b. y = Inr b \<and> P a b)"
  by (simp_all add: simr_def)

lemma simr_refl [simp]: "simr (=) x x"
  by (cases x) simp_all

lemma simr_bind:
  assumes "simr P x y" "\<And>a b. x = Inr a \<Longrightarrow> P a b \<Longrightarrow> simr Q (f a) (g b)"
  shows "simr Q (bindr x f) (bindr y g)"
  using assms by (cases x) auto

lemma simr_mono:
  assumes "simr P x y" "\<And>a b. P a b \<Longrightarrow> Q a b" shows "simr Q x y"
  using assms by (cases x) auto

lemma simr_same:
  assumes "\<And>a. x = Inr a \<Longrightarrow> simr Q (f a) (g a)"
  shows "simr Q (bindr x f) (bindr x g)"
  using assms by (cases x) auto

section \<open>Chains and tables\<close>

definition chain_rel :: "cells \<Rightarrow> ut_bucket \<Rightarrow> lbucket \<Rightarrow> bool" where
  "chain_rel cs b lb \<longleftrightarrow>
     lb_head lb = first_of (bkt_chain b) None \<and> dseg cs None (bkt_chain b) None \<and>
     lb_count lb = bkt_count b \<and> lb_expand_mult lb = bkt_expand_mult b"

abbreviation elems_of :: "ut_bucket list \<Rightarrow> nat list" where
  "elems_of bs \<equiv> concat (map bkt_chain bs)"

definition buckets_rel :: "cells \<Rightarrow> ut_bucket list \<Rightarrow> lbucket list \<Rightarrow> bool" where
  "buckets_rel cs bs lbs \<longleftrightarrow> list_all2 (chain_rel cs) bs lbs \<and> distinct (elems_of bs)"

definition tbl_rel :: "cells \<Rightarrow> ut_table \<Rightarrow> ltable \<Rightarrow> bool" where
  "tbl_rel cs t lt \<longleftrightarrow> buckets_rel cs (tbl_buckets t) (lt_buckets lt) \<and>
     lt_num_buckets lt = tbl_num_buckets t \<and> lt_log2_num_buckets lt = tbl_log2_num_buckets t \<and>
     lt_num_items lt = tbl_num_items t \<and> lt_tail lt = last_of None (tbl_order t) \<and>
     lt_ideal_chain_maxlen lt = tbl_ideal_chain_maxlen t \<and>
     lt_nonideal_items lt = tbl_nonideal_items t \<and> lt_ineff_expands lt = tbl_ineff_expands t \<and>
     lt_noexpand lt = tbl_noexpand t"

definition links_rel :: "ut_table option \<Rightarrow> links \<Rightarrow> bool" where
  "links_rel head s \<longleftrightarrow>
     (case head of None \<Rightarrow> l_head s = None
      | Some t \<Rightarrow> tbl_order t \<noteq> [] \<and> l_head s = first_of (tbl_order t) None \<and>
          dseg (l_ord s) None (tbl_order t) None \<and> distinct (tbl_order t) \<and>
          (\<exists>lt. l_tbl s = Some lt \<and> tbl_rel (l_chn s) t lt))"

lemma distinct_chains:
  assumes "distinct (concat (map f bs))" "i < length bs" "j < length bs" "i \<noteq> j"
  shows "set (f (bs ! i)) \<inter> set (f (bs ! j)) = {}"
  using assms
proof (induction bs arbitrary: i j)
  case (Cons b bs)
  have "set (f b) \<inter> set (f (bs ! k)) = {}" if "k < length bs" for k
    using Cons.prems(1) that nth_mem by fastforce
  with Cons show ?case by (cases i; cases j) (auto simp: Int_commute)
qed simp

lemma chain_rel_frame:
  assumes "chain_rel cs b lb" "\<And>x. x \<in> set (bkt_chain b) \<Longrightarrow> cs' x = cs x"
  shows "chain_rel cs' b lb"
  using assms dseg_frame [of "bkt_chain b" cs' cs] by (simp add: chain_rel_def)

lemma chains_frame:
  assumes "list_all2 (chain_rel cs) bs lbs" "\<And>x. x \<in> set (elems_of bs) \<Longrightarrow> cs' x = cs x"
  shows "list_all2 (chain_rel cs') bs lbs"
  using assms(1)
  by (rule list.rel_mono_strong) (rule chain_rel_frame, assumption, use assms(2) in auto)

text \<open>One bucket changes, and with it cells of its old and its new chain only.\<close>

lemma buckets_rel_update:
  assumes rel: "buckets_rel cs bs lbs" and i: "i < length bs" and b: "chain_rel cs' b lb"
    and dist: "distinct (elems_of (bs[i := b]))"
    and frame: "\<And>x. x \<notin> set (bkt_chain (bs ! i)) \<union> set (bkt_chain b) \<Longrightarrow> cs' x = cs x"
  shows "buckets_rel cs' (bs[i := b]) (lbs[i := lb])"
proof -
  have all: "list_all2 (chain_rel cs) bs lbs" and len: "length bs = length lbs"
    using rel by (auto simp: buckets_rel_def dest: list_all2_lengthD)
  have "chain_rel cs' (bs[i := b] ! j) (lbs[i := lb] ! j)" if j: "j < length bs" for j
  proof (cases "j = i")
    case True
    then show ?thesis using b i len by simp
  next
    case False
    have "set (bkt_chain (bs ! j)) \<inter> set (bkt_chain (bs ! i)) = {}"
      using rel i j False by (intro distinct_chains) (simp_all add: buckets_rel_def)
    moreover have "set (bkt_chain (bs[i := b] ! j)) \<inter> set (bkt_chain (bs[i := b] ! i)) = {}"
      using dist i j False by (intro distinct_chains) simp_all
    ultimately have "cs' x = cs x" if "x \<in> set (bkt_chain (bs ! j))" for x
      using that frame False i by auto
    then show ?thesis
      using chain_rel_frame [of cs "bs ! j" "lbs ! j" cs'] list_all2_nthD [OF all j] False by simp
  qed
  then have "list_all2 (chain_rel cs') (bs[i := b]) (lbs[i := lb])"
    using len by (simp add: list_all2_conv_all_nth)
  with dist show ?thesis by (simp add: buckets_rel_def)
qed

lemma buckets_rel_at:
  assumes "buckets_rel cs bs lbs"
  shows "simr (\<lambda>b lb. chain_rel cs b lb \<and> b = bs ! i \<and> i < length bs) (bucket_at bs i) (lbucket_at lbs i)"
  using assms
  by (auto simp: buckets_rel_def bucket_at_def lbucket_at_def list_all2_conv_all_nth)

subsection \<open>Lookup\<close>

lemma find_in_bkt_refines:
  assumes "dseg cs p chain None" "length chain \<le> fuel"
  shows "HASH_FIND_IN_BKT_p fuel hp cs (first_of chain None) k n h = HASH_FIND_IN_BKT hp chain k n h"
  using assms
proof (induction chain arbitrary: p fuel)
  case (Cons a chain)
  then obtain f where f: "fuel = Suc f" "length chain \<le> f" by (cases fuel) auto
  have "cell_at cs (Some a) = Inr \<lparr>c_prev = p, c_next = first_of chain None\<rparr>"
    and seg: "dseg cs (Some a) chain None" using Cons.prems(1) by simp_all
  moreover have "HASH_FIND_IN_BKT_p f hp cs (first_of chain None) k n h = HASH_FIND_IN_BKT hp chain k n h"
    by (rule Cons.IH [OF seg f(2)])
  ultimately show ?case by (simp add: f(1) bindr_def split: sum.split)
qed simp

lemma chain_length:
  assumes "i < length bs" shows "length (bkt_chain (bs ! i)) \<le> length (elems_of bs)"
  using assms by (induction bs arbitrary: i) (auto simp: nth_Cons trans_le_add2 split: nat.split)

lemma table_elems:
  assumes "table_ok hp t"
  shows "mset (elems_of (tbl_buckets t)) = mset (tbl_order t)"
    "length (elems_of (tbl_buckets t)) = length (tbl_order t)"
    "set (elems_of (tbl_buckets t)) = set (tbl_order t)"
proof -
  show m: "mset (elems_of (tbl_buckets t)) = mset (tbl_order t)"
    using assms by (simp add: table_ok_def buckets_ok_def)
  show "length (elems_of (tbl_buckets t)) = length (tbl_order t)" using m by (rule mset_eq_length)
  show "set (elems_of (tbl_buckets t)) = set (tbl_order t)" using m by (rule mset_eq_setD)
qed

lemma find_refines:
  assumes "links_rel head s" "head_ok hp head" "length (order_of head) \<le> fuel"
  shows "HASH_FIND_p fuel hp s k n = HASH_FIND hp head k n"
proof (cases head)
  case None
  then show ?thesis using assms by (simp add: links_rel_def HASH_FIND_p_def HASH_FIND_def)
next
  case (Some t)
  then obtain lt where lt: "l_tbl s = Some lt" "tbl_rel (l_chn s) t lt" "tbl_order t \<noteq> []"
    "l_head s = first_of (tbl_order t) None" "dseg (l_ord s) None (tbl_order t) None"
    using assms(1) by (auto simp: links_rel_def)
  then obtain a where a: "l_head s = Some a" "tbl_of s = Inr lt"
    by (cases "tbl_order t") (auto simp: tbl_of_def)
  have rel: "buckets_rel (l_chn s) (tbl_buckets t) (lt_buckets lt)" "lt_num_buckets lt = tbl_num_buckets t"
    using lt(2) by (simp_all add: tbl_rel_def)
  have "bindr (lbucket_at (lt_buckets lt) i) (\<lambda>b. HASH_FIND_IN_BKT_p fuel hp (l_chn s) (lb_head b) k n h) =
    bindr (bucket_at (tbl_buckets t) i) (\<lambda>b. HASH_FIND_IN_BKT hp (bkt_chain b) k n h)" for h i
  proof (cases "i < length (tbl_buckets t)")
    case True
    then obtain lb where lb: "lbucket_at (lt_buckets lt) i = Inr lb" "chain_rel (l_chn s) (tbl_buckets t ! i) lb"
      using buckets_rel_at [OF rel(1), of i] by (auto simp: bucket_at_def)
    have "length (bkt_chain (tbl_buckets t ! i)) \<le> fuel"
      using chain_length [OF True] assms(2,3) Some table_elems(2) [of hp t] by simp
    with lb find_in_bkt_refines [of "l_chn s" None "bkt_chain (tbl_buckets t ! i)" fuel]
    show ?thesis using True by (simp add: bucket_at_def chain_rel_def)
  next
    case False
    then show ?thesis using buckets_rel_at [OF rel(1), of i] by (simp add: bucket_at_def)
  qed
  then show ?thesis using Some a rel(2) by (simp add: HASH_FIND_p_def HASH_FIND_BYHASHVALUE_p_def [abs_def] HASH_FIND_def)
qed

subsection \<open>An element becomes the first of a chain\<close>

lemma mset_push:
  assumes "i < length bs" "bkt_chain b = a # bkt_chain (bs ! i)"
  shows "mset (elems_of (bs[i := b])) = add_mset a (mset (elems_of bs))"
  using mset_concat_update [OF assms(1), of bkt_chain b] assms(2) by simp

lemma push_rel:
  assumes rel: "buckets_rel cs bs lbs" and i: "i < length bs" and a: "a \<notin> set (elems_of bs)"
    and c: "cs a = Some c" and b: "bkt_chain b = a # bkt_chain (bs ! i)"
    and lb: "lb_head lb = Some a" "lb_count lb = bkt_count b" "lb_expand_mult lb = bkt_expand_mult b"
  obtains cs' where "push_links a (lb_head (lbs ! i)) cs = Inr cs'"
    "buckets_rel cs' (bs[i := b]) (lbs[i := lb])"
    "\<And>x. x \<notin> set (a # elems_of bs) \<Longrightarrow> cs' x = cs x"
proof -
  have old: "chain_rel cs (bs ! i) (lbs ! i)" and dist: "distinct (elems_of bs)"
    using rel i by (auto simp: buckets_rel_def list_all2_nthD)
  have sub: "set (bkt_chain (bs ! i)) \<subseteq> set (elems_of bs)" using nth_mem [OF i] by auto
  have "distinct (bkt_chain (bs ! i))"
    using dist i by (auto simp: distinct_concat_iff)
  moreover have "a \<notin> set (bkt_chain (bs ! i))" using a sub by blast
  moreover have "dseg cs None (bkt_chain (bs ! i)) None" using old by (simp add: chain_rel_def)
  ultimately obtain cs' where cs': "push_links a (first_of (bkt_chain (bs ! i)) None) cs = Inr cs'"
    "dseg cs' None (a # bkt_chain (bs ! i)) None"
    "\<And>x. x \<notin> set (a # bkt_chain (bs ! i)) \<Longrightarrow> cs' x = cs x"
    using push_links_ok [where cs = cs and c = c and a = a, OF _ refl] c by blast
  show thesis
  proof (rule that)
    show "push_links a (lb_head (lbs ! i)) cs = Inr cs'" using cs'(1) old by (simp add: chain_rel_def)
    have "distinct (elems_of (bs[i := b])) \<longleftrightarrow> distinct (a # elems_of bs)"
      by (rule mset_eq_imp_distinct_iff) (simp add: mset_push [of i bs b a, OF i b])
    then show "buckets_rel cs' (bs[i := b]) (lbs[i := lb])"
      using cs'(2,3) a b lb dist
      by (intro buckets_rel_update [OF rel i]) (simp_all add: chain_rel_def)
    show "cs' x = cs x" if "x \<notin> set (a # elems_of bs)" for x using that cs'(3) sub by auto
  qed
qed

subsection \<open>Expansion\<close>

lemma count_rehash_rel:
  assumes "chain_rel cs b lb" "rehash_bucket ideal a b = (b', over)"
  obtains lb' where "count_rehash ideal lb = (lb', over)" "lb_head lb' = lb_head lb"
    "lb_count lb' = bkt_count b'" "lb_expand_mult lb' = bkt_expand_mult b'"
    "bkt_chain b' = a # bkt_chain b"
  using assms that
  by (auto simp: count_rehash_def rehash_bucket_def chain_rel_def Let_def split: if_splits)

text \<open>After a part of the expansion: new buckets that hold \<open>xs\<close>, made by changing cells of
  \<open>xs\<close> only.\<close>

definition rehashed :: "cells \<Rightarrow> nat list \<Rightarrow> ut_bucket list \<times> byte32 \<Rightarrow> cells \<times> lbucket list \<times> byte32
    \<Rightarrow> bool" where
  "rehashed cs xs = (\<lambda>(nb, ni) (cs', lnb, lni). buckets_rel cs' nb lnb \<and> lni = ni \<and>
     mset (elems_of nb) = mset xs \<and> (\<forall>x. x \<notin> set xs \<longrightarrow> cs' x = cs x))"

lemma rehash_step_refines:
  assumes rel: "buckets_rel cs nb lnb" and a: "a \<notin> set (elems_of nb)" "cs a = Some c"
  shows "simr (rehashed cs (a # elems_of nb)) (rehash_step hp num ideal a (nb, ni))
    (rehash_step_p hp num ideal a (cs, lnb, ni))"
  unfolding rehash_step_def rehash_step_p_def prod.case Let_def
proof (rule simr_same, rule simr_bind [OF buckets_rel_at [OF rel]], elim conjE)
  fix e b lb
  let ?i = "HASH_TO_BKT (hh_hashv e) num"
  assume b: "chain_rel cs b lb" "b = nb ! ?i" "?i < length nb"
  obtain b' over where b': "rehash_bucket ideal a b = (b', over)" by fastforce
  from count_rehash_rel [OF b(1) this] obtain lb' where lb': "count_rehash ideal lb = (lb', over)"
    "lb_head lb' = lb_head lb" "lb_count lb' = bkt_count b'" "lb_expand_mult lb' = bkt_expand_mult b'"
    "bkt_chain b' = a # bkt_chain b" by blast
  have "chain_rel cs (nb ! ?i) (lnb ! ?i)"
    using rel b(3) by (simp add: buckets_rel_def list_all2_nthD)
  then have head: "lb_head lb = lb_head (lnb ! ?i)" using b by (simp add: chain_rel_def)
  obtain cs' where cs': "push_links a (lb_head (lnb ! ?i)) cs = Inr cs'"
    "buckets_rel cs' (nb[?i := b']) (lnb[?i := lb'\<lparr>lb_head := Some a\<rparr>])"
    "\<And>x. x \<notin> set (a # elems_of nb) \<Longrightarrow> cs' x = cs x"
    by (rule push_rel [OF rel b(3) a, of b' "lb'\<lparr>lb_head := Some a\<rparr>"]) (use lb' b in simp_all)
  have "mset (elems_of (nb[?i := b'])) = mset (a # elems_of nb)"
    using mset_push [OF b(3), of b' a] lb'(5) b(2) by simp
  with cs' head b' lb'(1,2)
  show "simr (rehashed cs (a # elems_of nb))
     (case rehash_bucket ideal a b of (newbkt, over) \<Rightarrow>
        Inr (nb[?i := newbkt], if over then ni + 1 else ni))
     (case count_rehash ideal lb of (newbkt, over) \<Rightarrow>
        bindr (push_links a (lb_head newbkt) cs) (\<lambda>cs.
        Inr (cs, lnb[?i := newbkt\<lparr>lb_head := Some a\<rparr>], if over then ni + 1 else ni)))"
    by (simp add: rehashed_def)
qed

lemma rehashed_trans:
  assumes "rehashed cs xs (nb, ni) (cs1, lnb, ni)" "rehashed cs1 ys st st'" "mset ys = mset zs"
    "set xs \<subseteq> set zs"
  shows "rehashed cs zs st st'"
proof -
  have "set ys = set zs" using assms(3) by (rule mset_eq_setD)
  with assms show ?thesis by (fastforce simp: rehashed_def split: prod.splits)
qed

lemma rehash_chain_refines:
  assumes "buckets_rel cs nb lnb" "dseg cs p chain None" "distinct (chain @ elems_of nb)"
    "length chain \<le> fuel"
  shows "simr (rehashed cs (chain @ elems_of nb)) (rehash_chain hp num ideal chain (nb, ni))
    (rehash_chain_p fuel hp num ideal (first_of chain None) (cs, lnb, ni))"
  using assms
proof (induction chain arbitrary: cs nb lnb ni p fuel)
  case Nil
  then show ?case by (simp add: rehashed_def)
next
  case (Cons a chain)
  then obtain f where f: "fuel = Suc f" "length chain \<le> f" by (cases fuel) auto
  have a: "cs a = Some \<lparr>c_prev = p, c_next = first_of chain None\<rparr>" "a \<notin> set (elems_of nb)"
    and seg: "dseg cs (Some a) chain None" using Cons.prems by simp_all
  have "simr (rehashed cs ((a # chain) @ elems_of nb))
    (bindr (rehash_step hp num ideal a (nb, ni)) (rehash_chain hp num ideal chain))
    (bindr (rehash_step_p hp num ideal a (cs, lnb, ni))
      (rehash_chain_p f hp num ideal (first_of chain None)))"
  proof (rule simr_bind [OF rehash_step_refines [OF Cons.prems(1) a(2,1)]])
    fix st st'
    assume r: "rehashed cs (a # elems_of nb) st st'"
    obtain nb1 ni1 cs1 lnb1 where st: "st = (nb1, ni1)" "st' = (cs1, lnb1, ni1)"
      using r by (auto simp: rehashed_def split: prod.splits)
    have 1: "buckets_rel cs1 nb1 lnb1" "mset (elems_of nb1) = mset (a # elems_of nb)"
      "\<And>x. x \<notin> set (a # elems_of nb) \<Longrightarrow> cs1 x = cs x" using r st by (simp_all add: rehashed_def)
    have m: "mset (chain @ elems_of nb1) = mset ((a # chain) @ elems_of nb)" using 1(2) by simp
    have "distinct (chain @ elems_of nb1)"
      using Cons.prems(3) mset_eq_imp_distinct_iff [OF m] by simp
    moreover have "cs1 x = cs x" if "x \<in> set chain" for x
      using that Cons.prems(3) by (intro 1(3)) auto
    then have "dseg cs1 (Some a) chain None" using seg dseg_frame [of chain cs1 cs] by blast
    ultimately have "simr (rehashed cs1 (chain @ elems_of nb1)) (rehash_chain hp num ideal chain st)
      (rehash_chain_p f hp num ideal (first_of chain None) st')"
      unfolding st by (intro Cons.IH [OF 1(1)] f(2))
    then show "simr (rehashed cs ((a # chain) @ elems_of nb)) (rehash_chain hp num ideal chain st)
      (rehash_chain_p f hp num ideal (first_of chain None) st')"
      by (rule simr_mono) (rule rehashed_trans [OF r [unfolded st] _ m], use st in auto)
  qed
  then show ?case using a(1) f(1) by simp
qed

lemma rehash_buckets_refines:
  assumes "buckets_rel cs nb lnb" "list_all2 (chain_rel cs) bs lbs"
    "distinct (elems_of bs @ elems_of nb)" "length (elems_of bs) \<le> fuel"
  shows "simr (rehashed cs (elems_of bs @ elems_of nb)) (rehash_buckets hp num ideal bs (nb, ni))
    (rehash_buckets_p fuel hp num ideal lbs (cs, lnb, ni))"
  using assms
proof (induction bs arbitrary: lbs cs nb lnb ni)
  case Nil
  then show ?case by (simp add: rehashed_def)
next
  case (Cons b bs)
  note prems = Cons.prems(1,3,4)
  obtain lb lbs' where lbs: "lbs = lb # lbs'" "chain_rel cs b lb" "list_all2 (chain_rel cs) bs lbs'"
    using Cons.prems(2) by (auto simp: list_all2_Cons1)
  have b: "lb_head lb = first_of (bkt_chain b) None" "dseg cs None (bkt_chain b) None"
    using lbs(2) by (simp_all add: chain_rel_def)
  have "simr (rehashed cs (elems_of (b # bs) @ elems_of nb))
    (bindr (rehash_chain hp num ideal (bkt_chain b) (nb, ni)) (rehash_buckets hp num ideal bs))
    (bindr (rehash_chain_p fuel hp num ideal (first_of (bkt_chain b) None) (cs, lnb, ni))
      (rehash_buckets_p fuel hp num ideal lbs'))"
  proof (rule simr_bind [OF rehash_chain_refines [OF prems(1) b(2)]])
    show "distinct (bkt_chain b @ elems_of nb)" "length (bkt_chain b) \<le> fuel" using prems by auto
    fix st st'
    assume r: "rehashed cs (bkt_chain b @ elems_of nb) st st'"
    obtain nb1 ni1 cs1 lnb1 where st: "st = (nb1, ni1)" "st' = (cs1, lnb1, ni1)"
      using r by (auto simp: rehashed_def split: prod.splits)
    have 1: "buckets_rel cs1 nb1 lnb1" "mset (elems_of nb1) = mset (bkt_chain b @ elems_of nb)"
      "\<And>x. x \<notin> set (bkt_chain b @ elems_of nb) \<Longrightarrow> cs1 x = cs x" using r st by (simp_all add: rehashed_def)
    have m: "mset (elems_of bs @ elems_of nb1) = mset (elems_of (b # bs) @ elems_of nb)" using 1(2) by simp
    have "distinct (bkt_chain b @ elems_of bs @ elems_of nb)" using prems(2) by simp
    then have disj: "set (elems_of bs) \<inter> set (bkt_chain b @ elems_of nb) = {}"
      unfolding distinct_append set_append by blast
    have "distinct (elems_of bs @ elems_of nb1)"
      using prems(2) mset_eq_imp_distinct_iff [OF m] by simp
    moreover have "list_all2 (chain_rel cs1) bs lbs'"
    proof (rule chains_frame [OF lbs(3)])
      show "cs1 x = cs x" if "x \<in> set (elems_of bs)" for x
        by (rule 1(3)) (use that disj in blast)
    qed
    ultimately have "simr (rehashed cs1 (elems_of bs @ elems_of nb1)) (rehash_buckets hp num ideal bs st)
      (rehash_buckets_p fuel hp num ideal lbs' st')"
      unfolding st using prems(3) by (intro Cons.IH [OF 1(1)]) simp_all
    then show "simr (rehashed cs (elems_of (b # bs) @ elems_of nb)) (rehash_buckets hp num ideal bs st)
      (rehash_buckets_p fuel hp num ideal lbs' st')"
      by (rule simr_mono) (rule rehashed_trans [OF r [unfolded st] _ m], use st in auto)
  qed
  then show ?case using b(1) lbs(1) by simp
qed

lemma chains_empty:
  "buckets_rel cs (replicate n empty_bucket) (replicate n empty_lbucket)"
  "elems_of (replicate n empty_bucket) = []"
    "bkt_chain empty_bucket = []"
  by (simp_all add: buckets_rel_def list_all2_conv_all_nth chain_rel_def empty_bucket_def
      empty_lbucket_def)

lemma tbl_rel_replace:
  assumes "tbl_rel cs t lt" "buckets_rel cs' bs lbs"
  shows "tbl_rel cs' (t\<lparr>tbl_buckets := bs\<rparr>) (lt\<lparr>lt_buckets := lbs\<rparr>)"
  using assms by (simp add: tbl_rel_def)

text \<open>The tables after a part of an insertion that changed cells of \<open>xs\<close> only.\<close>

definition tables_after :: "cells \<Rightarrow> nat list \<Rightarrow> ut_table \<Rightarrow> cells \<times> ltable \<Rightarrow> bool" where
  "tables_after cs xs t = (\<lambda>(cs', lt). tbl_rel cs' t lt \<and> (\<forall>x. x \<notin> set xs \<longrightarrow> cs' x = cs x))"

lemma expand_refines:
  assumes rel: "tbl_rel cs t lt" and fuel: "length (elems_of (tbl_buckets t)) \<le> fuel"
  shows "simr (tables_after cs (elems_of (tbl_buckets t))) (HASH_EXPAND_BUCKETS can_alloc hp t)
    (HASH_EXPAND_BUCKETS_p can_alloc fuel hp cs lt)"
proof -
  let ?n = "unat (tbl_num_buckets t)" and ?bs = "tbl_buckets t"
  have bs: "list_all2 (chain_rel cs) ?bs (lt_buckets lt)" "distinct (elems_of ?bs)"
    using rel by (simp_all add: tbl_rel_def buckets_rel_def)
  have split: "elems_of ?bs = elems_of (take ?n ?bs) @ elems_of (drop ?n ?bs)"
    by (metis append_take_drop_id concat_append map_append)
  have eqs: "lt_num_buckets lt = tbl_num_buckets t" "ideal_chain_maxlen_p lt = ideal_chain_maxlen t"
    using rel by (simp_all add: tbl_rel_def ideal_chain_maxlen_p_def ideal_chain_maxlen_def)
  have "simr (rehashed cs (elems_of (take ?n ?bs) @ elems_of (replicate (2 * ?n) empty_bucket)))
    (rehash_buckets hp (tbl_num_buckets t * 2) (ideal_chain_maxlen t) (take ?n ?bs)
      (replicate (2 * ?n) empty_bucket, 0))
    (rehash_buckets_p fuel hp (tbl_num_buckets t * 2) (ideal_chain_maxlen t) (take ?n (lt_buckets lt))
      (cs, replicate (2 * ?n) empty_lbucket, 0))"
    by (rule rehash_buckets_refines [OF chains_empty(1) list_all2_takeI [OF bs(1)]])
      (use bs(2) fuel split in \<open>simp_all add: chains_empty(2,3)\<close>)
  then show ?thesis
    unfolding HASH_EXPAND_BUCKETS_def HASH_EXPAND_BUCKETS_p_def eqs Let_def
    using rel split
    by (auto simp: simr_def rehashed_def tables_after_def tbl_rel_def chains_empty(2,3) bindr_def
        split: sum.splits)
qed

lemma add_to_bkt_refines:
  assumes rel: "tbl_rel cs t lt" and a: "a \<notin> set (elems_of (tbl_buckets t))" "cs a = Some c"
    and fuel: "length (elems_of (tbl_buckets t)) < fuel"
  shows "simr (tables_after cs (a # elems_of (tbl_buckets t))) (HASH_ADD_TO_BKT can_alloc hp i a t)
    (HASH_ADD_TO_BKT_p can_alloc fuel hp i a cs lt)"
  unfolding HASH_ADD_TO_BKT_def HASH_ADD_TO_BKT_p_def Let_def
proof (rule simr_bind [OF buckets_rel_at [OF rel [unfolded tbl_rel_def, THEN conjunct1]]], elim conjE)
  fix b :: ut_bucket and lb :: lbucket
  let ?bs = "tbl_buckets t" and ?lbs = "lt_buckets lt"
  let ?b = "b\<lparr>bkt_count := bkt_count b + 1, bkt_chain := a # bkt_chain b\<rparr>"
  let ?lb = "lb\<lparr>lb_count := lb_count lb + 1, lb_head := Some a\<rparr>"
  let ?t = "t\<lparr>tbl_buckets := ?bs[i := ?b]\<rparr>" and ?lt = "lt\<lparr>lt_buckets := ?lbs[i := ?lb]\<rparr>"
  assume b: "chain_rel cs b lb" "b = ?bs ! i" "i < length ?bs"
  have brel: "buckets_rel cs ?bs ?lbs" using rel by (simp add: tbl_rel_def)
  then have "chain_rel cs b (?lbs ! i)"
    using b(2,3) by (simp add: buckets_rel_def list_all2_nthD)
  then have head: "lb_head lb = lb_head (?lbs ! i)" using b by (simp add: chain_rel_def)
  obtain cs' where cs': "push_links a (lb_head (?lbs ! i)) cs = Inr cs'"
    "buckets_rel cs' (?bs[i := ?b]) (?lbs[i := ?lb])"
    "\<And>x. x \<notin> set (a # elems_of ?bs) \<Longrightarrow> cs' x = cs x"
    by (rule push_rel [OF brel b(3) a, of ?b ?lb]) (use b(1,2) in \<open>simp_all add: chain_rel_def\<close>)
  have m: "mset (elems_of (tbl_buckets ?t)) = mset (a # elems_of ?bs)"
    using mset_push [OF b(3), of ?b a] b(2) by simp
  have rel': "tbl_rel cs' ?t ?lt" by (rule tbl_rel_replace [OF rel cs'(2)])
  have "simr (tables_after cs' (elems_of (tbl_buckets ?t))) (HASH_EXPAND_BUCKETS can_alloc hp ?t)
      (HASH_EXPAND_BUCKETS_p can_alloc fuel hp cs' ?lt)"
    by (rule expand_refines [OF rel']) (use mset_eq_length [OF m] fuel in simp)
  then have "simr (tables_after cs (a # elems_of ?bs)) (HASH_EXPAND_BUCKETS can_alloc hp ?t)
      (HASH_EXPAND_BUCKETS_p can_alloc fuel hp cs' ?lt)"
    by (rule simr_mono) (use cs'(3) mset_eq_setD [OF m] in \<open>auto simp: tables_after_def\<close>)
  moreover have "tables_after cs (a # elems_of ?bs) ?t (cs', ?lt)"
    using rel' cs'(3) by (simp add: tables_after_def)
  moreover have "lb_count lb = bkt_count b" "lb_expand_mult lb = bkt_expand_mult b"
    "lt_noexpand lt = tbl_noexpand t"
    using b(1) rel by (simp_all add: chain_rel_def tbl_rel_def)
  ultimately show "simr (tables_after cs (a # elems_of ?bs))
     (if (bkt_expand_mult ?b + 1) * HASH_BKT_CAPACITY_THRESH \<le> bkt_count ?b \<and> tbl_noexpand ?t = 0
      then HASH_EXPAND_BUCKETS can_alloc hp ?t else Inr ?t)
     (bindr (push_links a (lb_head (lb\<lparr>lb_count := lb_count lb + 1\<rparr>)) cs) (\<lambda>cs.
        if (lb_expand_mult ?lb + 1) * HASH_BKT_CAPACITY_THRESH \<le> lb_count ?lb \<and> lt_noexpand ?lt = 0
        then HASH_EXPAND_BUCKETS_p can_alloc fuel hp cs ?lt else Inr (cs, ?lt)))"
    using cs'(1) head by simp
qed

subsection \<open>Insertion\<close>

lemma tbl_order_kept:
  "HASH_EXPAND_BUCKETS can_alloc hp t = Inr t' \<Longrightarrow> tbl_order t' = tbl_order t"
  "HASH_ADD_TO_BKT can_alloc hp i a t = Inr t' \<Longrightarrow> tbl_order t' = tbl_order t"
proof -
  show *: "tbl_order t' = tbl_order t" if "HASH_EXPAND_BUCKETS can_alloc hp t = Inr t'" for t t'
    using that by (auto simp: HASH_EXPAND_BUCKETS_def Let_def bindr_eq_Inr split: if_splits)
  show "tbl_order t' = tbl_order t" if "HASH_ADD_TO_BKT can_alloc hp i a t = Inr t'"
    using that by (auto simp: HASH_ADD_TO_BKT_def Let_def bindr_eq_Inr dest: * split: if_splits)
qed

text \<open>The state with a table whose order is linked, changed in cells of \<open>xs\<close> only.\<close>

definition linked_after :: "links \<Rightarrow> nat list \<Rightarrow> ut_table \<Rightarrow> links \<Rightarrow> bool" where
  "linked_after s xs t s' \<longleftrightarrow> links_rel (Some t) s' \<and>
     (\<forall>x. x \<notin> set xs \<longrightarrow> l_ord s' x = l_ord s x \<and> l_chn s' x = l_chn s x)"

lemma links_relE:
  assumes "links_rel (Some t) s"
  obtains lt where "l_tbl s = Some lt" "tbl_of s = Inr lt" "tbl_rel (l_chn s) t lt" "l_head s \<noteq> None"
  using assms that by (cases "tbl_order t") (auto simp: links_rel_def tbl_of_def)

lemma add_to_table_refines:
  assumes rel: "links_rel (Some t) s" and a: "a \<notin> set (elems_of (tbl_buckets t))" "l_chn s a = Some c"
    and fuel: "length (elems_of (tbl_buckets t)) < fuel"
  shows "simr (linked_after s (a # elems_of (tbl_buckets t))) (HASH_ADD_TO_TABLE can_alloc hp h a t)
    (HASH_ADD_TO_TABLE_p can_alloc fuel hp h a s)"
proof -
  obtain lt where lt: "l_tbl s = Some lt" "tbl_of s = Inr lt" "tbl_rel (l_chn s) t lt"
    using rel by (rule links_relE)
  let ?t = "t\<lparr>tbl_num_items := tbl_num_items t + 1\<rparr>" and ?lt = "lt\<lparr>lt_num_items := lt_num_items lt + 1\<rparr>"
  have "tbl_rel (l_chn s) ?t ?lt" using lt(3) by (simp add: tbl_rel_def)
  from add_to_bkt_refines [OF this, of a c fuel can_alloc hp "HASH_TO_BKT h (tbl_num_buckets t)"] a fuel
  have r: "simr (tables_after (l_chn s) (a # elems_of (tbl_buckets t)))
    (HASH_ADD_TO_BKT can_alloc hp (HASH_TO_BKT h (tbl_num_buckets t)) a ?t)
    (HASH_ADD_TO_BKT_p can_alloc fuel hp (HASH_TO_BKT h (tbl_num_buckets t)) a (l_chn s) ?lt)" by simp
  have "lt_num_buckets lt = tbl_num_buckets t" using lt(3) by (simp add: tbl_rel_def)
  then show ?thesis
    using r lt(2) rel tbl_order_kept(2) [of can_alloc hp _ a ?t]
    by (auto simp: HASH_ADD_TO_TABLE_def HASH_ADD_TO_TABLE_p_def simr_def Let_def linked_after_def
        tables_after_def links_rel_def split: sum.splits)
qed

text \<open>The cells of an element are part of it.\<close>

definition live :: "links \<Rightarrow> nat \<Rightarrow> bool" where
  "live s a \<longleftrightarrow> l_ord s a \<noteq> None \<and> l_chn s a \<noteq> None"

definition elems_in :: "ut_table option \<Rightarrow> nat list" where
  "elems_in head = (case head of None \<Rightarrow> [] | Some t \<Rightarrow> elems_of (tbl_buckets t))"

lemma link_element_refines:
  assumes rel: "links_rel head s" and a: "a \<notin> set (order_of head)" "live s a"
  shows "simr (\<lambda>t s'. linked_after s (a # order_of head) t s' \<and> elems_of (tbl_buckets t) = elems_in head \<and>
      l_chn s' = l_chn s)
    (link_element can_alloc head a) (link_element_p can_alloc s a)"
proof -
  obtain c where c: "l_ord s a = Some c" using a(2) by (auto simp: live_def)
  show ?thesis
  proof (cases head)
    case None
    then have "l_head s = None" using rel by (simp add: links_rel_def)
    with None c chains_empty show ?thesis
      by (simp add: link_element_def link_element_p_def HASH_MAKE_TABLE_def HASH_MAKE_TABLE_p_def
          linked_after_def links_rel_def tbl_rel_def elems_in_def)
  next
    case (Some t)
    obtain lt where lt: "l_tbl s = Some lt" "tbl_of s = Inr lt" "tbl_rel (l_chn s) t lt" "l_head s \<noteq> None"
      using rel unfolding Some by (rule links_relE)
    have ord: "dseg (l_ord s) None (tbl_order t) None" "distinct (tbl_order t)" "tbl_order t \<noteq> []"
      "a \<notin> set (tbl_order t)" "l_head s = first_of (tbl_order t) None"
      using rel a Some by (simp_all add: links_rel_def)
    obtain cs where cs: "append_links a (last_of None (tbl_order t)) (l_ord s) = Inr (cs, Some a)"
      "dseg cs None (tbl_order t @ [a]) None" "\<And>x. x \<notin> set (tbl_order t @ [a]) \<Longrightarrow> cs x = l_ord s x"
      by (rule append_links_ok [OF ord(1-4) c]) (rule that)
    have "lt_tail lt = last_of None (tbl_order t)" using lt(3) by (simp add: tbl_rel_def)
    moreover have "tbl_rel (l_chn s) (t\<lparr>tbl_order := tbl_order t @ [a]\<rparr>) (lt\<lparr>lt_tail := Some a\<rparr>)"
      using lt(3) by (simp add: tbl_rel_def)
    moreover obtain h where "first_of (tbl_order t) None = Some h" "first_of (tbl_order t) (Some a) = Some h"
      using ord(3) by (cases "tbl_order t") simp_all
    ultimately show ?thesis
      using Some lt(2) cs ord
      by (simp add: link_element_def link_element_p_def HASH_APPEND_LIST_def linked_after_def
          links_rel_def elems_in_def)
  qed
qed

lemma head_elems:
  assumes "head_ok hp head"
  shows "length (elems_in head) = length (order_of head)" "set (elems_in head) = set (order_of head)"
  using assms table_elems(2,3) [of hp] by (cases head; simp add: elems_in_def)+

lemma bucketed_refines:
  assumes ok: "head_ok hp0 head" and a: "a \<notin> set (order_of head)" "live s a"
    and fuel: "length (order_of head) < fuel"
    and link: "simr (\<lambda>t s'. linked_after s (a # order_of head) t s' \<and>
      elems_of (tbl_buckets t) = elems_in head \<and> l_chn s' = l_chn s) L L'"
  shows "simr (linked_after s (a # order_of head)) (bindr L (HASH_ADD_TO_TABLE can_alloc hp h a))
    (bindr L' (HASH_ADD_TO_TABLE_p can_alloc fuel hp h a))"
proof (rule simr_bind [OF link], elim conjE)
  fix t s1
  assume 1: "linked_after s (a # order_of head) t s1" "elems_of (tbl_buckets t) = elems_in head"
    "l_chn s1 = l_chn s"
  obtain c where c: "l_chn s1 a = Some c" using a(2) 1(3) by (auto simp: live_def)
  have "simr (linked_after s1 (a # elems_of (tbl_buckets t))) (HASH_ADD_TO_TABLE can_alloc hp h a t)
      (HASH_ADD_TO_TABLE_p can_alloc fuel hp h a s1)"
    by (rule add_to_table_refines [OF _ _ c])
      (use 1(1,2) a(1) fuel head_elems [OF ok] in \<open>simp_all add: linked_after_def\<close>)
  then show "simr (linked_after s (a # order_of head)) (HASH_ADD_TO_TABLE can_alloc hp h a t)
      (HASH_ADD_TO_TABLE_p can_alloc fuel hp h a s1)"
    by (rule simr_mono) (use 1(1,2) head_elems(2) [OF ok] in \<open>simp add: linked_after_def\<close>)
qed

lemma simr_with:
  assumes "simr P (bindr x f) (bindr y g)"
  shows "simr (\<lambda>(h, a) (h', b). h = h' \<and> P a b) (bindr x (\<lambda>a. bindr (f a) (\<lambda>a. Inr (h, a))))
    (bindr y (\<lambda>b. bindr (g b) (\<lambda>b. Inr (h, b))))"
  using assms by (auto simp: simr_def bindr_def split: sum.splits)

theorem insertion_refines:
  assumes rel: "links_rel head s" and ok: "head_ok hp head" and a: "a \<notin> set (order_of head)" "live s a"
    and fuel: "length (order_of head) < fuel"
  shows "simr (\<lambda>(hp1, t) (hp2, s'). hp1 = hp2 \<and> linked_after s (a # order_of head) t s')
    (HASH_ADD_KEYPTR can_alloc hp head p n a) (HASH_ADD_KEYPTR_p can_alloc fuel hp s p n a)"
  unfolding HASH_ADD_KEYPTR_def HASH_ADD_KEYPTR_p_def HASH_ADD_KEYPTR_BYHASHVALUE_p_def [abs_def]
    Let_def link_element_def [symmetric]
  by (intro simr_same simr_with bucketed_refines [OF ok a fuel link_element_refines [OF rel a]])

subsection \<open>Deletion\<close>

lemma del_in_bkt_refines:
  assumes rel: "tbl_rel cs t lt" and i: "i < length (tbl_buckets t)" and a: "a \<in> set (bkt_chain (tbl_buckets t ! i))"
  obtains t' cs' lt' where "HASH_DEL_IN_BKT i a t = Inr t'" "HASH_DEL_IN_BKT_p i a cs lt = Inr (cs', lt')"
    "tbl_rel cs' t' lt'" "tbl_order t' = tbl_order t"
    "\<And>x. x \<notin> set (bkt_chain (tbl_buckets t ! i)) - {a} \<Longrightarrow> cs' x = cs x"
proof -
  let ?bs = "tbl_buckets t" and ?lbs = "lt_buckets lt"
  have brel: "buckets_rel cs ?bs ?lbs" using rel by (simp add: tbl_rel_def)
  then have old: "chain_rel cs (?bs ! i) (?lbs ! i)" and dist: "distinct (elems_of ?bs)" and len: "i < length ?lbs"
    using i by (auto simp: buckets_rel_def list_all2_conv_all_nth)
  obtain xs ys where chain: "bkt_chain (?bs ! i) = xs @ a # ys" using a by (meson split_list)
  have "distinct (bkt_chain (?bs ! i))" using dist i by (auto simp: distinct_concat_iff)
  then have d: "distinct (xs @ a # ys)" by (simp add: chain)
  have seg: "dseg cs None (xs @ a # ys) None" using old by (simp add: chain_rel_def chain)
  have cell: "cs a = Some \<lparr>c_prev = last_of None xs, c_next = first_of ys None\<rparr>" using seg by simp
  obtain cs' where cs': "splice_out a cs = Inr cs'" "dseg cs' None (xs @ ys) None"
    "\<And>x. x \<notin> set (xs @ ys) \<Longrightarrow> cs' x = cs x"
    by (rule splice_out_ok [OF seg d]) (rule that)
  define b where "b = (?bs ! i)\<lparr>bkt_count := bkt_count (?bs ! i) - 1, bkt_chain := xs @ ys\<rparr>"
  define lb where "lb = (?lbs ! i)\<lparr>lb_count := lb_count (?lbs ! i) - 1,
    lb_head := (if lb_head (?lbs ! i) = Some a then first_of ys None else lb_head (?lbs ! i))\<rparr>"
  have b: "chain_rel cs' b lb"
    using old cs'(2) d by (cases xs) (auto simp: chain_rel_def b_def lb_def chain first_of_def split: list.splits)
  have "mset (a # elems_of (?bs[i := b])) = mset (elems_of ?bs)"
    using mset_concat_update [OF i, of bkt_chain b] by (simp add: chain b_def)
  then have "distinct (elems_of (?bs[i := b]))" using dist mset_eq_imp_distinct_iff by fastforce
  then have "buckets_rel cs' (?bs[i := b]) (?lbs[i := lb])"
    by (intro buckets_rel_update [OF brel i b]) (use cs'(3) in \<open>simp_all add: chain\<close>)
  then have 3: "tbl_rel cs' (t\<lparr>tbl_buckets := ?bs[i := b]\<rparr>) (lt\<lparr>lt_buckets := ?lbs[i := lb]\<rparr>)"
    by (rule tbl_rel_replace [OF rel])
  have 1: "HASH_DEL_IN_BKT i a t = Inr (t\<lparr>tbl_buckets := ?bs[i := b]\<rparr>)"
    using i d by (simp add: HASH_DEL_IN_BKT_def bucket_at_def chain b_def remove1_append)
  have 2: "HASH_DEL_IN_BKT_p i a cs lt = Inr (cs', lt\<lparr>lt_buckets := ?lbs[i := lb]\<rparr>)"
    using len cell cs'(1) by (simp add: HASH_DEL_IN_BKT_p_def lbucket_at_def lb_def)
  show thesis by (rule that [OF 1 2 3]) (use cs'(3) d in \<open>auto simp: chain\<close>)
qed

lemma bucket_contains:
  assumes ok: "table_ok hp t" and a: "a \<in> set (tbl_order t)"
  shows "bucket_of hp (tbl_num_buckets t) a < length (tbl_buckets t)"
    "a \<in> set (bkt_chain (tbl_buckets t ! bucket_of hp (tbl_num_buckets t) a))"
proof -
  have bok: "buckets_ok hp (tbl_num_buckets t) (tbl_buckets t) (mset (tbl_order t))"
    using ok by (simp add: table_ok_def)
  have "a \<in> set (elems_of (tbl_buckets t))" using a table_elems(3) [OF ok] by simp
  then obtain b where "b \<in> set (tbl_buckets t)" "a \<in> set (bkt_chain b)" by auto
  then obtain i where i: "i < length (tbl_buckets t)" "a \<in> set (bkt_chain (tbl_buckets t ! i))"
    by (auto simp: in_set_conv_nth [of b])
  then have "bucket_of hp (tbl_num_buckets t) a = i" using bok by (simp add: buckets_ok_def)
  with i show "bucket_of hp (tbl_num_buckets t) a < length (tbl_buckets t)"
    "a \<in> set (bkt_chain (tbl_buckets t ! bucket_of hp (tbl_num_buckets t) a))" by simp_all
qed

theorem deletion_refines:
  assumes rel: "links_rel head s" and ok: "head_ok hp head" and a: "a \<in> set (order_of head)"
  obtains head' s' where "HASH_DELETE hp head (Some a) = Inr head'" "HASH_DELETE_p hp s (Some a) = Inr s'"
    "links_rel head' s'" "\<And>x. x \<notin> set (order_of head) - {a} \<Longrightarrow> l_ord s' x = l_ord s x \<and> l_chn s' x = l_chn s x"
proof -
  obtain t where head: "head = Some t" using a by (cases head) auto
  have tok: "table_ok hp t" and at: "a \<in> set (tbl_order t)" using ok a head by simp_all
  obtain lt where lt: "l_tbl s = Some lt" "tbl_of s = Inr lt" "tbl_rel (l_chn s) t lt"
    using rel unfolding head by (rule links_relE)
  obtain xs ys where o: "tbl_order t = xs @ a # ys" using at by (meson split_list)
  have seg: "dseg (l_ord s) None (xs @ a # ys) None" and d: "distinct (xs @ a # ys)"
    and hd: "l_head s = first_of (xs @ a # ys) None"
    using rel head by (simp_all add: links_rel_def o)
  have cell: "l_ord s a = Some \<lparr>c_prev = last_of None xs, c_next = first_of ys None\<rparr>" using seg by simp
  obtain e where e: "hp a = Some e" "hh_hashv e = HASH_JEN (key_of hp a)"
    using tok at by (auto simp: table_ok_def elim: handle_okE)
  show thesis
  proof (cases "xs = [] \<and> ys = []")
    case True
    show thesis
    proof (rule that)
      show "HASH_DELETE hp head (Some a) = Inr None"
        using True o e by (simp add: head HASH_DELETE_def deref_def)
      show "HASH_DELETE_p hp s (Some a) = Inr (s\<lparr>l_head := None, l_tbl := None\<rparr>)"
        using True cell e lt(2) by (simp add: HASH_DELETE_p_def deref_def)
    qed (simp_all add: links_rel_def)
  next
    case False
    let ?i = "bucket_of hp (tbl_num_buckets t) a"
    let ?t = "t\<lparr>tbl_order := xs @ ys\<rparr>"
    define lt1 where "lt1 = (if lt_tail lt = Some a then lt\<lparr>lt_tail := last_of None xs\<rparr> else lt)"
    obtain ord where ord: "splice_out a (l_ord s) = Inr ord" "dseg ord None (xs @ ys) None"
      "\<And>x. x \<notin> set (xs @ ys) \<Longrightarrow> ord x = l_ord s x"
      by (rule splice_out_ok [OF seg d]) (rule that)
    define s1 where "s1 = s\<lparr>l_ord := ord, l_head := (if last_of None xs = None then first_of ys None
      else l_head s), l_tbl := Some lt1\<rparr>"
    have "lt_tail lt = last_of None (xs @ a # ys)" using lt(3) by (simp add: tbl_rel_def o)
    then have "lt_tail lt1 = last_of None (xs @ ys)"
      using d by (cases ys rule: rev_cases) (auto simp: lt1_def last_of_def)
    then have rel1: "tbl_rel (l_chn s) ?t lt1" using lt(3) by (simp add: tbl_rel_def lt1_def)
    have h1: "l_head s1 = first_of (xs @ ys) None"
      using hd by (cases xs) (auto simp: s1_def last_of_None)
    have t1: "tbl_of s1 = Inr lt1"
      using h1 ord(2) False by (cases "xs @ ys") (auto simp: tbl_of_def s1_def)
    have d1: "deref hp a = Inr e" "cell_at (l_ord s) (Some a) =
        Inr \<lparr>c_prev = last_of None xs, c_next = first_of ys None\<rparr>"
      using e cell by (simp_all add: deref_def)
    have n: "(last_of None xs = None \<and> first_of ys None = None) = False"
      using False by (simp add: last_of_None first_of_None)
    have i1: "HASH_TO_BKT (hh_hashv e) (lt_num_buckets lt1) = ?i"
      using rel1 e(2) by (simp add: tbl_rel_def bucket_of_def)
    have l1: "l_chn s1 = l_chn s" by (simp add: s1_def)
    obtain t' cs lt' where del: "HASH_DEL_IN_BKT ?i a ?t = Inr t'" "HASH_DEL_IN_BKT_p ?i a (l_chn s) lt1 = Inr (cs, lt')"
      "tbl_rel cs t' lt'" "tbl_order t' = xs @ ys"
      "\<And>x. x \<notin> set (bkt_chain (tbl_buckets t ! ?i)) - {a} \<Longrightarrow> cs x = l_chn s x"
      by (rule del_in_bkt_refines [OF rel1, of ?i a]) (use bucket_contains [OF tok at] in auto)
    show thesis
    proof (rule that)
      show "HASH_DELETE hp head (Some a) = Inr (Some (t'\<lparr>tbl_num_items := tbl_num_items t' - 1\<rparr>))"
        using False e del(1) d by (auto simp: head HASH_DELETE_def deref_def o bucket_of_def Let_def remove1_append Cons_eq_append_conv append_eq_Cons_conv)
      show "HASH_DELETE_p hp s (Some a) =
        Inr (s1\<lparr>l_chn := cs, l_tbl := Some (lt'\<lparr>lt_num_items := lt_num_items lt' - 1\<rparr>)\<rparr>)"
        by (simp only: HASH_DELETE_p_def option.case d1 bindr_simps cell.simps n if_False Let_def
            lt1_def [symmetric] s1_def [symmetric] ord(1) t1 del(2) prod.case lt(2) i1 l1)
      show "links_rel (Some (t'\<lparr>tbl_num_items := tbl_num_items t' - 1\<rparr>))
        (s1\<lparr>l_chn := cs, l_tbl := Some (lt'\<lparr>lt_num_items := lt_num_items lt' - 1\<rparr>)\<rparr>)"
        using del(3,4) False h1 ord(2) d by (simp add: links_rel_def tbl_rel_def s1_def)
      show "l_ord (s1\<lparr>l_chn := cs, l_tbl := Some (lt'\<lparr>lt_num_items := lt_num_items lt' - 1\<rparr>)\<rparr>) x = l_ord s x \<and>
        l_chn (s1\<lparr>l_chn := cs, l_tbl := Some (lt'\<lparr>lt_num_items := lt_num_items lt' - 1\<rparr>)\<rparr>) x = l_chn s x"
        if "x \<notin> set (order_of head) - {a}" for x
      proof -
        have "x \<notin> set (xs @ ys)" using that d by (auto simp: head o)
        moreover have "set (bkt_chain (tbl_buckets t ! ?i)) \<subseteq> set (tbl_order t)"
          using nth_mem [OF bucket_contains(1) [OF tok at]] table_elems(3) [OF tok] by auto
        ultimately show ?thesis using that ord(3) del(5) by (auto simp: s1_def head)
      qed
    qed
  qed
qed

end
