(* ===== verification/Uthash_Check.thy ===== *)
theory Uthash_Check
  imports Uthash_Refine
begin

text \<open>
  The consistency check \<^verbatim>\<open>HASH_FSCK\<close> of \<^verbatim>\<open>src/src/libraries/uthash.h\<close>, which is compiled when
  \<^verbatim>\<open>HASH_DEBUG\<close> is defined, and sequences of operations on the pointers of a table: what they
  return is what the operations on lists return, and the check passes after each of them.
\<close>

section \<open>The check\<close>

text \<open>The loop over a chain and the loop over the application order do the same: a wrong back
  pointer ends the program, else the elements are counted.\<close>

fun fsck_loop :: "nat \<Rightarrow> cells \<Rightarrow> nat option \<Rightarrow> nat option \<Rightarrow> byte32 \<Rightarrow> fault + byte32" where
  "fsck_loop fuel cs None prev cnt = Inr cnt"
| "fsck_loop 0 cs (Some thh) prev cnt = Inl OutOfFuel"
| "fsck_loop (Suc fuel) cs (Some thh) prev cnt =
     bindr (cell_at cs (Some thh)) (\<lambda>c.
     if prev \<noteq> c_prev c then Inl (ProgramExit (-1))
     else fsck_loop fuel cs (c_next c) (Some thh) (cnt + 1))"

text \<open>The loop over the buckets from \<open>i\<close> on, of which \<open>k\<close> are left.\<close>

primrec fsck_buckets :: "nat \<Rightarrow> cells \<Rightarrow> lbucket list \<Rightarrow> nat \<Rightarrow> nat \<Rightarrow> byte32 \<Rightarrow> fault + byte32" where
  "fsck_buckets fuel cs bs i 0 cnt = Inr cnt"
| "fsck_buckets fuel cs bs i (Suc k) cnt =
     bindr (lbucket_at bs i) (\<lambda>b.
     bindr (fsck_loop fuel cs (lb_head b) None 0) (\<lambda>bkt_count.
     if lb_count b \<noteq> bkt_count then Inl (ProgramExit (-1))
     else fsck_buckets fuel cs bs (i + 1) k (cnt + bkt_count)))"

definition HASH_FSCK :: "nat \<Rightarrow> links \<Rightarrow> fault + unit" where
  "HASH_FSCK fuel s =
     (if l_head s = None then Inr ()
      else
        bindr (tbl_of s) (\<lambda>lt.
        bindr (fsck_buckets fuel (l_chn s) (lt_buckets lt) 0 (unat (lt_num_buckets lt)) 0) (\<lambda>cnt.
        if cnt \<noteq> lt_num_items lt then Inl (ProgramExit (-1))
        else
          bindr (fsck_loop fuel (l_ord s) (l_head s) None 0) (\<lambda>cnt.
          if cnt \<noteq> lt_num_items lt then Inl (ProgramExit (-1)) else Inr ()))))"

text \<open>What the check establishes: from \<open>p\<close> on the elements \<open>xs\<close> are linked in both directions.\<close>

definition linked_list :: "cells \<Rightarrow> nat option \<Rightarrow> nat list \<Rightarrow> bool" where
  "linked_list cs p xs \<longleftrightarrow> p = first_of xs None \<and> dseg cs None xs None"

lemma first_of_Some: "first_of xs None = Some a \<longleftrightarrow> (\<exists>as. xs = a # as)"
  by (cases xs) simp_all

lemma fsck_loop_iff:
  "fsck_loop fuel cs p prev n = Inr m \<longleftrightarrow>
   (\<exists>xs. p = first_of xs None \<and> dseg cs prev xs None \<and> length xs \<le> fuel \<and> m = n + of_nat (length xs))"
proof (induction fuel cs p prev n rule: fsck_loop.induct)
  case (1 fuel cs prev n)
  show ?case by (auto simp: eq_commute [of None] first_of_None intro: exI [of _ "[]"])
next
  case (2 cs a prev n)
  show ?case by simp
next
  case (3 fuel cs a prev n)
  let ?run = "\<lambda>xs. dseg cs prev xs None \<and> length xs \<le> Suc fuel \<and> m = n + of_nat (length xs)"
  have "(\<exists>xs. Some a = first_of xs None \<and> ?run xs) \<longleftrightarrow> (\<exists>as. ?run (a # as))"
    by (auto simp: eq_commute [of "Some a"] first_of_Some simp del: dseg.simps)
  also have "\<dots> \<longleftrightarrow> fsck_loop (Suc fuel) cs (Some a) prev n = Inr m"
  proof (cases "cs a")
    case None
    then show ?thesis by (simp add: cell_at_def)
  next
    case (Some c)
    obtain p q where c: "c = \<lparr>c_prev = p, c_next = q\<rparr>" by (cases c) auto
    show ?thesis
    proof (cases "prev = p")
      case True
      with Some c have "fsck_loop (Suc fuel) cs (Some a) prev n = fsck_loop fuel cs q (Some a) (n + 1)"
        by simp
      also have "\<dots> = Inr m \<longleftrightarrow>
        (\<exists>as. q = first_of as None \<and> dseg cs (Some a) as None \<and> length as \<le> fuel \<and> m = n + 1 + of_nat (length as))"
        using "3.IH" [of c] Some c True by simp
      finally show ?thesis using Some c True by (simp add: add.assoc conj_assoc)
    next
      case False
      then show ?thesis using Some c by simp
    qed
  qed
  finally show ?case by simp
qed

definition bucket_checked :: "nat \<Rightarrow> cells \<Rightarrow> lbucket \<Rightarrow> nat list \<Rightarrow> bool" where
  "bucket_checked fuel cs b xs \<longleftrightarrow>
     linked_list cs (lb_head b) xs \<and> length xs \<le> fuel \<and> lb_count b = of_nat (length xs)"

lemma fsck_buckets_iff:
  "fsck_buckets fuel cs bs i k n = Inr m \<longleftrightarrow> (k = 0 \<or> i + k \<le> length bs) \<and>
   (\<exists>chains. list_all2 (bucket_checked fuel cs) (take k (drop i bs)) chains \<and>
     m = n + of_nat (length (concat chains)))"
proof (induction k arbitrary: i n)
  case (Suc k)
  show ?case
  proof (cases "i < length bs")
    case True
    have run: "fsck_buckets fuel cs bs i (Suc k) n = Inr m \<longleftrightarrow>
      (\<exists>xs. bucket_checked fuel cs (bs ! i) xs \<and>
        fsck_buckets fuel cs bs (Suc i) k (n + of_nat (length xs)) = Inr m)"
      using True by (auto simp: lbucket_at_def bindr_eq_Inr fsck_loop_iff linked_list_def bucket_checked_def)
    have tk: "take (Suc k) (drop i bs) = bs ! i # take k (drop (Suc i) bs)"
      using True by (simp add: Cons_nth_drop_Suc [symmetric])
    have le: "(k = 0 \<or> Suc i + k \<le> length bs) = (i + Suc k \<le> length bs)" using True by auto
    show ?thesis
    proof
      assume "fsck_buckets fuel cs bs i (Suc k) n = Inr m"
      then obtain xs chains where *: "bucket_checked fuel cs (bs ! i) xs" "i + Suc k \<le> length bs"
        "list_all2 (bucket_checked fuel cs) (take k (drop (Suc i) bs)) chains"
        "m = n + of_nat (length xs) + of_nat (length (concat chains))"
        unfolding run Suc.IH le by blast
      then show "(Suc k = 0 \<or> i + Suc k \<le> length bs) \<and>
        (\<exists>chains. list_all2 (bucket_checked fuel cs) (take (Suc k) (drop i bs)) chains \<and>
          m = n + of_nat (length (concat chains)))"
        unfolding tk by (intro conjI exI [of _ "xs # chains"] disjI2) simp_all
    next
      assume "(Suc k = 0 \<or> i + Suc k \<le> length bs) \<and>
        (\<exists>chains. list_all2 (bucket_checked fuel cs) (take (Suc k) (drop i bs)) chains \<and>
          m = n + of_nat (length (concat chains)))"
      then obtain chains where *: "i + Suc k \<le> length bs"
        "list_all2 (bucket_checked fuel cs) (bs ! i # take k (drop (Suc i) bs)) chains"
        "m = n + of_nat (length (concat chains))"
        unfolding tk by blast
      obtain xs rest where "chains = xs # rest" "bucket_checked fuel cs (bs ! i) xs"
        "list_all2 (bucket_checked fuel cs) (take k (drop (Suc i) bs)) rest"
        using *(2) unfolding list_all2_Cons1 by blast
      moreover from this(1) have "m = n + of_nat (length xs) + of_nat (length (concat rest))"
        using *(3) by simp
      ultimately show "fsck_buckets fuel cs bs i (Suc k) n = Inr m"
        unfolding run Suc.IH le using *(1) by blast
    qed
  next
    case False
    then show ?thesis by (simp add: lbucket_at_def)
  qed
qed auto

text \<open>A table exists: both loops have to find the number of items.\<close>

lemma HASH_FSCK_table:
  assumes "l_head s = Some h" "tbl_of s = Inr lt"
  shows "HASH_FSCK fuel s = Inr () \<longleftrightarrow>
    fsck_buckets fuel (l_chn s) (lt_buckets lt) 0 (unat (lt_num_buckets lt)) 0 = Inr (lt_num_items lt) \<and>
    fsck_loop fuel (l_ord s) (l_head s) None 0 = Inr (lt_num_items lt)"
  using assms by (auto simp: HASH_FSCK_def bindr_eq_Inr split: if_splits)

lemma ex_both: "(\<exists>c. C c) \<and> (\<exists>x. X x) \<longleftrightarrow> (\<exists>x c. X x \<and> C c)"
  by blast

text \<open>C28: \<^verbatim>\<open>HASH_FSCK\<close> decides whether the links are well formed: it accepts a table exactly when the
  order and every chain is a list linked in both directions, each bucket counts its chain, and
  order and chains have the length the table says. It looks neither at \<^verbatim>\<open>tail\<close> nor at whether the
  chains hold the elements of the order.\<close>

theorem fsck_exact:
  "HASH_FSCK fuel s = Inr () \<longleftrightarrow> l_head s = None \<or>
   (\<exists>lt xs chains. tbl_of s = Inr lt \<and>
     linked_list (l_ord s) (l_head s) xs \<and> length xs \<le> fuel \<and> of_nat (length xs) = lt_num_items lt \<and>
     unat (lt_num_buckets lt) \<le> length (lt_buckets lt) \<and>
     list_all2 (bucket_checked fuel (l_chn s)) (take (unat (lt_num_buckets lt)) (lt_buckets lt)) chains \<and>
     of_nat (length (concat chains)) = lt_num_items lt)"
proof (cases "l_head s = None \<or> (\<exists>f. tbl_of s = Inl f)")
  case True
  then show ?thesis by (auto simp: HASH_FSCK_def)
next
  case False
  then obtain h lt where lt: "l_head s = Some h" "tbl_of s = Inr lt" by (cases "tbl_of s") auto
  have "HASH_FSCK fuel s = Inr () \<longleftrightarrow>
    fsck_buckets fuel (l_chn s) (lt_buckets lt) 0 (unat (lt_num_buckets lt)) 0 = Inr (lt_num_items lt) \<and>
    fsck_loop fuel (l_ord s) (l_head s) None 0 = Inr (lt_num_items lt)"
    by (rule HASH_FSCK_table [OF lt])
  also have "fsck_loop fuel (l_ord s) (l_head s) None 0 = Inr (lt_num_items lt) \<longleftrightarrow>
    (\<exists>xs. linked_list (l_ord s) (l_head s) xs \<and> length xs \<le> fuel \<and> of_nat (length xs) = lt_num_items lt)"
    unfolding fsck_loop_iff linked_list_def by (intro ex_cong1) auto
  also have "fsck_buckets fuel (l_chn s) (lt_buckets lt) 0 (unat (lt_num_buckets lt)) 0 = Inr (lt_num_items lt) \<longleftrightarrow>
    (\<exists>chains. unat (lt_num_buckets lt) \<le> length (lt_buckets lt) \<and>
     list_all2 (bucket_checked fuel (l_chn s)) (take (unat (lt_num_buckets lt)) (lt_buckets lt)) chains \<and>
     of_nat (length (concat chains)) = lt_num_items lt)"
    unfolding fsck_buckets_iff by auto
  finally show ?thesis
    using lt unfolding ex_both by (simp add: conj_assoc)
qed

lemma fsck_passes:
  assumes rel: "links_rel head s" and ok: "head_ok hp head" and fuel: "length (order_of head) \<le> fuel"
  shows "HASH_FSCK fuel s = Inr ()"
proof (cases head)
  case None
  then show ?thesis using rel by (simp add: links_rel_def HASH_FSCK_def)
next
  case (Some t)
  obtain lt where lt: "tbl_of s = Inr lt" "tbl_rel (l_chn s) t lt" "l_head s \<noteq> None"
    using rel unfolding Some by (rule links_relE)
  then obtain h where h: "l_head s = Some h" by blast
  have tok: "table_ok hp t" using ok Some by simp
  have ord: "l_head s = first_of (tbl_order t) None" "dseg (l_ord s) None (tbl_order t) None"
    using rel Some by (simp_all add: links_rel_def)
  have items: "lt_num_items lt = of_nat (length (tbl_order t))" "lt_num_buckets lt = tbl_num_buckets t"
    using lt(2) tok by (simp_all add: tbl_rel_def table_ok_def)
  have bs: "list_all2 (chain_rel (l_chn s)) (tbl_buckets t) (lt_buckets lt)"
    using lt(2) by (simp add: tbl_rel_def buckets_rel_def)
  have len: "length (lt_buckets lt) = unat (tbl_num_buckets t)"
    using list_all2_lengthD [OF bs] tok by (simp add: table_ok_def buckets_ok_def)
  have "bucket_checked fuel (l_chn s) (lt_buckets lt ! i) (map bkt_chain (tbl_buckets t) ! i)"
    if i: "i < length (lt_buckets lt)" for i
  proof -
    have it: "i < length (tbl_buckets t)" using i list_all2_lengthD [OF bs] by simp
    then have "bkt_count (tbl_buckets t ! i) = of_nat (length (bkt_chain (tbl_buckets t ! i)))"
      using tok nth_mem [OF it] by (simp add: table_ok_def buckets_ok_def)
    moreover have "length (bkt_chain (tbl_buckets t ! i)) \<le> fuel"
      using chain_length [OF it] table_elems(2) [OF tok] fuel Some by simp
    ultimately show ?thesis
      using list_all2_nthD [OF bs it] it by (simp add: bucket_checked_def linked_list_def chain_rel_def)
  qed
  then have "list_all2 (bucket_checked fuel (l_chn s)) (lt_buckets lt) (map bkt_chain (tbl_buckets t))"
    using list_all2_lengthD [OF bs] by (simp add: list_all2_conv_all_nth)
  moreover have "length (elems_of (tbl_buckets t)) = length (tbl_order t)" by (rule table_elems(2) [OF tok])
  ultimately have "fsck_buckets fuel (l_chn s) (lt_buckets lt) 0 (unat (lt_num_buckets lt)) 0 = Inr (lt_num_items lt)"
    unfolding fsck_buckets_iff items len [symmetric] by (intro conjI exI [of _ "map bkt_chain (tbl_buckets t)"]) simp_all
  moreover have "fsck_loop fuel (l_ord s) (l_head s) None 0 = Inr (lt_num_items lt)"
    unfolding fsck_loop_iff items using ord fuel Some by (intro exI [of _ "tbl_order t"]) simp
  ultimately show ?thesis using HASH_FSCK_table [OF h lt(1)] by simp
qed

section \<open>Sequences of operations\<close>

datatype table_op = Insert ptr size_t nat | Remove nat | Lookup ptr byte32

text \<open>A step returns what a lookup found and the new heap and table. The contract of the macros:
  an element is inserted when it is allocated, not in the table, and no element has its key; an
  element is removed when it is in the table.\<close>

fun step_lists :: "(nat \<Rightarrow> bool) \<Rightarrow> heap \<Rightarrow> ut_table option \<Rightarrow> table_op
    \<Rightarrow> fault + nat option \<times> heap \<times> ut_table option" where
  "step_lists can_alloc hp head (Insert p n a) =
     bindr (HASH_ADD_KEYPTR can_alloc hp head p n a) (\<lambda>(hp, t). Inr (None, hp, Some t))"
| "step_lists can_alloc hp head (Remove a) =
     bindr (HASH_DELETE hp head (Some a)) (\<lambda>head. Inr (None, hp, head))"
| "step_lists can_alloc hp head (Lookup p n) =
     bindr (HASH_FIND hp head p n) (\<lambda>found. Inr (found, hp, head))"

fun step_links :: "(nat \<Rightarrow> bool) \<Rightarrow> nat \<Rightarrow> heap \<Rightarrow> links \<Rightarrow> table_op
    \<Rightarrow> fault + nat option \<times> heap \<times> links" where
  "step_links can_alloc fuel hp s (Insert p n a) =
     bindr (HASH_ADD_KEYPTR_p can_alloc fuel hp s p n a) (\<lambda>(hp, s). Inr (None, hp, s))"
| "step_links can_alloc fuel hp s (Remove a) =
     bindr (HASH_DELETE_p hp s (Some a)) (\<lambda>s. Inr (None, hp, s))"
| "step_links can_alloc fuel hp s (Lookup p n) =
     bindr (HASH_FIND_p fuel hp s p n) (\<lambda>found. Inr (found, hp, s))"

fun legal_op :: "heap \<Rightarrow> ut_table option \<Rightarrow> table_op \<Rightarrow> bool" where
  "legal_op hp head (Insert p n a) \<longleftrightarrow> hp a \<noteq> None \<and> a \<notin> set (order_of head) \<and> unat n < 2 ^ 32 \<and>
     (case read_bytes p (unat n) of Inl _ \<Rightarrow> False
      | Inr k \<Rightarrow> \<forall>b\<in>set (order_of head). key_of hp b \<noteq> k)"
| "legal_op hp head (Remove a) \<longleftrightarrow> a \<in> set (order_of head)"
| "legal_op hp head (Lookup p n) \<longleftrightarrow> True"

fun run_lists :: "(nat \<Rightarrow> bool) \<Rightarrow> heap \<Rightarrow> ut_table option \<Rightarrow> table_op list
    \<Rightarrow> fault + nat option list \<times> heap \<times> ut_table option" where
  "run_lists can_alloc hp head [] = Inr ([], hp, head)"
| "run_lists can_alloc hp head (x # ops) =
     bindr (step_lists can_alloc hp head x) (\<lambda>(r, hp, head).
     bindr (run_lists can_alloc hp head ops) (\<lambda>(rs, hp, head). Inr (r # rs, hp, head)))"

fun run_links :: "(nat \<Rightarrow> bool) \<Rightarrow> nat \<Rightarrow> heap \<Rightarrow> links \<Rightarrow> table_op list
    \<Rightarrow> fault + nat option list \<times> heap \<times> links" where
  "run_links can_alloc fuel hp s [] = Inr ([], hp, s)"
| "run_links can_alloc fuel hp s (x # ops) =
     bindr (step_links can_alloc fuel hp s x) (\<lambda>(r, hp, s).
     bindr (run_links can_alloc fuel hp s ops) (\<lambda>(rs, hp, s). Inr (r # rs, hp, s)))"

fun legal_run :: "(nat \<Rightarrow> bool) \<Rightarrow> heap \<Rightarrow> ut_table option \<Rightarrow> table_op list \<Rightarrow> bool" where
  "legal_run can_alloc hp head [] \<longleftrightarrow> True"
| "legal_run can_alloc hp head (x # ops) \<longleftrightarrow> legal_op hp head x \<and>
     (case step_lists can_alloc hp head x of Inl _ \<Rightarrow> True
      | Inr (_, hp, head) \<Rightarrow> legal_run can_alloc hp head ops)"

text \<open>The invariant of a run: the pointers are those of the lists, the table is well formed, and
  every allocated element has its cells.\<close>

definition in_step :: "heap \<Rightarrow> ut_table option \<Rightarrow> links \<Rightarrow> bool" where
  "in_step hp head s \<longleftrightarrow> links_rel head s \<and> head_ok hp head \<and> (\<forall>a. hp a \<noteq> None \<longrightarrow> live s a)"

lemma chain_dom:
  assumes "tbl_rel cs t lt" "x \<in> set (elems_of (tbl_buckets t))"
  shows "cs x \<noteq> None"
proof -
  obtain b where b: "b \<in> set (tbl_buckets t)" "x \<in> set (bkt_chain b)" using assms(2) by auto
  then obtain i where i: "i < length (tbl_buckets t)" "b = tbl_buckets t ! i" by (auto simp: in_set_conv_nth)
  have "list_all2 (chain_rel cs) (tbl_buckets t) (lt_buckets lt)"
    using assms(1) by (simp add: tbl_rel_def buckets_rel_def)
  from list_all2_nthD [OF this i(1)] have "dseg cs None (bkt_chain b) None"
    using i(2) by (simp add: chain_rel_def)
  then show ?thesis using dseg_dom b(2) by fastforce
qed

lemma links_live:
  assumes "links_rel (Some t) s" "table_ok hp t" "x \<in> set (tbl_order t)"
  shows "live s x"
proof -
  obtain lt where "tbl_rel (l_chn s) t lt" using assms(1) by (rule links_relE)
  then have "l_chn s x \<noteq> None" using chain_dom table_elems(3) [OF assms(2)] assms(3) by blast
  moreover have "dseg (l_ord s) None (tbl_order t) None" using assms(1) by (simp add: links_rel_def)
  ultimately show ?thesis using dseg_dom assms(3) by (fastforce simp: live_def)
qed

lemma in_step_inserted:
  assumes inv: "in_step hp head s" and link: "linked_after s (a # order_of head) t s'" and ok: "table_ok hp' t"
    and set: "set (tbl_order t) = insert a (set (order_of head))" and dom: "\<And>b. hp' b \<noteq> None \<Longrightarrow> hp b \<noteq> None"
  shows "in_step hp' (Some t) s'"
proof -
  have "live s' b" if "hp' b \<noteq> None" for b
  proof (cases "b \<in> set (tbl_order t)")
    case True
    then show ?thesis using ok link links_live by (auto simp: linked_after_def)
  next
    case False
    have "live s b" using dom [OF that] inv by (simp add: in_step_def)
    then show ?thesis using False set link by (simp add: linked_after_def live_def)
  qed
  then show ?thesis using ok link by (simp add: in_step_def linked_after_def)
qed

lemma insert_step:
  assumes inv: "in_step hp head s" and mem: "memory_bound can_alloc" and op: "legal_op hp head (Insert p n a)"
    and fuel: "length (order_of head) < fuel"
  obtains "HASH_ADD_KEYPTR can_alloc hp head p n a = Inl (ProgramExit (-1))"
      "HASH_ADD_KEYPTR_p can_alloc fuel hp s p n a = Inl (ProgramExit (-1))"
  | e k hp' t s' where "hp a = Some e" "read_bytes p (unat n) = Inr k"
      "hp' = hp(a \<mapsto> e\<lparr>hh_hashv := HASH_JEN k, hh_key := p, hh_keylen := ucast n\<rparr>)"
      "HASH_ADD_KEYPTR can_alloc hp head p n a = Inr (hp', t)"
      "HASH_ADD_KEYPTR_p can_alloc fuel hp s p n a = Inr (hp', s')"
      "in_step hp' (Some t) s'" "tbl_order t = order_of head @ [a]"
proof -
  have rel: "links_rel head s" and ok: "head_ok hp head" using inv by (simp_all add: in_step_def)
  obtain k where k: "read_bytes p (unat n) = Inr k" "\<forall>b\<in>set (order_of head). key_of hp b \<noteq> k"
    using op by (auto split: sum.splits)
  obtain e where e: "hp a = Some e" "a \<notin> set (order_of head)" "unat n < 2 ^ 32" using op by auto
  define hp' where "hp' = hp(a \<mapsto> e\<lparr>hh_hashv := HASH_JEN k, hh_key := p, hh_keylen := ucast n\<rparr>)"
  have sim: "simr (\<lambda>(hp1, t) (hp2, s'). hp1 = hp2 \<and> linked_after s (a # order_of head) t s')
    (HASH_ADD_KEYPTR can_alloc hp head p n a) (HASH_ADD_KEYPTR_p can_alloc fuel hp s p n a)"
    by (rule insertion_refines [OF rel ok e(2) _ fuel]) (use inv e(1) in \<open>simp add: in_step_def\<close>)
  from HASH_ADD_KEYPTR_ok [OF ok mem e(1,2) k(1) e(3) k(2) hp'_def] show thesis
  proof
    assume "HASH_ADD_KEYPTR can_alloc hp head p n a = Inl (ProgramExit (-1))"
    then show thesis using that(1) sim by simp
  next
    assume "\<exists>t. HASH_ADD_KEYPTR can_alloc hp head p n a = Inr (hp', t) \<and> table_ok hp' t \<and>
      tbl_order t = order_of head @ [a]"
    then obtain t s' where t: "HASH_ADD_KEYPTR can_alloc hp head p n a = Inr (hp', t)" "table_ok hp' t"
      "tbl_order t = order_of head @ [a]" "HASH_ADD_KEYPTR_p can_alloc fuel hp s p n a = Inr (hp', s')"
      "linked_after s (a # order_of head) t s'"
      using sim by auto
    have "in_step hp' (Some t) s'"
      by (rule in_step_inserted [OF inv t(5,2)]) (use e(1) in \<open>simp_all add: t(3) hp'_def split: if_splits\<close>)
    then show thesis using that(2) [OF e(1) k(1) hp'_def t(1,4) _ t(3)] by blast
  qed
qed

lemma delete_step:
  assumes inv: "in_step hp head s" and a: "a \<in> set (order_of head)"
  obtains head' s' where "HASH_DELETE hp head (Some a) = Inr head'" "HASH_DELETE_p hp s (Some a) = Inr s'"
    "in_step hp head' s'" "order_of head' = remove1 a (order_of head)"
proof -
  have rel: "links_rel head s" and ok: "head_ok hp head" using inv by (simp_all add: in_step_def)
  obtain head' s' where del: "HASH_DELETE hp head (Some a) = Inr head'" "HASH_DELETE_p hp s (Some a) = Inr s'"
    "links_rel head' s'" "\<And>x. x \<notin> set (order_of head) - {a} \<Longrightarrow> l_ord s' x = l_ord s x \<and> l_chn s' x = l_chn s x"
    by (rule deletion_refines [OF rel ok a]) (rule that)
  obtain t where head: "head = Some t" "a \<in> set (tbl_order t)" using a by (cases head) auto
  have h': "head_ok hp head'" "order_of head' = remove1 a (order_of head)"
    using HASH_DELETE_ok [of hp t a] ok head del(1) by auto
  have "live s' b" if "hp b \<noteq> None" for b
  proof (cases "b \<in> set (order_of head')")
    case True
    then obtain t' where "head' = Some t'" by (cases head') auto
    then show ?thesis using links_live del(3) h'(1) True by auto
  next
    case False
    have "distinct (order_of head)" using rel head(1) by (simp add: links_rel_def)
    then have "b \<notin> set (order_of head) - {a}" using False h'(2) by simp
    moreover have "live s b" using inv that by (simp add: in_step_def)
    ultimately show ?thesis using del(4) by (simp add: live_def)
  qed
  then have "in_step hp head' s'" using del(3) h'(1) by (simp add: in_step_def)
  then show thesis using that del(1,2) h'(2) by blast
qed

lemma step_refines:
  assumes inv: "in_step hp head s" and mem: "memory_bound can_alloc" and op: "legal_op hp head x"
    and fuel: "length (order_of head) < fuel"
  shows "simr (\<lambda>(r, hp1, head1) (r', hp2, s1). r = r' \<and> hp1 = hp2 \<and> in_step hp1 head1 s1 \<and>
      length (order_of head1) \<le> length (order_of head) + 1)
    (step_lists can_alloc hp head x) (step_links can_alloc fuel hp s x)"
proof (cases x)
  case (Insert p n a)
  show ?thesis
    by (rule insert_step [OF inv mem op [unfolded Insert] fuel]) (simp_all add: Insert)
next
  case (Remove a)
  have "length (remove1 a (order_of head)) \<le> length (order_of head)" by (simp add: length_remove1)
  moreover have "a \<in> set (order_of head)" using op Remove by simp
  ultimately show ?thesis using Remove by (auto elim!: delete_step [OF inv])
next
  case (Lookup p n)
  have "HASH_FIND_p fuel hp s p n = HASH_FIND hp head p n"
    using inv fuel by (intro find_refines) (simp_all add: in_step_def)
  then show ?thesis using inv Lookup by (auto simp: simr_def bindr_def split: sum.splits)
qed

lemma run_refines:
  assumes "in_step hp head s" "memory_bound can_alloc" "legal_run can_alloc hp head ops"
    and "length (order_of head) + length ops \<le> fuel"
  shows "simr (\<lambda>(rs, hp1, head1) (rs', hp2, s1). rs = rs' \<and> hp1 = hp2 \<and> in_step hp1 head1 s1 \<and>
      length (order_of head1) \<le> length (order_of head) + length ops)
    (run_lists can_alloc hp head ops) (run_links can_alloc fuel hp s ops)"
  using assms(1,3,4)
proof (induction ops arbitrary: hp head s)
  case Nil
  then show ?case by simp
next
  case (Cons x ops)
  have "legal_op hp head x" "length (order_of head) < fuel" using Cons.prems(2,3) by simp_all
  note sim = step_refines [OF Cons.prems(1) assms(2) this]
  show ?case
  proof (cases "step_lists can_alloc hp head x")
    case (Inl f)
    then show ?thesis using sim by simp
  next
    case (Inr st)
    obtain r hp1 head1 where st: "st = (r, hp1, head1)" by (cases st) auto
    obtain s1 where s1: "step_links can_alloc fuel hp s x = Inr (r, hp1, s1)" "in_step hp1 head1 s1"
      "length (order_of head1) \<le> length (order_of head) + 1"
      using sim Inr st by auto
    have "legal_run can_alloc hp1 head1 ops" using Cons.prems(2) Inr st by simp
    from Cons.IH [OF s1(2) this] s1(3) Cons.prems(3)
    have "simr (\<lambda>(rs, hp2, head2) (rs', hp3, s2). rs = rs' \<and> hp2 = hp3 \<and> in_step hp2 head2 s2 \<and>
        length (order_of head2) \<le> length (order_of head1) + length ops)
      (run_lists can_alloc hp1 head1 ops) (run_links can_alloc fuel hp1 s1 ops)" by simp
    then show ?thesis
      using Inr st s1 by (auto simp: simr_def bindr_def split: sum.splits)
  qed
qed

text \<open>C5: whatever is inserted, removed and looked up in a new table, as long as the contract of the
  macros is kept, following the pointers returns what the operations on lists return and ends
  in the pointers of the same lists; and \<^verbatim>\<open>HASH_FSCK\<close> accepts them.\<close>

theorem table_runs_refine:
  assumes "l_head s = None" and "\<forall>a. hp a \<noteq> None \<longrightarrow> live s a" and "memory_bound can_alloc"
    and "legal_run can_alloc hp None ops" and "length ops \<le> fuel"
  shows "simr (\<lambda>(rs, hp1, head) (rs', hp2, s'). rs = rs' \<and> hp1 = hp2 \<and> links_rel head s' \<and>
      HASH_FSCK fuel s' = Inr ())
    (run_lists can_alloc hp None ops) (run_links can_alloc fuel hp s ops)"
proof -
  have "in_step hp None s" using assms(1,2) by (simp add: in_step_def links_rel_def)
  with assms(5) have "simr (\<lambda>(rs, hp1, head1) (rs', hp2, s1). rs = rs' \<and> hp1 = hp2 \<and> in_step hp1 head1 s1 \<and>
      length (order_of head1) \<le> fuel)
    (run_lists can_alloc hp None ops) (run_links can_alloc fuel hp s ops)"
    by (intro simr_mono [OF run_refines [OF \<open>in_step hp None s\<close> assms(3,4), of fuel]]) auto
  then show ?thesis
    by (rule simr_mono) (auto simp: in_step_def intro: fsck_passes)
qed

definition sample_key :: ptr where
  "sample_key = Obj [0x44, 0x61, 0x74, 0x61, 0x4B, 0x65, 0x79]"

definition sample_heap :: heap where
  "sample_heap = [1 \<mapsto> \<lparr>he_key = Null, he_value = Null, he_value_length = 0, hh_key = Null,
     hh_keylen = 0, hh_hashv = 0\<rparr>]"

definition sample_links :: links where
  "sample_links = \<lparr>l_ord = [1 \<mapsto> \<lparr>c_prev = None, c_next = None\<rparr>],
     l_chn = [1 \<mapsto> \<lparr>c_prev = None, c_next = None\<rparr>], l_head = None, l_tbl = None\<rparr>"

definition sample_ops :: "table_op list" where
  "sample_ops = [Insert sample_key 7 1, Lookup sample_key 7, Remove 1]"

theorem table_runs_refine_witness:
  "simr (\<lambda>(rs, hp1, head) (rs', hp2, s'). rs = rs' \<and> hp1 = hp2 \<and> links_rel head s' \<and>
      HASH_FSCK 3 s' = Inr ())
    (run_lists (\<lambda>n. n < 2 ^ 36) sample_heap None sample_ops)
    (run_links (\<lambda>n. n < 2 ^ 36) 3 sample_heap sample_links sample_ops)"
proof (rule table_runs_refine)
  have mem: "memory_bound (\<lambda>n. n < 2 ^ 36)" by (simp add: memory_bound_def)
  show "memory_bound (\<lambda>n. n < 2 ^ 36)" by (rule mem)
  have k: "read_bytes sample_key (unat (7 :: size_t)) = Inr [0x44, 0x61, 0x74, 0x61, 0x4B, 0x65, 0x79]"
    by (simp add: sample_key_def)
  from HASH_ADD_KEYPTR_ok [OF _ mem _ _ k _ _ refl, of sample_heap None 1]
  have "HASH_ADD_KEYPTR (\<lambda>n. n < 2 ^ 36) sample_heap None sample_key 7 1 = Inl (ProgramExit (-1)) \<or>
    (\<exists>hp' t. HASH_ADD_KEYPTR (\<lambda>n. n < 2 ^ 36) sample_heap None sample_key 7 1 = Inr (hp', t) \<and>
       tbl_order t = [1])"
    by (auto simp: sample_heap_def)
  then show "legal_run (\<lambda>n. n < 2 ^ 36) sample_heap None sample_ops"
    using k by (auto simp: sample_ops_def sample_heap_def bindr_eq_Inr split: sum.splits)
qed (simp_all add: sample_links_def sample_heap_def sample_ops_def live_def)

end
