(* ===== verification/Uthash_Sort.thy ===== *)
theory Uthash_Sort
  imports Uthash
begin

text \<open>
  The ordered side of \<^verbatim>\<open>src/src/libraries/uthash.h\<close>: the bottom-up merge sort \<^verbatim>\<open>HASH_SRT\<close> of
  the application order, and the insertion in order. The program does not expand these macros.
  A comparison function of the user is \<open>cmp\<close>, on the addresses of two elements.
\<close>

section \<open>The sort\<close>

text \<open>\<^verbatim>\<open>_hs_e\<close> is linked behind \<^verbatim>\<open>_hs_tail\<close>: the list from \<^verbatim>\<open>_hs_list\<close> on, and whether
  \<^verbatim>\<open>_hs_tail\<close> is \<^verbatim>\<open>NULL\<close>, in which case the list starts anew with \<^verbatim>\<open>_hs_e\<close>.\<close>

fun emit :: "nat option \<Rightarrow> nat list \<times> bool \<Rightarrow> nat list \<times> bool" where
  "emit None (out, no_tail) = (if no_tail then [] else out, True)"
| "emit (Some e) (out, no_tail) = (if no_tail then [e] else out @ [e], False)"

fun front :: "nat list \<Rightarrow> nat option" where
  "front [] = None"
| "front (a # _) = Some a"

text \<open>The loop that counts \<^verbatim>\<open>_hs_psize\<close> and moves \<^verbatim>\<open>_hs_q\<close> up to \<open>i\<close> elements on; \<open>q\<close> is not
  \<^verbatim>\<open>NULL\<close> where it is called.\<close>

fun advance :: "nat \<Rightarrow> nat list \<Rightarrow> nat \<times> nat list" where
  "advance 0 q = (0, q)"
| "advance (Suc i) q =
     (if tl q = [] then (1, []) else case advance i (tl q) of (n, r) \<Rightarrow> (Suc n, r))"

text \<open>The merge of \<^verbatim>\<open>psize\<close> elements at \<open>p\<close> with up to \<^verbatim>\<open>qsize\<close> elements at \<open>q\<close>. A comparison
  with an element that is not there would follow a null pointer.\<close>

function merge_runs :: "(nat \<Rightarrow> nat \<Rightarrow> int) \<Rightarrow> nat list \<Rightarrow> nat \<Rightarrow> nat list \<Rightarrow> nat \<Rightarrow> nat list \<times> bool
    \<Rightarrow> fault + (nat list \<times> bool) \<times> nat list" where
  "merge_runs cmp p psize q qsize acc =
     (if psize \<noteq> 0 \<or> qsize \<noteq> 0 \<and> q \<noteq> [] then
        if psize = 0 then merge_runs cmp p psize (tl q) (qsize - 1) (emit (front q) acc)
        else if qsize = 0 \<or> q = []
        then merge_runs cmp (tl p) (psize - 1) q qsize (emit (front p) acc)
        else if p = [] then Inl NullDeref
        else if cmp (hd p) (hd q) \<le> 0
        then merge_runs cmp (tl p) (psize - 1) q qsize (emit (front p) acc)
        else merge_runs cmp p psize (tl q) (qsize - 1) (emit (front q) acc)
      else Inr (acc, q))"
  by pat_completeness auto
termination
  by (relation "measure (\<lambda>(cmp, p, psize, q, qsize, acc). psize + qsize)") auto

declare merge_runs.simps [simp del]

text \<open>One pass over the list, with the number of merges; then passes with doubled run size until
  one merge was enough. Both loops take fuel.\<close>

fun srt_pass :: "(nat \<Rightarrow> nat \<Rightarrow> int) \<Rightarrow> byte32 \<Rightarrow> nat \<Rightarrow> nat list \<Rightarrow> nat list \<times> bool \<Rightarrow> byte32
    \<Rightarrow> fault + (nat list \<times> bool) \<times> byte32" where
  "srt_pass cmp insize 0 p acc nmerges = Inl OutOfFuel"
| "srt_pass cmp insize (Suc fuel) p acc nmerges =
     (if p = [] then Inr (acc, nmerges)
      else case advance (unat insize) p of (psize, q) \<Rightarrow>
        bindr (merge_runs cmp p psize q (unat insize) acc) (\<lambda>(acc, q).
        srt_pass cmp insize fuel q acc (nmerges + 1)))"

fun srt_loop :: "(nat \<Rightarrow> nat \<Rightarrow> int) \<Rightarrow> nat \<Rightarrow> nat \<Rightarrow> nat list \<Rightarrow> byte32 \<Rightarrow> fault + nat list" where
  "srt_loop cmp fuel 0 xs insize = Inl OutOfFuel"
| "srt_loop cmp fuel (Suc passes) xs insize =
     bindr (srt_pass cmp insize fuel xs ([], True) 0) (\<lambda>((out, _), nmerges).
     if nmerges \<le> 1 then Inr out else srt_loop cmp fuel passes out (insize * 2))"

definition HASH_SRT :: "(nat \<Rightarrow> nat \<Rightarrow> int) \<Rightarrow> nat \<Rightarrow> ut_table option \<Rightarrow> fault + ut_table option" where
  "HASH_SRT cmp fuel head =
     (case head of None \<Rightarrow> Inr None
      | Some t \<Rightarrow> bindr (srt_loop cmp fuel fuel (tbl_order t) 1) (\<lambda>xs.
          Inr (Some (t\<lparr>tbl_order := xs\<rparr>))))"

section \<open>Merging two runs\<close>

fun weave :: "('a \<Rightarrow> 'a \<Rightarrow> bool) \<Rightarrow> 'a list \<Rightarrow> 'a list \<Rightarrow> 'a list" where
  "weave R [] bs = bs"
| "weave R as [] = as"
| "weave R (a # as) (b # bs) = (if R a b then a # weave R as (b # bs) else b # weave R (a # as) bs)"

lemma weave_Nil2 [simp]: "weave R as [] = as"
  by (cases as) simp_all

lemma mset_weave: "mset (weave R as bs) = mset as + mset bs"
  by (induction R as bs rule: weave.induct) simp_all

lemma set_weave: "set (weave R as bs) = set as \<union> set bs"
  using mset_weave [of R as bs] by (metis set_mset_mset set_mset_union)

lemma length_weave: "length (weave R as bs) = length as + length bs"
  using mset_weave [of R as bs] by (metis size_mset size_union)

text \<open>The order of the comparison: total and transitive, as a comparison function has to be.\<close>

definition total_preorder :: "('a \<Rightarrow> 'a \<Rightarrow> bool) \<Rightarrow> bool" where
  "total_preorder R \<longleftrightarrow> (\<forall>a b. R a b \<or> R b a) \<and> (\<forall>a b c. R a b \<longrightarrow> R b c \<longrightarrow> R a c)"

lemma total_preorderD:
  assumes "total_preorder R" shows "R a b \<or> R b a" "R a b \<Longrightarrow> R b c \<Longrightarrow> R a c" "R a a"
  using assms unfolding total_preorder_def by blast+

lemma weave_sorted:
  "total_preorder R \<Longrightarrow> sorted_wrt R as \<Longrightarrow> sorted_wrt R bs \<Longrightarrow> sorted_wrt R (weave R as bs)"
proof (induction R as bs rule: weave.induct)
  case (3 R a as b bs)
  have a: "\<forall>x\<in>set as. R a x" "sorted_wrt R as" and b: "\<forall>x\<in>set bs. R b x" "sorted_wrt R bs"
    using "3.prems" by simp_all
  show ?case
  proof (cases "R a b")
    case True
    then have "\<forall>x\<in>set (b # bs). R a x"
      using b(1) total_preorderD(2) [OF "3.prems"(1)] by auto
    moreover have "sorted_wrt R (weave R as (b # bs))"
      by (rule "3.IH"(1) [OF True "3.prems"(1) a(2) "3.prems"(3)])
    ultimately show ?thesis using True a(1) by (auto simp: set_weave)
  next
    case False
    then have "R b a" using total_preorderD(1) [OF "3.prems"(1)] by blast
    then have "\<forall>x\<in>set (a # as). R b x"
      using a(1) total_preorderD(2) [OF "3.prems"(1)] by auto
    moreover have "sorted_wrt R (weave R (a # as) bs)"
      by (rule "3.IH"(2) [OF False "3.prems"(1,2) b(2)])
    ultimately show ?thesis using False b(1) by (auto simp: set_weave)
  qed
qed simp_all

text \<open>The elements that compare as equal to \<open>x\<close> keep their order.\<close>

definition alike :: "('a \<Rightarrow> 'a \<Rightarrow> bool) \<Rightarrow> 'a \<Rightarrow> 'a list \<Rightarrow> 'a list" where
  "alike R x = filter (\<lambda>y. R x y \<and> R y x)"

lemma alike_append [simp]: "alike R x (as @ bs) = alike R x as @ alike R x bs"
  by (simp add: alike_def)

lemma alike_weave:
  "total_preorder R \<Longrightarrow> sorted_wrt R as \<Longrightarrow> sorted_wrt R bs \<Longrightarrow>
   alike R x (weave R as bs) = alike R x as @ alike R x bs"
proof (induction R as bs rule: weave.induct)
  case (3 R a as b bs)
  have srt: "sorted_wrt R as" "sorted_wrt R bs" using "3.prems"(2,3) by simp_all
  show ?case
  proof (cases "R a b")
    case True
    then show ?thesis
      using "3.IH"(1) [OF True "3.prems"(1) srt(1) "3.prems"(3)] by (simp add: alike_def)
  next
    case False
    have "alike R x (a # as) = []" if "R x b \<and> R b x"
    proof -
      have "\<not> (R x y \<and> R y x)" if "y \<in> set (a # as)" for y
      proof
        assume "R x y \<and> R y x"
        then have "R y b" using \<open>R x b \<and> R b x\<close> total_preorderD(2) [OF "3.prems"(1)] by blast
        moreover have "R a y" using that "3.prems"(2) total_preorderD(3) [OF "3.prems"(1)] by auto
        ultimately show False using False total_preorderD(2) [OF "3.prems"(1)] by blast
      qed
      then show ?thesis unfolding alike_def by (intro filter_False ballI)
    qed
    then show ?thesis
      using False "3.IH"(2) [OF False "3.prems"(1,2) srt(2)] by (auto simp: alike_def)
  qed
qed (simp_all add: alike_def)

section \<open>The loops compute merges\<close>

lemma advance_run: "q \<noteq> [] \<Longrightarrow> advance i q = (min i (length q), drop i q)"
proof (induction i q rule: advance.induct)
  case (2 i q)
  then obtain a r where q: "q = a # r" by (cases q) auto
  then show ?case using "2.IH" by (cases r) auto
qed simp

lemma emit_more:
  "emit (Some e) (out, out = []) = (out @ [e], out @ [e] = [])"
  by simp

lemma merge_runs_run:
  "merge_runs cmp (ps @ z) (length ps) q qsize (out, out = []) =
     Inr ((out @ weave (\<lambda>a b. cmp a b \<le> 0) ps (take qsize q),
           out @ weave (\<lambda>a b. cmp a b \<le> 0) ps (take qsize q) = []), drop qsize q)"
proof (induction "length ps + qsize" arbitrary: ps q qsize out)
  case 0
  then show ?case by (simp add: merge_runs.simps)
next
  case (Suc n)
  let ?R = "\<lambda>a b. cmp a b \<le> 0"
  show ?case
  proof (cases "qsize = 0 \<or> q = []")
    case True
    show ?thesis
    proof (cases ps)
      case Nil
      with True show ?thesis by (subst merge_runs.simps) auto
    next
      case (Cons a ps')
      have "n = length ps' + qsize" using Suc.hyps(2) Cons by simp
      from Suc.hyps(1) [OF this, of q "out @ [a]"] Cons True show ?thesis
        by (subst merge_runs.simps) (auto simp: emit_more)
    qed
  next
    case False
    then obtain b q' m where q: "q = b # q'" "qsize = Suc m" by (cases q; cases qsize) auto
    show ?thesis
    proof (cases ps)
      case Nil
      have "n = length ([] :: nat list) + m" using Suc.hyps(2) Nil q by simp
      from Suc.hyps(1) [OF this, of q' "out @ [b]"] Nil q show ?thesis
        by (subst merge_runs.simps) (auto simp: emit_more)
    next
      case (Cons a ps')
      have "n = length ps' + qsize" "n = length ps + m" using Suc.hyps(2) Cons q by simp_all
      from Suc.hyps(1) [OF this(1), of q "out @ [a]"] Suc.hyps(1) [OF this(2), of q' "out @ [b]"] Cons q
      show ?thesis by (subst merge_runs.simps) (auto simp: emit_more)
    qed
  qed
qed

section \<open>Runs\<close>

text \<open>The list as runs of \<open>k\<close> elements, the last of which may be shorter, and what a pass makes
  of them.\<close>

fun aligned :: "nat \<Rightarrow> 'a list list \<Rightarrow> bool" where
  "aligned k [] = True"
| "aligned k [r] = (r \<noteq> [] \<and> length r \<le> k)"
| "aligned k (r # rs) = (length r = k \<and> aligned k rs)"

fun pair_up :: "('a \<Rightarrow> 'a \<Rightarrow> bool) \<Rightarrow> 'a list list \<Rightarrow> 'a list list" where
  "pair_up R [] = []"
| "pair_up R [r] = [r]"
| "pair_up R (r # s # rs) = weave R r s # pair_up R rs"

lemma length_pair_up: "length (pair_up R rs) = (length rs + 1) div 2"
  by (induction R rs rule: pair_up.induct) simp_all

lemma aligned_tl: "aligned k (r # rs) \<Longrightarrow> aligned k rs"
  by (cases rs) simp_all

lemma aligned_split:
  "aligned k (s # rs) \<Longrightarrow> take k (s @ concat rs) = s \<and> drop k (s @ concat rs) = concat rs"
  by (cases rs) simp_all

lemma aligned_Cons:
  "aligned k (r # rs) \<longleftrightarrow> (if rs = [] then r \<noteq> [] \<and> length r \<le> k else length r = k \<and> aligned k rs)"
  by (cases rs) simp_all

lemma pair_up_eq_Nil [simp]: "pair_up R rs = [] \<longleftrightarrow> rs = []"
  by (induction R rs rule: pair_up.induct) simp_all

lemma aligned_pair_up: "0 < k \<Longrightarrow> aligned k rs \<Longrightarrow> aligned (2 * k) (pair_up R rs)"
proof (induction R rs rule: pair_up.induct)
  case (3 R r s rs)
  have rs: "aligned (2 * k) (pair_up R rs)"
    using 3 aligned_tl [of k s rs] aligned_tl [of k r "s # rs"] by blast
  have "length r = k" "aligned k (s # rs)" using "3.prems"(2) by simp_all
  moreover have "weave R r s \<noteq> []" using \<open>length r = k\<close> "3.prems"(1) length_weave [of R r s] by auto
  ultimately show ?case
    using rs length_weave [of R r s] unfolding pair_up.simps(3)
    by (cases "rs = []") (simp_all add: aligned_Cons)
qed simp_all

lemma aligned_length: "0 < k \<Longrightarrow> aligned k rs \<Longrightarrow> (length rs - 1) * k + 1 \<le> length (concat rs) \<or> rs = []"
  by (induction k rs rule: aligned.induct) (auto simp: Suc_le_eq)

lemma mset_pair_up: "mset (concat (pair_up R rs)) = mset (concat rs)"
  by (induction R rs rule: pair_up.induct) (simp_all add: mset_weave)

lemma sorted_pair_up:
  "total_preorder R \<Longrightarrow> \<forall>r\<in>set rs. sorted_wrt R r \<Longrightarrow> \<forall>r\<in>set (pair_up R rs). sorted_wrt R r"
  by (induction R rs rule: pair_up.induct) (simp_all add: weave_sorted)

lemma alike_pair_up:
  "total_preorder R \<Longrightarrow> \<forall>r\<in>set rs. sorted_wrt R r \<Longrightarrow>
   alike R x (concat (pair_up R rs)) = alike R x (concat rs)"
  by (induction R rs rule: pair_up.induct) (simp_all add: alike_weave)

lemma srt_pass_run:
  assumes "0 < unat insize" "aligned (unat insize) rs" "length (pair_up (\<lambda>a b. cmp a b \<le> 0) rs) < fuel"
  shows "srt_pass cmp insize fuel (concat rs) (out, out = []) n =
    Inr ((out @ concat (pair_up (\<lambda>a b. cmp a b \<le> 0) rs),
          out @ concat (pair_up (\<lambda>a b. cmp a b \<le> 0) rs) = []),
         n + of_nat (length (pair_up (\<lambda>a b. cmp a b \<le> 0) rs)))"
  using assms(2,3)
proof (induction "\<lambda>a b. cmp a b \<le> 0" rs arbitrary: fuel out n rule: pair_up.induct)
  case 1
  then show ?case by (cases fuel) simp_all
next
  case (2 r)
  then have "1 < fuel" by simp
  then obtain f where f: "fuel = Suc (Suc f)" by (auto dest!: less_imp_Suc_add)
  have r: "r \<noteq> []" "length r \<le> unat insize" using 2 by simp_all
  have "merge_runs cmp r (length r) [] (unat insize) (out, out = []) = Inr ((out @ r, out @ r = []), [])"
    using merge_runs_run [of cmp r "[]" "[]"] by simp
  moreover have "advance (unat insize) r = (length r, [])" using r by (simp add: advance_run)
  ultimately show ?case using r(1) by (simp add: f)
next
  case (3 r s rs)
  then obtain f where f: "fuel = Suc f" by (cases fuel) simp_all
  let ?R = "\<lambda>a b. cmp a b \<le> 0"
  let ?q = "s @ concat rs"
  have r: "length r = unat insize" "r \<noteq> []" and s: "aligned (unat insize) (s # rs)"
    using 3 assms(1) by auto
  have "advance (unat insize) (r @ ?q) = (length r, ?q)"
    using r by (simp add: advance_run)
  moreover have "merge_runs cmp (r @ ?q) (length r) ?q (unat insize) (out, out = []) =
      Inr ((out @ weave ?R r s, out @ weave ?R r s = []), concat rs)"
    using merge_runs_run [of cmp r ?q ?q "unat insize" out] aligned_split [OF s] by simp
  moreover have "srt_pass cmp insize f (concat rs) (out @ weave ?R r s, out @ weave ?R r s = []) (n + 1) =
      Inr (((out @ weave ?R r s) @ concat (pair_up ?R rs), (out @ weave ?R r s) @ concat (pair_up ?R rs) = []),
        n + 1 + of_nat (length (pair_up ?R rs)))"
    by (rule "3.hyps") (use aligned_tl [OF s] 3 f in simp_all)
  ultimately show ?case using r by (simp add: f)
qed

text \<open>All passes: a pass per run is more than enough, since the number of runs is halved.\<close>

lemma srt_loop_run:
  assumes "total_preorder (\<lambda>a b. cmp a b \<le> 0)" "0 < unat insize" "aligned (unat insize) rs" "rs \<noteq> []"
    and "\<forall>r\<in>set rs. sorted_wrt (\<lambda>a b. cmp a b \<le> 0) r" "length (concat rs) < 2 ^ 32"
    and "length (concat rs) < fuel" "length rs \<le> passes"
  shows "\<exists>ys. srt_loop cmp fuel passes (concat rs) insize = Inr ys \<and> mset ys = mset (concat rs) \<and>
    sorted_wrt (\<lambda>a b. cmp a b \<le> 0) ys \<and>
    (\<forall>x. alike (\<lambda>a b. cmp a b \<le> 0) x ys = alike (\<lambda>a b. cmp a b \<le> 0) x (concat rs))"
  using assms(2-8)
proof (induction passes arbitrary: insize rs)
  case (Suc passes)
  let ?R = "\<lambda>a b. cmp a b \<le> 0" and ?k = "unat insize"
  let ?us = "pair_up ?R rs"
  have len: "(length rs - 1) * ?k + 1 \<le> length (concat rs)"
    using aligned_length [OF Suc.prems(1,2)] Suc.prems(3) by blast
  have "length rs - 1 \<le> (length rs - 1) * ?k" using mult_le_mono2 [of 1 ?k "length rs - 1"] Suc.prems(1) by linarith
  then have "length rs \<le> length (concat rs)" using len by linarith
  moreover have "(length rs + 1) div 2 \<le> length rs" using Suc.prems(3) by (cases rs) simp_all
  ultimately have n: "length ?us \<le> length (concat rs)" unfolding length_pair_up by linarith
  have pass: "srt_pass cmp insize fuel (concat rs) ([], True) 0 =
      Inr ((concat ?us, concat ?us = []), of_nat (length ?us))"
    using srt_pass_run [OF Suc.prems(1,2), of cmp fuel "[]" 0] n Suc.prems(6) by simp
  have facts: "\<forall>r\<in>set ?us. sorted_wrt ?R r" "mset (concat ?us) = mset (concat rs)"
    "alike ?R x (concat ?us) = alike ?R x (concat rs)" for x
    using sorted_pair_up [OF assms(1) Suc.prems(4)] alike_pair_up [OF assms(1) Suc.prems(4)]
    by (simp_all add: mset_pair_up)
  have one: "(of_nat (length ?us) :: byte32) \<le> 1 \<longleftrightarrow> length ?us \<le> 1"
    using n Suc.prems(5) by (simp add: word_le_nat_alt unat_of_nat take_bit_nat_eq_self)
  show ?case
  proof (cases "length ?us \<le> 1")
    case True
    moreover have "?us \<noteq> []" using Suc.prems(3) by simp
    ultimately obtain r where "?us = [r]" by (cases ?us) auto
    then show ?thesis using pass facts one by simp
  next
    case False
    then have "3 \<le> length rs" by (simp add: length_pair_up)
    then have "2 * ?k \<le> (length rs - 1) * ?k" by (intro mult_le_mono1) linarith
    then have "?k * 2 < 2 ^ 32" using len Suc.prems(5) by linarith
    then have k2: "unat (insize * 2) = 2 * ?k" by (simp add: unat_word_ariths)
    have "\<exists>ys. srt_loop cmp fuel passes (concat ?us) (insize * 2) = Inr ys \<and> mset ys = mset (concat ?us) \<and>
        sorted_wrt ?R ys \<and> (\<forall>x. alike ?R x ys = alike ?R x (concat ?us))"
    proof (rule Suc.IH)
      show "0 < unat (insize * 2)" using k2 Suc.prems(1) by simp
      show "aligned (unat (insize * 2)) ?us" using aligned_pair_up [OF Suc.prems(1,2)] k2 by simp
      show "?us \<noteq> []" using Suc.prems(3) by simp
      show "\<forall>r\<in>set ?us. sorted_wrt ?R r" by (rule facts(1))
      show "length (concat ?us) < 2 ^ 32" "length (concat ?us) < fuel"
        using facts(2) Suc.prems(5,6) by (metis size_mset)+
      show "length ?us \<le> passes"
        using \<open>3 \<le> length rs\<close> Suc.prems(7) by (simp add: length_pair_up)
    qed
    then show ?thesis using pass facts(2,3) one False by simp
  qed
qed simp

section \<open>The sorted table\<close>

lemma table_ok_permute:
  assumes "table_ok hp t" "mset ys = mset (tbl_order t)"
  shows "table_ok hp (t\<lparr>tbl_order := ys\<rparr>)"
proof -
  have "set ys = set (tbl_order t)" "length ys = length (tbl_order t)" "distinct ys = distinct (tbl_order t)"
    using assms(2) mset_eq_setD mset_eq_length mset_eq_imp_distinct_iff by blast+
  moreover from this(2) have "ys = [] \<longleftrightarrow> tbl_order t = []" by (metis length_0_conv)
  ultimately show ?thesis using assms by (simp add: table_ok_def)
qed

text \<open>
  \<^verbatim>\<open>HASH_SRT\<close> sorts: with a comparison function that is a total preorder it returns, never
  following a null pointer, and the application order is afterwards a sorted permutation of what
  it was, in which elements that compare as equal have kept their order; the buckets are not
  touched and the table stays well formed. One more pass than elements is enough.\<close>

theorem hash_srt_sorts:
  assumes "table_ok hp t" and "total_preorder (\<lambda>a b. cmp a b \<le> 0)"
    and "length (tbl_order t) < 2 ^ 32" and "length (tbl_order t) < fuel"
  shows "\<exists>ys. HASH_SRT cmp fuel (Some t) = Inr (Some (t\<lparr>tbl_order := ys\<rparr>)) \<and>
    sorted_wrt (\<lambda>a b. cmp a b \<le> 0) ys \<and> mset ys = mset (tbl_order t) \<and>
    (\<forall>x. alike (\<lambda>a b. cmp a b \<le> 0) x ys = alike (\<lambda>a b. cmp a b \<le> 0) x (tbl_order t)) \<and>
    table_ok hp (t\<lparr>tbl_order := ys\<rparr>)"
proof -
  let ?rs = "map (\<lambda>a. [a]) (tbl_order t)"
  have c: "concat ?rs = tbl_order t" by simp
  have "aligned 1 (map (\<lambda>a. [a]) xs)" for xs :: "nat list"
    by (induction xs) (simp_all add: aligned_Cons)
  then have "aligned (unat (1 :: byte32)) ?rs" by simp
  moreover have "tbl_order t \<noteq> []" using assms(1) by (simp add: table_ok_def)
  ultimately have "\<exists>ys. srt_loop cmp fuel fuel (concat ?rs) 1 = Inr ys \<and> mset ys = mset (concat ?rs) \<and>
      sorted_wrt (\<lambda>a b. cmp a b \<le> 0) ys \<and>
      (\<forall>x. alike (\<lambda>a b. cmp a b \<le> 0) x ys = alike (\<lambda>a b. cmp a b \<le> 0) x (concat ?rs))"
    using assms(3,4) unfolding c by (intro srt_loop_run [OF assms(2), of 1 ?rs, unfolded c]) simp_all
  then
  obtain ys where "srt_loop cmp fuel fuel (tbl_order t) 1 = Inr ys" "mset ys = mset (tbl_order t)"
    "sorted_wrt (\<lambda>a b. cmp a b \<le> 0) ys"
    "\<forall>x. alike (\<lambda>a b. cmp a b \<le> 0) x ys = alike (\<lambda>a b. cmp a b \<le> 0) x (tbl_order t)"
    unfolding c by blast
  with table_ok_permute [OF assms(1)] show ?thesis
    by (intro exI [of _ ys]) (simp add: HASH_SRT_def)
qed

text \<open>Three elements with keys of one byte, and a table of two of them in a single bucket.\<close>

definition pair_heap :: heap where
  "pair_heap = (\<lambda>a. if a \<in> {1, 2, 3} then Some \<lparr>he_key = Null, he_value = Null, he_value_length = 0,
     hh_key = Obj [of_nat a], hh_keylen = 1, hh_hashv = HASH_JEN [of_nat a]\<rparr> else None)"

definition pair_table :: ut_table where
  "pair_table = \<lparr>tbl_buckets = [\<lparr>bkt_chain = [1, 2], bkt_count = 2, bkt_expand_mult = 0\<rparr>],
     tbl_num_buckets = 1, tbl_log2_num_buckets = 0, tbl_num_items = 2, tbl_order = [2, 1],
     tbl_ideal_chain_maxlen = 0, tbl_nonideal_items = 0, tbl_ineff_expands = 0, tbl_noexpand = 0\<rparr>"

lemma pair_table_ok: "table_ok pair_heap pair_table"
proof -
  have "key_of pair_heap a = [of_nat a]" "handle_ok pair_heap a" if "a \<in> {1, 2}" for a
    using that by (auto simp: key_of_def handle_ok_def pair_heap_def)
  then show ?thesis
    by (auto simp: table_ok_def pair_table_def buckets_ok_def bucket_of_def HASH_TO_BKT_def inj_on_def)
qed

theorem hash_srt_sorts_witness:
  "\<exists>ys. HASH_SRT (\<lambda>a b. int a - int b) 3 (Some pair_table) = Inr (Some (pair_table\<lparr>tbl_order := ys\<rparr>)) \<and>
    sorted_wrt (\<lambda>a b. int a - int b \<le> 0) ys \<and> mset ys = {#1, 2#}"
proof -
  have "total_preorder (\<lambda>a b. int a - int b \<le> 0)" by (auto simp: total_preorder_def)
  from hash_srt_sorts [OF pair_table_ok this, of 3] show ?thesis
    by (auto simp: pair_table_def)
qed

end
