(* ===== verification/Uthash_Order.thy ===== *)
theory Uthash_Order
  imports Uthash_Check Uthash_Sort
begin

text \<open>
  The macros of \<^verbatim>\<open>src/src/libraries/uthash.h\<close> that the program does not expand and that work on
  the application order: insertion in order, replacement, iteration that is safe against deletion,
  clearing. They follow the pointers of \<^verbatim>\<open>Uthash_Links\<close>.
\<close>

section \<open>A table with its pointers\<close>

text \<open>The pointers of \<open>pair_table\<close>, with the cells of a third element that is not linked.\<close>

definition pair_links :: links where
  "pair_links = \<lparr>l_ord = [1 \<mapsto> \<lparr>c_prev = Some 2, c_next = None\<rparr>, 2 \<mapsto> \<lparr>c_prev = None, c_next = Some 1\<rparr>,
       3 \<mapsto> \<lparr>c_prev = None, c_next = None\<rparr>],
     l_chn = [1 \<mapsto> \<lparr>c_prev = None, c_next = Some 2\<rparr>, 2 \<mapsto> \<lparr>c_prev = Some 1, c_next = None\<rparr>,
       3 \<mapsto> \<lparr>c_prev = None, c_next = None\<rparr>],
     l_head = Some 2,
     l_tbl = Some \<lparr>lt_buckets = [\<lparr>lb_head = Some 1, lb_count = 2, lb_expand_mult = 0\<rparr>],
       lt_num_buckets = 1, lt_log2_num_buckets = 0, lt_num_items = 2, lt_tail = Some 1,
       lt_ideal_chain_maxlen = 0, lt_nonideal_items = 0, lt_ineff_expands = 0, lt_noexpand = 0\<rparr>\<rparr>"

lemma pair_in_step: "in_step pair_heap (Some pair_table) pair_links"
proof -
  have "links_rel (Some pair_table) pair_links"
    by (simp add: links_rel_def pair_table_def pair_links_def tbl_rel_def buckets_rel_def chain_rel_def
        last_of_def)
  moreover have "live pair_links a" if "pair_heap a \<noteq> None" for a
    using that by (auto simp: live_def pair_links_def pair_heap_def split: if_splits)
  ultimately show ?thesis using pair_table_ok by (simp add: in_step_def)
qed

lemma pair_facts:
  "tbl_order pair_table = [2, 1]" "memory_bound (\<lambda>n. n < 2 ^ 36)"
  "legal_op pair_heap (Some pair_table) (Insert (Obj [3]) 1 3)"
  by (simp_all add: pair_table_def memory_bound_def pair_heap_def key_of_def)

section \<open>Insertion in order\<close>

text \<open>\<^verbatim>\<open>HASH_AKBI_INNER_LOOP\<close>: the first element that is greater than \<open>add\<close>, or \<^verbatim>\<open>NULL\<close>. The
  comparison function of the user is \<open>cmp\<close>, on the addresses of two elements.\<close>

fun HASH_AKBI_INNER_LOOP :: "nat \<Rightarrow> (nat \<Rightarrow> nat \<Rightarrow> int) \<Rightarrow> cells \<Rightarrow> nat \<Rightarrow> nat \<Rightarrow> fault + nat option" where
  "HASH_AKBI_INNER_LOOP 0 cmp cs iter add = Inl OutOfFuel"
| "HASH_AKBI_INNER_LOOP (Suc fuel) cmp cs iter add =
     (if cmp iter add > 0 then Inr (Some iter)
      else bindr (cell_at cs (Some iter)) (\<lambda>c.
           case c_next c of None \<Rightarrow> Inr None
           | Some n \<Rightarrow> HASH_AKBI_INNER_LOOP fuel cmp cs n add))"

text \<open>\<open>add\<close> is linked before \<open>iter\<close>; the flag says that it becomes the head.\<close>

definition insert_links :: "nat \<Rightarrow> nat \<Rightarrow> cells \<Rightarrow> fault + cells \<times> bool" where
  "insert_links add iter cs =
     bindr (put_next (Some add) (Some iter) cs) (\<lambda>cs.
     bindr (cell_at cs (Some iter)) (\<lambda>c.
     bindr (put_prev (Some add) (c_prev c) cs) (\<lambda>cs.
     bindr (if c_prev c \<noteq> None then put_next (c_prev c) (Some add) cs else Inr cs) (\<lambda>cs.
     bindr (put_prev (Some iter) (Some add) cs) (\<lambda>cs.
     Inr (cs, c_prev c = None))))))"

definition link_inorder_p :: "(nat \<Rightarrow> bool) \<Rightarrow> nat \<Rightarrow> (nat \<Rightarrow> nat \<Rightarrow> int) \<Rightarrow> links \<Rightarrow> nat \<Rightarrow> fault + links" where
  "link_inorder_p can_alloc fuel cmp s add =
     (case l_head s of
        None \<Rightarrow>
          bindr (put_next (Some add) None (l_ord s)) (\<lambda>cs.
          bindr (put_prev (Some add) None cs) (\<lambda>cs.
          bindr (HASH_MAKE_TABLE_p can_alloc add) (\<lambda>lt.
          Inr (s\<lparr>l_ord := cs, l_tbl := Some lt, l_head := Some add\<rparr>))))
      | Some head \<Rightarrow>
          bindr (tbl_of s) (\<lambda>lt.
          bindr (HASH_AKBI_INNER_LOOP fuel cmp (l_ord s) head add) (\<lambda>iter.
          case iter of
            Some i \<Rightarrow>
              bindr (insert_links add i (l_ord s)) (\<lambda>(cs, first).
              Inr (s\<lparr>l_ord := cs, l_head := (if first then Some add else l_head s)\<rparr>))
          | None \<Rightarrow>
              bindr (append_links add (lt_tail lt) (l_ord s)) (\<lambda>(cs, tail).
              Inr (s\<lparr>l_ord := cs, l_tbl := Some (lt\<lparr>lt_tail := tail\<rparr>)\<rparr>)))))"

definition HASH_ADD_KEYPTR_BYHASHVALUE_INORDER_p :: "(nat \<Rightarrow> bool) \<Rightarrow> nat \<Rightarrow> (nat \<Rightarrow> nat \<Rightarrow> int) \<Rightarrow> heap
    \<Rightarrow> links \<Rightarrow> ptr \<Rightarrow> size_t \<Rightarrow> byte32 \<Rightarrow> nat \<Rightarrow> fault + heap \<times> links" where
  "HASH_ADD_KEYPTR_BYHASHVALUE_INORDER_p can_alloc fuel cmp hp s keyptr keylen_in hashval add =
     bindr (deref hp add) (\<lambda>e.
     let hp = hp(add \<mapsto> e\<lparr>hh_hashv := hashval, hh_key := keyptr, hh_keylen := ucast keylen_in\<rparr>) in
     bindr (link_inorder_p can_alloc fuel cmp s add) (\<lambda>s.
     bindr (HASH_ADD_TO_TABLE_p can_alloc fuel hp hashval add s) (\<lambda>s. Inr (hp, s))))"

definition HASH_ADD_KEYPTR_INORDER_p :: "(nat \<Rightarrow> bool) \<Rightarrow> nat \<Rightarrow> (nat \<Rightarrow> nat \<Rightarrow> int) \<Rightarrow> heap \<Rightarrow> links
    \<Rightarrow> ptr \<Rightarrow> size_t \<Rightarrow> nat \<Rightarrow> fault + heap \<times> links" where
  "HASH_ADD_KEYPTR_INORDER_p can_alloc fuel cmp hp s keyptr keylen_in add =
     bindr (HASH_VALUE keyptr (unat keylen_in)) (\<lambda>hashv.
     HASH_ADD_KEYPTR_BYHASHVALUE_INORDER_p can_alloc fuel cmp hp s keyptr keylen_in hashv add)"

subsection \<open>The same on lists\<close>

definition insert_in :: "(nat \<Rightarrow> nat \<Rightarrow> int) \<Rightarrow> nat \<Rightarrow> nat list \<Rightarrow> nat list" where
  "insert_in cmp a xs = takeWhile (\<lambda>x. cmp x a \<le> 0) xs @ a # dropWhile (\<lambda>x. cmp x a \<le> 0) xs"

definition link_inorder :: "(nat \<Rightarrow> bool) \<Rightarrow> (nat \<Rightarrow> nat \<Rightarrow> int) \<Rightarrow> ut_table option \<Rightarrow> nat \<Rightarrow> fault + ut_table" where
  "link_inorder can_alloc cmp head a =
     (case head of None \<Rightarrow> HASH_MAKE_TABLE can_alloc a
      | Some t \<Rightarrow> Inr (t\<lparr>tbl_order := insert_in cmp a (tbl_order t)\<rparr>))"

lemma mset_insert_in: "mset (insert_in cmp a xs) = add_mset a (mset xs)"
proof -
  have "mset xs = mset (takeWhile (\<lambda>x. cmp x a \<le> 0) xs) + mset (dropWhile (\<lambda>x. cmp x a \<le> 0) xs)"
    by (metis mset_append takeWhile_dropWhile_id)
  then show ?thesis by (simp add: insert_in_def)
qed

lemma set_insert_in: "set (insert_in cmp a xs) = insert a (set xs)"
  using mset_eq_setD [of "insert_in cmp a xs" "a # xs"] mset_insert_in by simp

lemma akbi_finds:
  assumes "dseg cs p xs None" "xs \<noteq> []" "length xs \<le> fuel"
  shows "HASH_AKBI_INNER_LOOP fuel cmp cs (hd xs) a = Inr (first_of (dropWhile (\<lambda>x. cmp x a \<le> 0) xs) None)"
  using assms
proof (induction xs arbitrary: p fuel)
  case (Cons x xs)
  then obtain f where f: "fuel = Suc f" by (cases fuel) auto
  show ?case
  proof (cases "xs = []")
    case True
    then show ?thesis using Cons.prems by (simp add: f)
  next
    case False
    then obtain y ys where xs: "xs = y # ys" by (cases xs) auto
    have "dseg cs (Some x) xs None" "length xs \<le> f" using Cons.prems f by simp_all
    from Cons.IH [OF this(1) False this(2)] Cons.prems show ?thesis by (simp add: f xs)
  qed
qed simp

lemma insert_links_ok:
  assumes "dseg cs None (xs @ b # ys) None" "distinct (xs @ b # ys)" "a \<notin> set (xs @ b # ys)" "cs a = Some c"
  obtains cs' where "insert_links a b cs = Inr (cs', xs = [])" "dseg cs' None (xs @ a # b # ys) None"
    "\<And>x. x \<notin> set (a # xs @ b # ys) \<Longrightarrow> cs' x = cs x"
proof -
  let ?cs = "cs(a \<mapsto> \<lparr>c_prev = last_of None xs, c_next = Some b\<rparr>)"
  have b: "cs b = Some \<lparr>c_prev = last_of None xs, c_next = first_of ys None\<rparr>" and ab: "a \<noteq> b"
    using assms(1,3) by auto
  have segs: "dseg ?cs None xs (Some b)" "dseg ?cs (Some b) ys None" using assms(1,3) by simp_all
  obtain cs1 where cs1: "(if last_of None xs \<noteq> None then put_next (last_of None xs) (Some a) ?cs else Inr ?cs) = Inr cs1"
    "dseg cs1 None xs (Some a)" "\<And>x. x \<notin> set xs \<Longrightarrow> cs1 x = ?cs x"
  proof (cases "xs = []")
    case True
    then show thesis using that [of ?cs] by simp
  next
    case False
    from put_next_last [OF segs(1) _ this, of "Some a"] assms(2) show thesis
      using that False by (auto simp: last_of_None)
  qed
  let ?cs2 = "cs1(b \<mapsto> \<lparr>c_prev = Some a, c_next = first_of ys None\<rparr>)"
  have b1: "cs1 b = Some \<lparr>c_prev = last_of None xs, c_next = first_of ys None\<rparr>"
    using b ab cs1(3) assms(2) by simp
  show thesis
  proof (rule that)
    have p: "put_next (Some a) (Some b) cs = Inr (cs(a \<mapsto> c\<lparr>c_next := Some b\<rparr>))"
      "cell_at (cs(a \<mapsto> c\<lparr>c_next := Some b\<rparr>)) (Some b) =
        Inr \<lparr>c_prev = last_of None xs, c_next = first_of ys None\<rparr>"
      "put_prev (Some a) (last_of None xs) (cs(a \<mapsto> c\<lparr>c_next := Some b\<rparr>)) = Inr ?cs"
      "put_prev (Some b) (Some a) cs1 = Inr ?cs2"
      using assms(4) b b1 ab by simp_all
    show "insert_links a b cs = Inr (?cs2, xs = [])"
      unfolding last_of_None [of xs, symmetric]
      by (simp only: insert_links_def p bindr_simps cell.simps cs1(1))
    have "cs1 x = ?cs x" if "x \<in> set ys" for x
      using that assms(2) by (intro cs1(3)) auto
    then have "dseg cs1 (Some b) ys None" using segs(2) dseg_frame [of ys cs1 ?cs] by blast
    moreover have "?cs2 a = Some \<lparr>c_prev = last_of None xs, c_next = Some b\<rparr>"
      using cs1(3) ab assms(3) by simp
    ultimately show "dseg ?cs2 None (xs @ a # b # ys) None"
      using cs1(2) assms(2) by simp
    show "?cs2 x = cs x" if "x \<notin> set (a # xs @ b # ys)" for x using that cs1(3) by simp
  qed
qed

lemma last_of_insert: "ys \<noteq> [] \<Longrightarrow> last_of None (xs @ a # ys) = last_of None (xs @ ys)"
  by (simp add: last_of_def)

lemma link_inorder_refines:
  assumes rel: "links_rel head s" and a: "a \<notin> set (order_of head)" "live s a"
    and fuel: "length (order_of head) \<le> fuel"
  shows "simr (\<lambda>t s'. linked_after s (a # order_of head) t s' \<and> elems_of (tbl_buckets t) = elems_in head \<and>
      l_chn s' = l_chn s)
    (link_inorder can_alloc cmp head a) (link_inorder_p can_alloc fuel cmp s a)"
proof (cases head)
  case None
  then have "l_head s = None" using rel by (simp add: links_rel_def)
  then have "link_inorder_p can_alloc fuel cmp s a = link_element_p can_alloc s a"
    "link_inorder can_alloc cmp head a = link_element can_alloc head a"
    by (simp_all add: link_inorder_p_def link_element_p_def link_inorder_def link_element_def None)
  then show ?thesis using link_element_refines [OF rel a] by simp
next
  case (Some t)
  let ?xs = "tbl_order t" and ?P = "\<lambda>x. cmp x a \<le> 0"
  obtain c where c: "l_ord s a = Some c" using a(2) by (auto simp: live_def)
  obtain lt where lt: "tbl_of s = Inr lt" "tbl_rel (l_chn s) t lt"
    using rel unfolding Some by (rule links_relE)
  have ord: "dseg (l_ord s) None ?xs None" "distinct ?xs" "?xs \<noteq> []" "a \<notin> set ?xs" "l_head s = first_of ?xs None"
    using rel a Some by (simp_all add: links_rel_def)
  then have h: "l_head s = Some (hd ?xs)" by (cases ?xs) simp_all
  have tail: "lt_tail lt = last_of None ?xs" using lt(2) by (simp add: tbl_rel_def)
  have loop: "HASH_AKBI_INNER_LOOP fuel cmp (l_ord s) (hd ?xs) a = Inr (first_of (dropWhile ?P ?xs) None)"
    by (rule akbi_finds [OF ord(1,3)]) (use fuel Some in simp)
  have split: "?xs = takeWhile ?P ?xs @ dropWhile ?P ?xs" by simp
  show ?thesis
  proof (cases "dropWhile ?P ?xs")
    case Nil
    then have all: "takeWhile ?P ?xs = ?xs" using split by simp
    have "link_inorder_p can_alloc fuel cmp s a = link_element_p can_alloc s a"
      using h lt(1) loop Nil by (simp add: link_inorder_p_def link_element_p_def)
    moreover have "link_inorder can_alloc cmp head a = link_element can_alloc head a"
      using all Nil by (simp add: link_inorder_def link_element_def Some HASH_APPEND_LIST_def insert_in_def)
    ultimately show ?thesis using link_element_refines [OF rel a] by simp
  next
    case (Cons b ys)
    let ?us = "takeWhile ?P ?xs"
    have e: "?xs = ?us @ b # ys" using split Cons by simp
    obtain cs where cs: "insert_links a b (l_ord s) = Inr (cs, ?us = [])" "dseg cs None (?us @ a # b # ys) None"
      "\<And>x. x \<notin> set (a # ?us @ b # ys) \<Longrightarrow> cs x = l_ord s x"
      by (rule insert_links_ok [of "l_ord s" ?us b ys a c]) (use ord e c in \<open>auto simp del: takeWhile_eq_Nil_iff\<close>)
    let ?ord = "?us @ a # b # ys" and ?t = "t\<lparr>tbl_order := insert_in cmp a ?xs\<rparr>"
    let ?s = "s\<lparr>l_ord := cs, l_head := (if ?us = [] then Some a else l_head s)\<rparr>"
    have o: "insert_in cmp a ?xs = ?ord" using Cons by (simp add: insert_in_def)
    have "last_of None ?ord = last_of None ?xs" using last_of_insert [of "b # ys" ?us a] e by simp
    then have "tbl_rel (l_chn s) ?t lt" using lt(2) o by (simp add: tbl_rel_def)
    moreover have "l_head ?s = first_of ?ord None"
      using h e by (cases ?us) (auto simp: first_of_def)
    moreover have "distinct ?ord" using ord(2,4) e by (metis distinct.simps(2) mset_eq_imp_distinct_iff mset_insert_in mset.simps(2) o)
    moreover have "l_tbl s = Some lt" using lt(1) by (auto simp: tbl_of_def bindr_eq_Inr split: option.splits)
    ultimately have "links_rel (Some ?t) ?s" using cs(2) o by (simp add: links_rel_def)
    moreover have "cs x = l_ord s x" if "x \<notin> set (a # ?xs)" for x
      using that cs(3) e by (metis list.set_intros(2) set_ConsD list.set_intros(1))
    ultimately have "linked_after s (a # ?xs) ?t ?s" by (simp add: linked_after_def)
    moreover have "link_inorder_p can_alloc fuel cmp s a = Inr ?s"
      using h lt(1) loop Cons cs(1) by (simp add: link_inorder_p_def)
    ultimately show ?thesis by (simp add: link_inorder_def Some elems_in_def)
  qed
qed

text \<open>The insertion on lists.\<close>

definition HASH_ADD_KEYPTR_INORDER :: "(nat \<Rightarrow> bool) \<Rightarrow> (nat \<Rightarrow> nat \<Rightarrow> int) \<Rightarrow> heap \<Rightarrow> ut_table option
    \<Rightarrow> ptr \<Rightarrow> size_t \<Rightarrow> nat \<Rightarrow> fault + heap \<times> ut_table" where
  "HASH_ADD_KEYPTR_INORDER can_alloc cmp hp head keyptr keylen_in add =
     bindr (HASH_VALUE keyptr (unat keylen_in)) (\<lambda>hashv.
     bindr (deref hp add) (\<lambda>e.
     let hp = hp(add \<mapsto> e\<lparr>hh_hashv := hashv, hh_key := keyptr, hh_keylen := ucast keylen_in\<rparr>) in
     bindr (link_inorder can_alloc cmp head add) (\<lambda>tbl.
     bindr (HASH_ADD_TO_TABLE can_alloc hp hashv add tbl) (\<lambda>tbl. Inr (hp, tbl)))))"

lemma inorder_refines:
  assumes rel: "links_rel head s" and ok: "head_ok hp head" and a: "a \<notin> set (order_of head)" "live s a"
    and fuel: "length (order_of head) < fuel"
  shows "simr (\<lambda>(hp1, t) (hp2, s'). hp1 = hp2 \<and> linked_after s (a # order_of head) t s')
    (HASH_ADD_KEYPTR_INORDER can_alloc cmp hp head p n a)
    (HASH_ADD_KEYPTR_INORDER_p can_alloc fuel cmp hp s p n a)"
  unfolding HASH_ADD_KEYPTR_INORDER_def HASH_ADD_KEYPTR_INORDER_p_def
    HASH_ADD_KEYPTR_BYHASHVALUE_INORDER_p_def [abs_def] Let_def
  by (intro simr_same simr_with bucketed_refines [OF ok a fuel link_inorder_refines [OF rel a less_imp_le [OF fuel]]])

lemma linked_ok_permute:
  assumes "linked_ok hp a t" "mset ys = mset (tbl_order t)"
  shows "linked_ok hp a (t\<lparr>tbl_order := ys\<rparr>)"
proof -
  have "set ys = set (tbl_order t)" "length ys = length (tbl_order t)" "distinct ys = distinct (tbl_order t)"
    using assms(2) mset_eq_setD mset_eq_length mset_eq_imp_distinct_iff by blast+
  then show ?thesis using assms by (simp add: linked_ok_def)
qed

lemma link_inorder_via:
  assumes "link_inorder can_alloc cmp head a = Inr t"
  obtains t0 where "link_element can_alloc head a = Inr t0" "t = t0\<lparr>tbl_order := insert_in cmp a (order_of head)\<rparr>"
    "tbl_order t0 = order_of head @ [a]"
proof (cases head)
  case None
  then have "link_element can_alloc head a = Inr t" "tbl_order t = [a]"
    using assms by (auto simp: link_inorder_def link_element_def HASH_MAKE_TABLE_def split: if_splits)
  then show thesis using None by (intro that) (simp_all add: insert_in_def)
next
  case (Some u)
  then show thesis
    using assms that [of "u\<lparr>tbl_order := tbl_order u @ [a]\<rparr>"]
    by (simp add: link_inorder_def link_element_def HASH_APPEND_LIST_def)
qed

lemma HASH_ADD_KEYPTR_INORDER_ok:
  assumes ok: "head_ok hp head" and mem: "memory_bound can_alloc" and e: "hp a = Some e"
    and fresh: "a \<notin> set (order_of head)" and k: "read_bytes p (unat n) = Inr k" and n: "unat n < 2 ^ 32"
    and new: "\<forall>b\<in>set (order_of head). key_of hp b \<noteq> k"
    and hp': "hp' = hp(a \<mapsto> e\<lparr>hh_hashv := HASH_JEN k, hh_key := p, hh_keylen := ucast n\<rparr>)"
  shows "HASH_ADD_KEYPTR_INORDER can_alloc cmp hp head p n a = Inl (ProgramExit (-1)) \<or>
    (\<exists>t. HASH_ADD_KEYPTR_INORDER can_alloc cmp hp head p n a = Inr (hp', t) \<and> table_ok hp' t \<and>
       tbl_order t = insert_in cmp a (order_of head))"
proof -
  have len: "unat (ucast n :: byte32) = unat n"
    using n by (simp add: unsigned_ucast_eq take_bit_nat_eq_self)
  have key: "key_of hp' a = k" and h: "handle_ok hp' a"
    by (simp_all add: hp' key_of_def handle_ok_def len k)
  have other: "key_of hp' b = key_of hp b" "handle_ok hp' b = handle_ok hp b"
    if "b \<in> set (order_of head)" for b
    using that fresh by (auto simp: hp' intro!: handle_upd_other)
  have eq: "HASH_ADD_KEYPTR_INORDER can_alloc cmp hp head p n a =
    bindr (link_inorder can_alloc cmp head a)
      (\<lambda>t. bindr (HASH_ADD_TO_TABLE can_alloc hp' (HASH_JEN (key_of hp' a)) a t) (\<lambda>t. Inr (hp', t)))"
    unfolding key by (simp add: HASH_ADD_KEYPTR_INORDER_def HASH_VALUE_def k deref_def e Let_def hp')
  show ?thesis
  proof (cases "link_inorder can_alloc cmp head a")
    case (Inl f)
    then have "f = ProgramExit (-1)"
      by (auto simp: link_inorder_def HASH_MAKE_TABLE_def split: option.splits if_splits)
    then show ?thesis using Inl by (simp add: eq)
  next
    case (Inr t)
    then obtain t0 where t0: "link_element can_alloc head a = Inr t0"
      "t = t0\<lparr>tbl_order := insert_in cmp a (order_of head)\<rparr>" "tbl_order t0 = order_of head @ [a]"
      by (rule link_inorder_via)
    have "linked_ok hp' a t0"
      by (rule link_element_ok [OF ok fresh h _ other t0(1)]) (simp_all add: key new)
    then have "linked_ok hp' a t" unfolding t0(2) by (rule linked_ok_permute) (simp add: t0(3) mset_insert_in)
    from HASH_ADD_TO_TABLE_ok [OF this mem] show ?thesis using Inr t0(2) by (auto simp: eq)
  qed
qed

lemma insert_in_sorted:
  assumes "total_preorder (\<lambda>a b. cmp a b \<le> (0 :: int))" "sorted_wrt (\<lambda>a b. cmp a b \<le> 0) xs"
  shows "sorted_wrt (\<lambda>a b. cmp a b \<le> 0) (insert_in cmp a xs)"
  using assms(2)
proof (induction xs)
  case Nil
  then show ?case by (simp add: insert_in_def)
next
  case (Cons x xs)
  show ?case
  proof (cases "cmp x a \<le> 0")
    case True
    then have "insert_in cmp a (x # xs) = x # insert_in cmp a xs" by (simp add: insert_in_def)
    with Cons True show ?thesis by (simp add: set_insert_in)
  next
    case False
    then have "cmp a x \<le> 0" using total_preorderD(1) [OF assms(1)] by blast
    with Cons.prems have "\<forall>y\<in>set (x # xs). cmp a y \<le> 0"
      using total_preorderD(2) [OF assms(1), of a x] by auto
    with False Cons.prems show ?thesis by (simp add: insert_in_def)
  qed
qed

text \<open>C32: insertion in order keeps a sorted table sorted: the element is linked behind those that are
  not greater, in both lists of pointers, and the table stays well formed; or the allocator
  refuses and the program ends.\<close>

theorem inorder_keeps_sorted:
  assumes inv: "in_step hp head s" and mem: "memory_bound can_alloc" and op: "legal_op hp head (Insert p n a)"
    and fuel: "length (order_of head) < fuel" and R: "total_preorder (\<lambda>a b. cmp a b \<le> 0)"
    and sorted: "sorted_wrt (\<lambda>a b. cmp a b \<le> 0) (order_of head)"
  shows "HASH_ADD_KEYPTR_INORDER_p can_alloc fuel cmp hp s p n a = Inl (ProgramExit (-1)) \<or>
    (\<exists>hp' t s'. HASH_ADD_KEYPTR_INORDER_p can_alloc fuel cmp hp s p n a = Inr (hp', s') \<and>
       in_step hp' (Some t) s' \<and> sorted_wrt (\<lambda>a b. cmp a b \<le> 0) (tbl_order t) \<and>
       mset (tbl_order t) = add_mset a (mset (order_of head)))"
proof -
  have rel: "links_rel head s" and ok: "head_ok hp head" using inv by (simp_all add: in_step_def)
  obtain k where k: "read_bytes p (unat n) = Inr k" "\<forall>b\<in>set (order_of head). key_of hp b \<noteq> k"
    using op by (auto split: sum.splits)
  obtain e where e: "hp a = Some e" "a \<notin> set (order_of head)" "unat n < 2 ^ 32" using op by auto
  define hp' where "hp' = hp(a \<mapsto> e\<lparr>hh_hashv := HASH_JEN k, hh_key := p, hh_keylen := ucast n\<rparr>)"
  have "live s a" using inv e(1) by (simp add: in_step_def)
  note sim = inorder_refines [OF rel ok e(2) this fuel, of can_alloc cmp p n]
  from HASH_ADD_KEYPTR_INORDER_ok [OF ok mem e(1,2) k(1) e(3) k(2) hp'_def, of cmp] show ?thesis
  proof
    assume "HASH_ADD_KEYPTR_INORDER can_alloc cmp hp head p n a = Inl (ProgramExit (-1))"
    then show ?thesis using sim by simp
  next
    assume "\<exists>t. HASH_ADD_KEYPTR_INORDER can_alloc cmp hp head p n a = Inr (hp', t) \<and> table_ok hp' t \<and>
      tbl_order t = insert_in cmp a (order_of head)"
    then obtain t s' where t: "table_ok hp' t" "tbl_order t = insert_in cmp a (order_of head)"
      "HASH_ADD_KEYPTR_INORDER_p can_alloc fuel cmp hp s p n a = Inr (hp', s')"
      "linked_after s (a # order_of head) t s'" using sim by auto
    have "in_step hp' (Some t) s'"
      by (rule in_step_inserted [OF inv t(4,1)])
        (use e(1) in \<open>simp_all add: t(2) set_insert_in hp'_def split: if_splits\<close>)
    then show ?thesis using t(2,3) insert_in_sorted [OF R sorted, of a] mset_insert_in by auto
  qed
qed

theorem inorder_keeps_sorted_witness:
  "HASH_ADD_KEYPTR_INORDER_p (\<lambda>n. n < 2 ^ 36) 3 (\<lambda>a b. int b - int a) pair_heap pair_links (Obj [3]) 1 3 =
      Inl (ProgramExit (-1)) \<or>
    (\<exists>hp' t s'. HASH_ADD_KEYPTR_INORDER_p (\<lambda>n. n < 2 ^ 36) 3 (\<lambda>a b. int b - int a) pair_heap pair_links
         (Obj [3]) 1 3 = Inr (hp', s') \<and>
       in_step hp' (Some t) s' \<and> sorted_wrt (\<lambda>a b. int b - int a \<le> 0) (tbl_order t) \<and>
       mset (tbl_order t) = {#1, 2, 3#})"
proof -
  have "total_preorder (\<lambda>a b. int b - int a \<le> 0)" by (auto simp: total_preorder_def)
  from inorder_keeps_sorted [OF pair_in_step pair_facts(2,3) _ this, of 3] show ?thesis
    by (simp add: pair_facts(1) add_mset_commute)
qed

section \<open>Replacement\<close>

definition HASH_REPLACE_BYHASHVALUE_p :: "(nat \<Rightarrow> bool) \<Rightarrow> nat \<Rightarrow> heap \<Rightarrow> links \<Rightarrow> ptr \<Rightarrow> byte32 \<Rightarrow> byte32
    \<Rightarrow> nat \<Rightarrow> fault + nat option \<times> heap \<times> links" where
  "HASH_REPLACE_BYHASHVALUE_p can_alloc fuel hp s keyptr keylen_in hashval add =
     bindr (HASH_FIND_BYHASHVALUE_p fuel hp s keyptr keylen_in hashval) (\<lambda>replaced.
     bindr (if replaced \<noteq> None then HASH_DELETE_p hp s replaced else Inr s) (\<lambda>s.
     bindr (HASH_ADD_KEYPTR_BYHASHVALUE_p can_alloc fuel hp s keyptr (ucast keylen_in) hashval add)
       (\<lambda>(hp, s). Inr (replaced, hp, s))))"

definition HASH_REPLACE_p :: "(nat \<Rightarrow> bool) \<Rightarrow> nat \<Rightarrow> heap \<Rightarrow> links \<Rightarrow> ptr \<Rightarrow> byte32 \<Rightarrow> nat
    \<Rightarrow> fault + nat option \<times> heap \<times> links" where
  "HASH_REPLACE_p can_alloc fuel hp s keyptr keylen_in add =
     bindr (HASH_VALUE keyptr (unat keylen_in)) (\<lambda>hashv.
     HASH_REPLACE_BYHASHVALUE_p can_alloc fuel hp s keyptr keylen_in hashv add)"

definition HASH_REPLACE_BYHASHVALUE_INORDER_p :: "(nat \<Rightarrow> bool) \<Rightarrow> nat \<Rightarrow> (nat \<Rightarrow> nat \<Rightarrow> int) \<Rightarrow> heap \<Rightarrow> links
    \<Rightarrow> ptr \<Rightarrow> byte32 \<Rightarrow> byte32 \<Rightarrow> nat \<Rightarrow> fault + nat option \<times> heap \<times> links" where
  "HASH_REPLACE_BYHASHVALUE_INORDER_p can_alloc fuel cmp hp s keyptr keylen_in hashval add =
     bindr (HASH_FIND_BYHASHVALUE_p fuel hp s keyptr keylen_in hashval) (\<lambda>replaced.
     bindr (if replaced \<noteq> None then HASH_DELETE_p hp s replaced else Inr s) (\<lambda>s.
     bindr (HASH_ADD_KEYPTR_BYHASHVALUE_INORDER_p can_alloc fuel cmp hp s keyptr (ucast keylen_in) hashval add)
       (\<lambda>(hp, s). Inr (replaced, hp, s))))"

definition HASH_REPLACE_INORDER_p :: "(nat \<Rightarrow> bool) \<Rightarrow> nat \<Rightarrow> (nat \<Rightarrow> nat \<Rightarrow> int) \<Rightarrow> heap \<Rightarrow> links
    \<Rightarrow> ptr \<Rightarrow> byte32 \<Rightarrow> nat \<Rightarrow> fault + nat option \<times> heap \<times> links" where
  "HASH_REPLACE_INORDER_p can_alloc fuel cmp hp s keyptr keylen_in add =
     bindr (HASH_VALUE keyptr (unat keylen_in)) (\<lambda>hashv.
     HASH_REPLACE_BYHASHVALUE_INORDER_p can_alloc fuel cmp hp s keyptr keylen_in hashv add)"

lemma unat_widen: "unat (ucast (n :: byte32) :: size_t) = unat n"
proof -
  have "unat n < 2 ^ 32" using unsigned_less [of n] by simp
  then have "unat n < 2 ^ 64" by simp
  then show ?thesis by (simp add: unsigned_ucast_eq take_bit_nat_eq_self)
qed

lemma ucast_narrow: "ucast (ucast (n :: byte32) :: size_t) = n"
  by transfer simp

text \<open>With the hash at hand the two halves are lookup and insertion.\<close>

lemma by_hashvalue:
  assumes "read_bytes p (unat n) = Inr k"
  shows "HASH_FIND_BYHASHVALUE_p fuel hp s p n (HASH_JEN k) = HASH_FIND_p fuel hp s p n"
    "HASH_ADD_KEYPTR_BYHASHVALUE_p can_alloc fuel hp s p (ucast n) (HASH_JEN k) a =
     HASH_ADD_KEYPTR_p can_alloc fuel hp s p (ucast n) a"
  using assms
  by (simp_all add: HASH_FIND_p_def HASH_FIND_BYHASHVALUE_p_def HASH_ADD_KEYPTR_p_def HASH_VALUE_def
      unat_widen)

lemma find_step:
  assumes "in_step hp head s" "read_bytes p (unat n) = Inr k" "length (order_of head) \<le> fuel"
  shows "HASH_FIND_p fuel hp s p n = Inr (find (\<lambda>a. key_of hp a = k) (order_of head))"
  using find_refines [of head s hp fuel p n] HASH_FIND_head [of hp head p n k] assms
  by (simp add: in_step_def)

lemma find_snoc: "\<forall>x\<in>set xs. \<not> P x \<Longrightarrow> P a \<Longrightarrow> find P (xs @ [a]) = Some a"
  by (induction xs) simp_all

lemma find_replaced:
  assumes "\<And>b. b \<in> set xs \<Longrightarrow> f' b = f b" "f' a = k"
  shows "find (\<lambda>b. f' b = k') (filter (\<lambda>b. f b \<noteq> k) xs @ [a]) = (if k' = k then Some a else find (\<lambda>b. f b = k') xs)"
  using assms by (induction xs) auto

lemma remove_found:
  assumes "distinct xs" "inj_on f (set xs)" "find (\<lambda>a. f a = k) xs = Some b"
  shows "remove1 b xs = filter (\<lambda>a. f a \<noteq> k) xs"
proof -
  have b: "b \<in> set xs" "f b = k" using assms(3) by (auto dest: find_SomeD)
  have "remove1 b xs = filter (\<lambda>a. a \<noteq> b) xs"
    using assms(1) by (simp add: distinct_remove1_removeAll removeAll_filter_not_eq eq_commute)
  also have "\<dots> = filter (\<lambda>a. f a \<noteq> k) xs"
    by (rule filter_cong) (use b assms(2) in \<open>auto dest: inj_onD\<close>)
  finally show ?thesis .
qed

text \<open>
  Replacement: what was stored under the key is returned and no longer in the table, the key is
  found at the new element, which comes last in the order, and every other key where it was.\<close>

theorem replace_last_wins:
  assumes inv: "in_step hp head s" and mem: "memory_bound can_alloc" and e: "hp a \<noteq> None"
    and fresh: "a \<notin> set (order_of head)" and k: "read_bytes p (unat n) = Inr k"
    and fuel: "length (order_of head) < fuel"
  shows "HASH_REPLACE_p can_alloc fuel hp s p n a = Inl (ProgramExit (-1)) \<or>
    (\<exists>hp' t s'. HASH_REPLACE_p can_alloc fuel hp s p n a =
         Inr (find (\<lambda>b. key_of hp b = k) (order_of head), hp', s') \<and>
       in_step hp' (Some t) s' \<and> tbl_order t = filter (\<lambda>b. key_of hp b \<noteq> k) (order_of head) @ [a] \<and>
       (\<forall>q m k'. read_bytes q (unat m) = Inr k' \<longrightarrow> HASH_FIND_p fuel hp' s' q m =
          Inr (if k' = k then Some a else find (\<lambda>b. key_of hp b = k') (order_of head))))"
proof -
  let ?xs = "order_of head" and ?found = "find (\<lambda>b. key_of hp b = k) (order_of head)"
  have tok: "distinct ?xs" "inj_on (key_of hp) (set ?xs)"
    using ut.tok_distinct inv by (auto simp: in_step_def)
  obtain head1 s1 where del: "(if ?found \<noteq> None then HASH_DELETE_p hp s ?found else Inr s) = Inr s1"
    "in_step hp head1 s1" "order_of head1 = filter (\<lambda>b. key_of hp b \<noteq> k) ?xs"
  proof (cases ?found)
    case None
    then show thesis using that [of s head] inv by (auto simp: find_None_iff intro!: filter_True [symmetric])
  next
    case (Some b)
    then have "b \<in> set ?xs" by (auto dest: find_SomeD)
    then show thesis
      using that Some remove_found [OF tok Some] by (auto elim!: delete_step [OF inv])
  qed
  have k': "read_bytes p (unat (ucast n :: size_t)) = Inr k"
    using k by (simp add: unat_widen)
  have len: "length (order_of head1) \<le> length ?xs" using del(3) by simp
  have op: "legal_op hp head1 (Insert p (ucast n) a)"
    using e fresh del(3) k' unsigned_less [of n] by (auto simp: unat_widen)
  have run: "HASH_REPLACE_p can_alloc fuel hp s p n a =
    bindr (HASH_ADD_KEYPTR_p can_alloc fuel hp s1 p (ucast n) a) (\<lambda>(hp, s). Inr (?found, hp, s))"
    using k del(1) find_step [OF inv k] fuel
    by (simp only: HASH_REPLACE_p_def HASH_REPLACE_BYHASHVALUE_p_def HASH_VALUE_def by_hashvalue [OF k]
        bindr_simps less_imp_le)
  have "length (order_of head1) < fuel" using len fuel by simp
  then show ?thesis
  proof (rule insert_step [OF del(2) mem op])
    assume "HASH_ADD_KEYPTR_p can_alloc fuel hp s1 p (ucast n) a = Inl (ProgramExit (-1))"
    then show ?thesis by (simp add: run)
  next
    fix el k2 hp' t s'
    assume new: "hp a = Some el" "read_bytes p (unat (ucast n :: size_t)) = Inr k2"
      "hp' = hp(a \<mapsto> el\<lparr>hh_hashv := HASH_JEN k2, hh_key := p, hh_keylen := ucast (ucast n :: size_t)\<rparr>)"
      "HASH_ADD_KEYPTR_p can_alloc fuel hp s1 p (ucast n) a = Inr (hp', s')"
      "in_step hp' (Some t) s'" "tbl_order t = order_of head1 @ [a]"
    have "key_of hp' b = key_of hp b" if "b \<in> set ?xs" for b
      using that fresh new(3) by (auto intro: handle_upd_other)
    moreover have "key_of hp' a = k"
      using k by (simp add: new(3) key_of_def ucast_narrow)
    ultimately have "find (\<lambda>b. key_of hp' b = k') (tbl_order t)
        = (if k' = k then Some a else find (\<lambda>b. key_of hp b = k') ?xs)" for k'
      unfolding new(6) del(3) by (intro find_replaced) auto
    moreover have "length (tbl_order t) \<le> fuel" using new(6) len fuel by simp
    ultimately have "HASH_FIND_p fuel hp' s' q m =
        Inr (if k' = k then Some a else find (\<lambda>b. key_of hp b = k') ?xs)" if "read_bytes q (unat m) = Inr k'" for q m k'
      using find_step [OF new(5) that] by simp
    then show ?thesis using new(4,5,6) del(3) by (auto simp: run)
  qed
qed

theorem replace_last_wins_witness:
  "HASH_REPLACE_p (\<lambda>n. n < 2 ^ 36) 3 pair_heap pair_links (Obj [1]) 1 3 = Inl (ProgramExit (-1)) \<or>
    (\<exists>hp' t s'. HASH_REPLACE_p (\<lambda>n. n < 2 ^ 36) 3 pair_heap pair_links (Obj [1]) 1 3 = Inr (Some 1, hp', s') \<and>
       in_step hp' (Some t) s' \<and> tbl_order t = [2, 3] \<and>
       HASH_FIND_p 3 hp' s' (Obj [1]) 1 = Inr (Some 3))"
proof -
  let ?r = "HASH_REPLACE_p (\<lambda>n. n < 2 ^ 36) 3 pair_heap pair_links (Obj [1]) 1 3"
  have k: "read_bytes (Obj [1]) (unat (1 :: byte32)) = Inr [1]" by simp
  have pair: "find (\<lambda>b. key_of pair_heap b = [1]) (order_of (Some pair_table)) = Some 1"
    "filter (\<lambda>b. key_of pair_heap b \<noteq> [1]) (order_of (Some pair_table)) = [2]"
    by (simp_all add: pair_facts(1) key_of_def pair_heap_def)
  have new: "pair_heap 3 \<noteq> None" "3 \<notin> set (order_of (Some pair_table))" "length (order_of (Some pair_table)) < 3"
    by (simp_all add: pair_heap_def pair_facts(1))
  from replace_last_wins [OF pair_in_step pair_facts(2) new(1,2) k new(3)]
  consider "?r = Inl (ProgramExit (-1))"
    | hp' t s' where "?r = Inr (Some 1, hp', s')" "in_step hp' (Some t) s'" "tbl_order t = [2] @ [3]"
        "\<forall>q m k'. read_bytes q (unat m) = Inr k' \<longrightarrow> HASH_FIND_p 3 hp' s' q m =
           Inr (if k' = [1] then Some 3 else find (\<lambda>b. key_of pair_heap b = k') (order_of (Some pair_table)))"
    unfolding pair by blast
  then show ?thesis
  proof cases
    case 2
    have "HASH_FIND_p 3 hp' s' (Obj [1]) 1 = Inr (Some 3)"
      using 2(4) [rule_format, OF k] by simp
    with 2(1-3) show ?thesis by (intro disjI2) auto
  qed blast
qed

section \<open>Clearing and iterating\<close>

text \<open>\<^verbatim>\<open>HASH_CLEAR\<close> frees the buckets and the table; the elements stay as they are.\<close>

definition HASH_CLEAR_p :: "links \<Rightarrow> fault + links" where
  "HASH_CLEAR_p s =
     (if l_head s \<noteq> None then bindr (tbl_of s) (\<lambda>_. Inr (s\<lparr>l_tbl := None, l_head := None\<rparr>)) else Inr s)"

text \<open>\<^verbatim>\<open>HASH_OVERHEAD\<close>: 56 bytes for a handle, 16 for a bucket, 64 for the table.\<close>

definition HASH_OVERHEAD_p :: "links \<Rightarrow> fault + size_t" where
  "HASH_OVERHEAD_p s =
     (if l_head s \<noteq> None
      then bindr (tbl_of s) (\<lambda>lt. Inr (ucast (lt_num_items lt) * 56 + ucast (lt_num_buckets lt) * 16 + 64))
      else Inr 0)"

text \<open>\<^verbatim>\<open>HASH_ITER\<close>: \<open>tmp\<close> is read before the body runs. The body is a function of the state and
  the element, on the links and on what else it works on.\<close>

definition next_of :: "links \<Rightarrow> nat option \<Rightarrow> fault + nat option" where
  "next_of s p = (if p = None then Inr None else bindr (cell_at (l_ord s) p) (\<lambda>c. Inr (c_next c)))"

fun iter_loop :: "nat \<Rightarrow> (nat \<Rightarrow> links \<times> 'v \<Rightarrow> fault + links \<times> 'v) \<Rightarrow> nat option \<Rightarrow> nat option \<Rightarrow> links \<times> 'v
    \<Rightarrow> fault + links \<times> 'v" where
  "iter_loop fuel body None tmp st = Inr st"
| "iter_loop 0 body (Some el) tmp st = Inl OutOfFuel"
| "iter_loop (Suc fuel) body (Some el) tmp st =
     bindr (body el st) (\<lambda>st.
     bindr (next_of (fst st) tmp) (\<lambda>tmp'. iter_loop fuel body tmp tmp' st))"

definition HASH_ITER_p :: "nat \<Rightarrow> (nat \<Rightarrow> links \<times> 'v \<Rightarrow> fault + links \<times> 'v) \<Rightarrow> links \<times> 'v \<Rightarrow> fault + links \<times> 'v" where
  "HASH_ITER_p fuel body st =
     bindr (next_of (fst st) (l_head (fst st))) (\<lambda>tmp. iter_loop fuel body (l_head (fst st)) tmp st)"

text \<open>The body that deletes the element and notes that it has seen it.\<close>

definition delete_body :: "heap \<Rightarrow> nat \<Rightarrow> links \<times> nat list \<Rightarrow> fault + links \<times> nat list" where
  "delete_body hp el = (\<lambda>(s, seen). bindr (HASH_DELETE_p hp s (Some el)) (\<lambda>s. Inr (s, seen @ [el])))"

lemma in_step_next:
  assumes "in_step hp head s" "order_of head = a # as"
  shows "l_head s = Some a" "next_of s (Some a) = Inr (first_of as None)"
proof -
  obtain t where t: "head = Some t" using assms(2) by (cases head) auto
  have "dseg (l_ord s) None (a # as) None" "l_head s = first_of (a # as) None"
    using assms t by (auto simp: in_step_def links_rel_def)
  then show "l_head s = Some a" "next_of s (Some a) = Inr (first_of as None)"
    by (simp_all add: next_of_def)
qed

lemma iter_deletes:
  assumes "in_step hp head s" "order_of head = a # as" "length as < fuel"
  shows "\<exists>s'. iter_loop fuel (delete_body hp) (Some a) (first_of as None) (s, seen) = Inr (s', seen @ a # as) \<and>
    in_step hp None s'"
  using assms
proof (induction as arbitrary: head s a fuel seen)
  case Nil
  then obtain f where f: "fuel = Suc f" by (cases fuel) auto
  have "a \<in> set (order_of head)" using Nil.prems(2) by simp
  from delete_step [OF Nil.prems(1) this] obtain head' s' where
    "HASH_DELETE_p hp s (Some a) = Inr s'" "in_step hp head' s'" "order_of head' = []"
    using Nil.prems(2) by (metis remove1.simps(2))
  moreover from this have "head' = None"
    by (cases head') (auto simp: in_step_def links_rel_def)
  ultimately show ?case by (simp add: f delete_body_def next_of_def)
next
  case (Cons b bs)
  then obtain f where f: "fuel = Suc f" "length bs < f" by (cases fuel) auto
  have "a \<in> set (order_of head)" using Cons.prems(2) by simp
  from delete_step [OF Cons.prems(1) this] obtain head' s' where
    del: "HASH_DELETE_p hp s (Some a) = Inr s'" "in_step hp head' s'" "order_of head' = b # bs"
    using Cons.prems(2) by (metis remove1.simps(2))
  have "next_of s' (Some b) = Inr (first_of bs None)" by (rule in_step_next(2) [OF del(2,3)])
  with Cons.IH [OF del(2,3) f(2), of "seen @ [a]"] del(1) show ?case
    by (simp add: f delete_body_def)
qed



end
