(* ===== verification/Uthash_Select.thy ===== *)
theory Uthash_Select
  imports Uthash_Order
begin

text \<open>
  \<^verbatim>\<open>HASH_SELECT\<close> of \<^verbatim>\<open>src/src/libraries/uthash.h\<close>: the elements of one table that satisfy a
  condition are also linked into a second one, through a second handle. The handles of the
  destination have cells and a heap of their own; that heap holds the \<^verbatim>\<open>key\<close>, \<^verbatim>\<open>keylen\<close> and
  \<^verbatim>\<open>hashv\<close> of the second handle. The macro leaves \<^verbatim>\<open>tail\<close> of the destination at the first
  element, so that the next insertion cuts off the others.
\<close>

section \<open>The macro\<close>

definition select_element :: "(nat \<Rightarrow> bool) \<Rightarrow> nat \<Rightarrow> heap \<Rightarrow> nat \<Rightarrow> heap \<times> links \<times> nat option
    \<Rightarrow> fault + heap \<times> links \<times> nat option" where
  "select_element can_alloc fuel src_hp elt = (\<lambda>(hp, dst, last_elt).
     bindr (deref src_hp elt) (\<lambda>e.
     bindr (deref hp elt) (\<lambda>h.
     let hp = hp(elt \<mapsto> h\<lparr>hh_key := hh_key e, hh_keylen := hh_keylen e, hh_hashv := hh_hashv e\<rparr>) in
     bindr (put_prev (Some elt) last_elt (l_ord dst)) (\<lambda>cs.
     bindr (put_next (Some elt) None cs) (\<lambda>cs.
     bindr (if last_elt \<noteq> None then put_next last_elt (Some elt) cs else Inr cs) (\<lambda>cs.
     let dst = dst\<lparr>l_ord := cs\<rparr> in
     bindr (if l_head dst = None
            then bindr (HASH_MAKE_TABLE_p can_alloc elt) (\<lambda>lt.
                 Inr (dst\<lparr>l_head := Some elt, l_tbl := Some lt\<rparr>))
            else Inr dst) (\<lambda>dst.
     bindr (tbl_of dst) (\<lambda>lt.
     bindr (HASH_ADD_TO_BKT_p can_alloc fuel hp (HASH_TO_BKT (hh_hashv e) (lt_num_buckets lt)) elt
              (l_chn dst) lt) (\<lambda>(cs, lt).
     Inr (hp, dst\<lparr>l_chn := cs, l_tbl := Some (lt\<lparr>lt_num_items := lt_num_items lt + 1\<rparr>)\<rparr>, Some elt))))))))))"

text \<open>The loop along a chain of the source, and the loop over its buckets from \<open>i\<close> on.\<close>

fun select_chain :: "nat \<Rightarrow> cells \<Rightarrow> (nat \<Rightarrow> bool) \<Rightarrow> (nat \<Rightarrow> 'a \<Rightarrow> fault + 'a) \<Rightarrow> nat option \<Rightarrow> 'a \<Rightarrow> fault + 'a" where
  "select_chain fuel cs cond body None st = Inr st"
| "select_chain 0 cs cond body (Some elt) st = Inl OutOfFuel"
| "select_chain (Suc fuel) cs cond body (Some elt) st =
     bindr (if cond elt then body elt st else Inr st) (\<lambda>st.
     bindr (cell_at cs (Some elt)) (\<lambda>c. select_chain fuel cs cond body (c_next c) st))"

primrec select_buckets :: "nat \<Rightarrow> cells \<Rightarrow> lbucket list \<Rightarrow> (nat \<Rightarrow> bool) \<Rightarrow> (nat \<Rightarrow> 'a \<Rightarrow> fault + 'a) \<Rightarrow> nat
    \<Rightarrow> nat \<Rightarrow> 'a \<Rightarrow> fault + 'a" where
  "select_buckets fuel cs bs cond body i 0 st = Inr st"
| "select_buckets fuel cs bs cond body i (Suc k) st =
     bindr (lbucket_at bs i) (\<lambda>b.
     bindr (select_chain fuel cs cond body (lb_head b) st) (select_buckets fuel cs bs cond body (i + 1) k))"

definition HASH_SELECT_p :: "(nat \<Rightarrow> bool) \<Rightarrow> nat \<Rightarrow> (nat \<Rightarrow> bool) \<Rightarrow> heap \<Rightarrow> links \<Rightarrow> heap \<Rightarrow> links
    \<Rightarrow> fault + heap \<times> links" where
  "HASH_SELECT_p can_alloc fuel cond src_hp src hp dst =
     (if l_head src \<noteq> None then
        bindr (tbl_of src) (\<lambda>lt.
        bindr (select_buckets fuel (l_chn src) (lt_buckets lt) cond (select_element can_alloc fuel src_hp)
                 0 (unat (lt_num_buckets lt)) (hp, dst, None)) (\<lambda>(hp, dst, _).
        Inr (hp, dst)))
      else Inr (hp, dst))"

section \<open>The loops visit the chains\<close>

fun each :: "('a \<Rightarrow> 's \<Rightarrow> fault + 's) \<Rightarrow> 'a list \<Rightarrow> 's \<Rightarrow> fault + 's" where
  "each body [] st = Inr st"
| "each body (x # xs) st = bindr (body x st) (each body xs)"

lemma each_append: "each body (xs @ ys) st = bindr (each body xs st) (each body ys)"
  by (induction xs arbitrary: st) (auto simp: bindr_def split: sum.splits)

lemma select_chain_each:
  assumes "dseg cs p xs None" "length xs \<le> fuel"
  shows "select_chain fuel cs cond body (first_of xs None) st = each body (filter cond xs) st"
  using assms
proof (induction xs arbitrary: p fuel st)
  case (Cons x xs)
  then obtain f where f: "fuel = Suc f" "length xs \<le> f" by (cases fuel) auto
  have "dseg cs (Some x) xs None" using Cons.prems(1) by simp
  from Cons.IH [OF this f(2)] Cons.prems(1) show ?case
    by (cases "cond x") (simp_all add: f(1))
qed simp

lemma select_buckets_each:
  assumes "list_all2 (chain_rel cs) (drop i bs) (drop i lbs)" "i + k \<le> length bs" "length lbs = length bs"
    and "length (elems_of bs) \<le> fuel"
  shows "select_buckets fuel cs lbs cond body i k st =
    each body (filter cond (elems_of (take k (drop i bs)))) st"
  using assms(1,2)
proof (induction k arbitrary: i st)
  case (Suc k)
  then have i: "i < length bs" by simp
  have d: "drop i bs = bs ! i # drop (Suc i) bs" "drop i lbs = lbs ! i # drop (Suc i) lbs"
    using i assms(3) by (simp_all add: Cons_nth_drop_Suc)
  have rest: "list_all2 (chain_rel cs) (drop (Suc i) bs) (drop (Suc i) lbs)" and c: "chain_rel cs (bs ! i) (lbs ! i)"
    using Suc.prems(1) unfolding d by simp_all
  have "select_chain fuel cs cond body (lb_head (lbs ! i)) st = each body (filter cond (bkt_chain (bs ! i))) st" for st
    using select_chain_each [of cs None "bkt_chain (bs ! i)" fuel] c chain_length [OF i] assms(4)
    by (simp add: chain_rel_def)
  moreover have "select_buckets fuel cs lbs cond body (Suc i) k =
      each body (filter cond (elems_of (take k (drop (Suc i) bs))))"
    using Suc.IH [OF rest] Suc.prems(2) by (intro ext) simp
  ultimately show ?case
    using i assms(3) by (simp add: lbucket_at_def d(1) each_append)
qed simp

section \<open>What has been selected\<close>

text \<open>The destination after the elements \<open>sel\<close>: its order is \<open>sel\<close>, its chains hold \<open>sel\<close>, and its
  \<^verbatim>\<open>tail\<close> is still the first element. In \<open>t\<close> the order is that first element alone, which is
  what \<^verbatim>\<open>tail\<close> says.\<close>

definition selected :: "heap \<Rightarrow> nat list \<Rightarrow> heap \<times> links \<times> nat option \<Rightarrow> bool" where
  "selected src_hp sel = (\<lambda>(hp, dst, last_elt).
     last_elt = last_of None sel \<and> distinct sel \<and>
     (\<forall>a. src_hp a \<noteq> None \<longrightarrow> live dst a \<and> hp a \<noteq> None) \<and>
     (\<forall>a\<in>set sel. src_hp a \<noteq> None \<and> handle_ok hp a \<and> key_of hp a = key_of src_hp a) \<and>
     (if sel = [] then l_head dst = None
      else l_head dst = Some (hd sel) \<and> dseg (l_ord dst) None sel None \<and>
        (\<exists>lt t. l_tbl dst = Some lt \<and> tbl_rel (l_chn dst) t lt \<and> tbl_order t = [hd sel] \<and>
           hash_ok hp t (mset sel) \<and> tbl_num_items t = of_nat (length sel))))"

lemma hash_ok_cong:
  assumes "\<And>a. a \<in># M \<Longrightarrow> key_of hp' a = key_of hp a" "hash_ok hp t M"
  shows "hash_ok hp' t M"
  using buckets_ok_cong [OF assms(1)] assms(2) by (simp add: hash_ok_def)

text \<open>The order of the destination grows at its end.\<close>

lemma select_order:
  assumes "sel = [] \<or> dseg cs None sel None" "distinct sel" "e \<notin> set sel" "cs e = Some c"
  obtains cs1 cs2 cs3 where "put_prev (Some e) (last_of None sel) cs = Inr cs1"
    "put_next (Some e) None cs1 = Inr cs2"
    "(if last_of None sel \<noteq> None then put_next (last_of None sel) (Some e) cs2 else Inr cs2) = Inr cs3"
    "dseg cs3 None (sel @ [e]) None" "\<And>x. x \<notin> set (sel @ [e]) \<Longrightarrow> cs3 x = cs x"
proof -
  let ?cs1 = "cs(e \<mapsto> c\<lparr>c_prev := last_of None sel\<rparr>)"
  let ?cs2 = "cs(e \<mapsto> \<lparr>c_prev = last_of None sel, c_next = None\<rparr>)"
  have p: "put_prev (Some e) (last_of None sel) cs = Inr ?cs1" "put_next (Some e) None ?cs1 = Inr ?cs2"
    using assms(4) by (cases c; simp)+
  obtain cs3 where cs3: "(if last_of None sel \<noteq> None then put_next (last_of None sel) (Some e) ?cs2 else Inr ?cs2) = Inr cs3"
    "dseg cs3 None sel (Some e)" "\<And>x. x \<notin> set sel \<Longrightarrow> cs3 x = ?cs2 x"
  proof (cases "sel = []")
    case True
    then show thesis using that [of ?cs2] by simp
  next
    case False
    then have "dseg ?cs2 None sel None" using assms(1,3) by simp
    from put_next_last [OF this assms(2) False, of "Some e"] show thesis
      using that False by (auto simp: last_of_None)
  qed
  show thesis
    by (rule that [OF p cs3(1)]) (use cs3(2,3) assms(3) in simp_all)
qed

text \<open>There is a table for the next element, made for it when it is the first.\<close>

lemma select_table:
  assumes inv: "selected src_hp sel (hp, dst, last_elt)" and e: "e \<notin> set sel"
    and keys: "\<forall>a\<in>set sel. key_of hp' a = key_of hp a"
    and cs: "dseg cs None (sel @ [e]) None"
  defines "d \<equiv> dst\<lparr>l_ord := cs\<rparr>"
  shows "(if l_head d = None
      then bindr (HASH_MAKE_TABLE_p can_alloc e) (\<lambda>lt. Inr (d\<lparr>l_head := Some e, l_tbl := Some lt\<rparr>))
      else Inr d) = Inl (ProgramExit (-1)) \<or>
    (\<exists>d1 lt t. (if l_head d = None
      then bindr (HASH_MAKE_TABLE_p can_alloc e) (\<lambda>lt. Inr (d\<lparr>l_head := Some e, l_tbl := Some lt\<rparr>))
      else Inr d) = Inr d1 \<and> tbl_of d1 = Inr lt \<and> l_ord d1 = cs \<and> l_chn d1 = l_chn dst \<and>
      l_head d1 = Some (hd (sel @ [e])) \<and> tbl_rel (l_chn dst) t lt \<and> tbl_order t = [hd (sel @ [e])] \<and>
      hash_ok hp' t (mset sel) \<and> tbl_num_items t = of_nat (length sel))"
proof (cases "sel = []")
  case True
  then have head: "l_head d = None" using inv by (simp add: selected_def d_def)
  show ?thesis
  proof (cases "HASH_MAKE_TABLE can_alloc e")
    case (Inl f)
    then show ?thesis using head
      by (auto simp: HASH_MAKE_TABLE_def HASH_MAKE_TABLE_p_def split: if_splits)
  next
    case (Inr t)
    then obtain lt where lt: "HASH_MAKE_TABLE_p can_alloc e = Inr lt" "tbl_rel (l_chn dst) t lt"
      "tbl_order t = [e]" "tbl_num_items t = 0"
      using chains_empty by (auto simp: HASH_MAKE_TABLE_def HASH_MAKE_TABLE_p_def tbl_rel_def split: if_splits)
    have "hash_ok hp' t {#}"
      using Inr buckets_ok_empty [of hp' 32]
      by (auto simp: HASH_MAKE_TABLE_def hash_ok_def HASH_INITIAL_NUM_BUCKETS_def
          HASH_INITIAL_NUM_BUCKETS_LOG2_def split: if_splits)
    then show ?thesis using head lt cs True by (simp add: tbl_of_def d_def) blast
  qed
next
  case False
  then obtain lt t where t: "l_head dst = Some (hd sel)" "l_tbl dst = Some lt" "tbl_rel (l_chn dst) t lt"
    "tbl_order t = [hd sel]" "hash_ok hp t (mset sel)" "tbl_num_items t = of_nat (length sel)"
    using inv by (auto simp: selected_def)
  have "hash_ok hp' t (mset sel)" using t(5) keys by (intro hash_ok_cong [of "mset sel" hp' hp]) simp_all
  moreover have "\<exists>c. cs (hd sel) = Some c" using dseg_dom [OF cs] False by simp
  ultimately show ?thesis using t False by (auto simp: d_def tbl_of_def)
qed

lemma select_step:
  assumes inv: "selected src_hp sel st" and e: "e \<notin> set sel" "handle_ok src_hp e"
    and mem: "memory_bound can_alloc" and fuel: "length sel < fuel"
  shows "select_element can_alloc fuel src_hp e st = Inl (ProgramExit (-1)) \<or>
    (\<exists>st'. select_element can_alloc fuel src_hp e st = Inr st' \<and> selected src_hp (sel @ [e]) st')"
proof -
  obtain hp dst last_elt where st: "st = (hp, dst, last_elt)" by (cases st) auto
  note inv' = inv [unfolded st selected_def prod.case]
  obtain se where se: "src_hp e = Some se" "read_bytes (hh_key se) (unat (hh_keylen se)) = Inr (key_of src_hp e)"
    "hh_hashv se = HASH_JEN (key_of src_hp e)" using e(2) by (rule handle_okE) blast
  obtain h c c2 where h: "hp e = Some h" "l_ord dst e = Some c" "l_chn dst e = Some c2"
    using inv' se(1) by (auto simp: live_def)
  define hp' where "hp' = hp(e \<mapsto> h\<lparr>hh_key := hh_key se, hh_keylen := hh_keylen se, hh_hashv := hh_hashv se\<rparr>)"
  have key: "key_of hp' e = key_of src_hp e" "handle_ok hp' e"
    using se by (simp add: hp'_def key_of_def) (use se in \<open>simp add: hp'_def handle_ok_def\<close>)
  have other: "key_of hp' a = key_of hp a" "handle_ok hp' a = handle_ok hp a" if "a \<in> set sel" for a
    using that e(1) by (auto simp: hp'_def intro!: handle_upd_other)
  obtain cs1 cs2 cs3 where cs: "put_prev (Some e) (last_of None sel) (l_ord dst) = Inr cs1"
    "put_next (Some e) None cs1 = Inr cs2"
    "(if last_of None sel \<noteq> None then put_next (last_of None sel) (Some e) cs2 else Inr cs2) = Inr cs3"
    "dseg cs3 None (sel @ [e]) None" "\<And>x. x \<notin> set (sel @ [e]) \<Longrightarrow> cs3 x = l_ord dst x"
  proof (rule select_order [of sel "l_ord dst" e c])
    show "sel = [] \<or> dseg (l_ord dst) None sel None" using inv' by (cases "sel = []") simp_all
    show "distinct sel" using inv' by simp
  qed (rule e(1) h(2), rule h(2), rule that)
  have last: "last_elt = last_of None sel" using inv' by simp
  let ?d = "dst\<lparr>l_ord := cs3\<rparr>"
  have run: "select_element can_alloc fuel src_hp e st =
    bindr (if l_head ?d = None
      then bindr (HASH_MAKE_TABLE_p can_alloc e) (\<lambda>lt. Inr (?d\<lparr>l_head := Some e, l_tbl := Some lt\<rparr>))
      else Inr ?d) (\<lambda>d1.
    bindr (tbl_of d1) (\<lambda>lt.
    bindr (HASH_ADD_TO_BKT_p can_alloc fuel hp' (HASH_TO_BKT (hh_hashv se) (lt_num_buckets lt)) e (l_chn d1) lt)
      (\<lambda>(cs, lt). Inr (hp', d1\<lparr>l_chn := cs, l_tbl := Some (lt\<lparr>lt_num_items := lt_num_items lt + 1\<rparr>)\<rparr>, Some e))))"
    unfolding st last select_element_def prod.case Let_def deref_def se(1) h(1) option.case bindr_simps
      cs(1,2,3) hp'_def [symmetric] ..
  have "\<forall>a\<in>set sel. key_of hp' a = key_of hp a" using other(1) by blast
  from select_table [OF inv [unfolded st] e(1) this cs(4), of can_alloc] show ?thesis
  proof (elim disjE exE conjE)
    assume "(if l_head ?d = None
      then bindr (HASH_MAKE_TABLE_p can_alloc e) (\<lambda>lt. Inr (?d\<lparr>l_head := Some e, l_tbl := Some lt\<rparr>))
      else Inr ?d) = Inl (ProgramExit (-1))"
    then show ?thesis by (simp only: run bindr_simps) simp
  next
    fix d1 lt t
    assume d1: "(if l_head ?d = None
      then bindr (HASH_MAKE_TABLE_p can_alloc e) (\<lambda>lt. Inr (?d\<lparr>l_head := Some e, l_tbl := Some lt\<rparr>))
      else Inr ?d) = Inr d1" "tbl_of d1 = Inr lt" "l_ord d1 = cs3" "l_chn d1 = l_chn dst"
      "l_head d1 = Some (hd (sel @ [e]))" "tbl_rel (l_chn dst) t lt" "tbl_order t = [hd (sel @ [e])]"
      "hash_ok hp' t (mset sel)" "tbl_num_items t = of_nat (length sel)"
    have m: "mset (elems_of (tbl_buckets t)) = mset sel" using d1(8) by (simp add: hash_ok_def buckets_ok_def)
    note set = mset_eq_setD [OF m] and len = mset_eq_length [OF m]
    have num: "lt_num_buckets lt = tbl_num_buckets t" using d1(6) by (simp add: tbl_rel_def)
    have i: "HASH_TO_BKT (hh_hashv se) (lt_num_buckets lt) = bucket_of hp' (tbl_num_buckets t) e"
      by (simp add: bucket_of_def key(1) num se(3))
    have "\<forall>b\<in>#add_mset e (mset sel). handle_ok hp' b"
      using key(2) other(2) inv' by auto
    note list = HASH_ADD_TO_BKT_ok [OF d1(8) this mem]
    have sim: "simr (tables_after (l_chn dst) (e # elems_of (tbl_buckets t)))
      (HASH_ADD_TO_BKT can_alloc hp' (bucket_of hp' (tbl_num_buckets t) e) e t)
      (HASH_ADD_TO_BKT_p can_alloc fuel hp' (bucket_of hp' (tbl_num_buckets t) e) e (l_chn dst) lt)"
      by (rule add_to_bkt_refines [OF d1(6) _ h(3)]) (use e(1) fuel set len in simp_all)
    have run1: "select_element can_alloc fuel src_hp e st =
      bindr (HASH_ADD_TO_BKT_p can_alloc fuel hp' (bucket_of hp' (tbl_num_buckets t) e) e (l_chn dst) lt)
      (\<lambda>(cs, lt). Inr (hp', d1\<lparr>l_chn := cs, l_tbl := Some (lt\<lparr>lt_num_items := lt_num_items lt + 1\<rparr>)\<rparr>, Some e))"
      by (simp only: run d1(1,2,4) bindr_simps i)
    from list show ?thesis
    proof (elim disjE exE conjE)
      assume "HASH_ADD_TO_BKT can_alloc hp' (bucket_of hp' (tbl_num_buckets t) e) e t = Inl (ProgramExit (-1))"
      then show ?thesis using sim by (simp add: run1)
    next
      fix t'
      assume t': "HASH_ADD_TO_BKT can_alloc hp' (bucket_of hp' (tbl_num_buckets t) e) e t = Inr t'"
        "hash_ok hp' t' (add_mset e (mset sel))" "tbl_order t' = tbl_order t" "tbl_num_items t' = tbl_num_items t"
      obtain chn lt' where c: "HASH_ADD_TO_BKT_p can_alloc fuel hp' (bucket_of hp' (tbl_num_buckets t) e) e
          (l_chn dst) lt = Inr (chn, lt')" "tbl_rel chn t' lt'"
        "\<forall>x. x \<notin> set (e # elems_of (tbl_buckets t)) \<longrightarrow> chn x = l_chn dst x"
        using sim t'(1) by (auto simp: tables_after_def)
      let ?d2 = "d1\<lparr>l_chn := chn, l_tbl := Some (lt'\<lparr>lt_num_items := lt_num_items lt' + 1\<rparr>)\<rparr>"
      let ?t2 = "t'\<lparr>tbl_num_items := tbl_num_items t' + 1\<rparr>"
      have "live ?d2 a \<and> hp' a \<noteq> None" if a: "src_hp a \<noteq> None" for a
      proof (cases "a \<in> set (sel @ [e])")
        case True
        have "set (elems_of (tbl_buckets t')) = set (e # sel)"
          using t'(2) mset_eq_setD [of "elems_of (tbl_buckets t')" "e # sel"] by (simp add: hash_ok_def buckets_ok_def)
        then have "chn a \<noteq> None" using chain_dom [OF c(2)] True by auto
        moreover have "cs3 a \<noteq> None" using dseg_dom [OF cs(4) True] by auto
        ultimately show ?thesis using inv' a d1(3) by (simp add: live_def hp'_def)
      next
        case False
        then have "a \<notin> set (e # elems_of (tbl_buckets t))" unfolding list.set(2) set by simp
        then have "chn a = l_chn dst a" using c(3) by blast
        with False show ?thesis using inv' a cs(5) d1(3) by (simp add: live_def hp'_def)
      qed
      moreover have "tbl_rel chn ?t2 (lt'\<lparr>lt_num_items := lt_num_items lt' + 1\<rparr>)"
        using c(2) by (simp add: tbl_rel_def)
      moreover have "hash_ok hp' ?t2 (mset (sel @ [e]))" using t'(2) by (simp add: hash_ok_def)
      moreover have "tbl_num_items ?t2 = of_nat (length (sel @ [e]))" using t'(4) d1(9) by simp
      ultimately have "selected src_hp (sel @ [e]) (hp', ?d2, Some e)"
        using inv' e(1) se(1) key other cs(4) d1(3,5,7) t'(3) by (auto simp: selected_def)
      then show ?thesis using c(1) by (simp add: run1)
    qed
  qed
qed

lemma select_each:
  assumes "selected src_hp sel st" "distinct (sel @ xs)" "\<forall>e\<in>set xs. handle_ok src_hp e"
    and "memory_bound can_alloc" "length sel + length xs \<le> fuel"
  shows "each (select_element can_alloc fuel src_hp) xs st = Inl (ProgramExit (-1)) \<or>
    (\<exists>st'. each (select_element can_alloc fuel src_hp) xs st = Inr st' \<and> selected src_hp (sel @ xs) st')"
  using assms(1,2,3,5)
proof (induction xs arbitrary: sel st)
  case (Cons x xs)
  have "x \<notin> set sel" "handle_ok src_hp x" "length sel < fuel" using Cons.prems by simp_all
  from select_step [OF Cons.prems(1) this(1,2) assms(4) this(3)] show ?case
  proof (elim disjE exE conjE)
    fix st' assume "select_element can_alloc fuel src_hp x st = Inr st'" "selected src_hp (sel @ [x]) st'"
    with Cons.IH [of "sel @ [x]" st'] Cons.prems(2-4) show ?case by simp
  qed simp
qed simp

text \<open>The selected elements, in the order in which the chains of the source are visited.\<close>

definition selection :: "(nat \<Rightarrow> bool) \<Rightarrow> ut_table option \<Rightarrow> nat list" where
  "selection cond head = filter cond (elems_in head)"

lemma select_run:
  assumes inv: "in_step src_hp head src" and dst: "l_head dst = None"
    and handles: "\<forall>a. src_hp a \<noteq> None \<longrightarrow> live dst a \<and> hp a \<noteq> None"
    and mem: "memory_bound can_alloc" and fuel: "length (order_of head) \<le> fuel"
  shows "HASH_SELECT_p can_alloc fuel cond src_hp src hp dst = Inl (ProgramExit (-1)) \<or>
    (\<exists>hp' dst' last_elt. HASH_SELECT_p can_alloc fuel cond src_hp src hp dst = Inr (hp', dst') \<and>
       selected src_hp (selection cond head) (hp', dst', last_elt))"
proof -
  have start: "selected src_hp [] (hp, dst, None)" using dst handles by (simp add: selected_def)
  show ?thesis
  proof (cases head)
    case None
    then have "l_head src = None" using inv by (simp add: in_step_def links_rel_def)
    then show ?thesis using start None by (auto simp: HASH_SELECT_p_def selection_def elems_in_def)
  next
    case (Some t)
    have tok: "table_ok src_hp t" and rel: "links_rel (Some t) src" using inv Some by (simp_all add: in_step_def)
    obtain lt where lt: "tbl_of src = Inr lt" "tbl_rel (l_chn src) t lt" "l_head src \<noteq> None"
      using rel by (rule links_relE)
    have bs: "list_all2 (chain_rel (l_chn src)) (tbl_buckets t) (lt_buckets lt)" "distinct (elems_of (tbl_buckets t))"
      using lt(2) by (simp_all add: tbl_rel_def buckets_rel_def)
    have len: "length (tbl_buckets t) = unat (lt_num_buckets lt)"
      using tok lt(2) by (simp add: table_ok_def buckets_ok_def tbl_rel_def)
    have "elems_in head = elems_of (tbl_buckets t)" by (simp add: elems_in_def Some)
    then have sel: "selection cond head = filter cond (elems_of (tbl_buckets t))" by (simp add: selection_def)
    have run: "HASH_SELECT_p can_alloc fuel cond src_hp src hp dst =
      bindr (each (select_element can_alloc fuel src_hp) (selection cond head) (hp, dst, None))
        (\<lambda>(hp, dst, _). Inr (hp, dst))"
      using lt(1,3) select_buckets_each [of "l_chn src" 0 "tbl_buckets t" "lt_buckets lt" "unat (lt_num_buckets lt)" fuel
          cond "select_element can_alloc fuel src_hp"] bs(1) len list_all2_lengthD [OF bs(1)]
        table_elems(2) [OF tok] fuel Some
      unfolding sel by (simp add: HASH_SELECT_p_def)
    have "\<forall>e\<in>set (selection cond head). handle_ok src_hp e"
      using tok table_elems(3) [OF tok] sel by (auto simp: table_ok_def)
    moreover have "length (selection cond head) \<le> fuel"
      unfolding sel using length_filter_le [of cond "elems_of (tbl_buckets t)"] table_elems(2) [OF tok] fuel Some
      by simp
    ultimately have "each (select_element can_alloc fuel src_hp) (selection cond head) (hp, dst, None) = Inl (ProgramExit (-1)) \<or>
      (\<exists>st'. each (select_element can_alloc fuel src_hp) (selection cond head) (hp, dst, None) = Inr st' \<and>
        selected src_hp ([] @ selection cond head) st')"
      by (intro select_each [OF start _ _ mem]) (use bs(2) in \<open>simp_all add: sel\<close>)
    then show ?thesis by (auto simp: run)
  qed
qed

section \<open>What it is worth\<close>

text \<open>The destination as it would be with \<^verbatim>\<open>tail\<close> at the last element.\<close>

definition with_tail :: "nat option \<Rightarrow> links \<Rightarrow> links" where
  "with_tail p s = s\<lparr>l_tbl := map_option (lt_tail_update (\<lambda>_. p)) (l_tbl s)\<rparr>"

lemma selected_table:
  assumes "selected src_hp sel (hp, dst, last_elt)" "sel \<noteq> []" "inj_on (key_of src_hp) (set sel)"
  obtains t lt where "links_rel (Some t) (with_tail (last_of None sel) dst)" "table_ok hp t" "tbl_order t = sel"
    "l_tbl dst = Some lt" "lt_tail lt = Some (hd sel)"
proof -
  obtain lt t where t: "l_tbl dst = Some lt" "tbl_rel (l_chn dst) t lt" "tbl_order t = [hd sel]"
    "hash_ok hp t (mset sel)" "tbl_num_items t = of_nat (length sel)"
    using assms(1,2) by (auto simp: selected_def)
  have sel: "l_head dst = first_of sel None" "dseg (l_ord dst) None sel None" "distinct sel"
    "\<forall>a\<in>set sel. handle_ok hp a \<and> key_of hp a = key_of src_hp a"
    using assms(1,2) by (cases sel; simp add: selected_def)+
  have "inj_on (key_of hp) (set sel)"
    using assms(3) sel(4) by (simp add: inj_on_def)
  then have "table_ok hp (t\<lparr>tbl_order := sel\<rparr>)"
    using t(4,5) sel(3,4) assms(2) by (simp add: table_ok_def hash_ok_def)
  moreover have "links_rel (Some (t\<lparr>tbl_order := sel\<rparr>)) (with_tail (last_of None sel) dst)"
    using t(1,2) sel assms(2) by (simp add: links_rel_def with_tail_def tbl_rel_def)
  moreover have "lt_tail lt = Some (hd sel)" using t(2,3) by (simp add: tbl_rel_def)
  ultimately show thesis using that t(1) by fastforce
qed

text \<open>
  The selection itself is right but for \<^verbatim>\<open>tail\<close>: the destination, empty before, holds exactly
  the elements that satisfy the condition, under the keys they have in the source; the macro
  returns unless the allocator refuses. Its \<^verbatim>\<open>tail\<close> is the first element whenever there is one.\<close>

theorem select_collects:
  assumes inv: "in_step src_hp head src" and dst: "l_head dst = None"
    and handles: "\<forall>a. src_hp a \<noteq> None \<longrightarrow> live dst a \<and> hp a \<noteq> None"
    and mem: "memory_bound can_alloc" and fuel: "length (order_of head) \<le> fuel"
    and some: "\<exists>a\<in>set (order_of head). cond a"
  shows "HASH_SELECT_p can_alloc fuel cond src_hp src hp dst = Inl (ProgramExit (-1)) \<or>
    (\<exists>hp' dst' t lt. HASH_SELECT_p can_alloc fuel cond src_hp src hp dst = Inr (hp', dst') \<and>
       set (tbl_order t) = {a \<in> set (order_of head). cond a} \<and>
       (\<forall>a\<in>set (tbl_order t). key_of hp' a = key_of src_hp a) \<and> table_ok hp' t \<and>
       links_rel (Some t) (with_tail (last_of None (tbl_order t)) dst') \<and>
       l_tbl dst' = Some lt \<and> lt_tail lt = Some (hd (tbl_order t)))"
proof -
  have set: "set (selection cond head) = {a \<in> set (order_of head). cond a}"
    using head_elems(2) [of src_hp head] inv by (auto simp: selection_def in_step_def)
  then have ne: "selection cond head \<noteq> []" using some by fastforce
  have "inj_on (key_of src_hp) (set (order_of head))" using ut.tok_distinct inv by (auto simp: in_step_def)
  then have inj: "inj_on (key_of src_hp) (set (selection cond head))" by (rule inj_on_subset) (auto simp: set)
  from select_run [OF inv dst handles mem fuel, of cond] show ?thesis
  proof (elim disjE exE conjE)
    fix hp' dst' last_elt
    assume r: "HASH_SELECT_p can_alloc fuel cond src_hp src hp dst = Inr (hp', dst')"
      "selected src_hp (selection cond head) (hp', dst', last_elt)"
    obtain t lt where "links_rel (Some t) (with_tail (last_of None (selection cond head)) dst')" "table_ok hp' t"
      "tbl_order t = selection cond head" "l_tbl dst' = Some lt" "lt_tail lt = Some (hd (selection cond head))"
      by (rule selected_table [OF r(2) ne inj])
    with r set show ?thesis
      by (intro disjI2 exI [of _ hp'] exI [of _ dst'] exI [of _ t] exI [of _ lt]) (simp add: selected_def)
  qed simp
qed

text \<open>The insertion after a selection, with \<^verbatim>\<open>tail\<close> still at the first element.\<close>

lemma add_after_selection:
  assumes sel: "selected src_hp sel (hp, dst, last_elt)" and ne: "sel \<noteq> []"
    and a: "a \<notin> set sel" "src_hp a \<noteq> None" "read_bytes p (unat n) = Inr k" "unat n < 2 ^ 32"
    and mem: "memory_bound can_alloc" and fuel: "length sel < fuel"
  shows "HASH_ADD_KEYPTR_p can_alloc fuel hp dst p n a = Inl (ProgramExit (-1)) \<or>
    (\<exists>hp' t s'. HASH_ADD_KEYPTR_p can_alloc fuel hp dst p n a = Inr (hp', s') \<and>
       links_rel (Some t) s' \<and> tbl_order t = [hd sel, a] \<and> set (elems_of (tbl_buckets t)) = insert a (set sel))"
proof -
  obtain lt t where t: "l_tbl dst = Some lt" "tbl_rel (l_chn dst) t lt" "tbl_order t = [hd sel]"
    "hash_ok hp t (mset sel)" "l_head dst = Some (hd sel)" "dseg (l_ord dst) None sel None"
    using sel ne by (auto simp: selected_def)
  obtain b bs where bs: "sel = b # bs" using ne by (cases sel) auto
  obtain e c where e: "hp a = Some e" "l_ord dst a = Some c" "live dst a"
    using sel a(2) by (auto simp: selected_def live_def)
  define hp' where "hp' = hp(a \<mapsto> e\<lparr>hh_hashv := HASH_JEN k, hh_key := p, hh_keylen := ucast n\<rparr>)"
  let ?ord = "(l_ord dst)(a \<mapsto> \<lparr>c_prev = Some b, c_next = None\<rparr>, b \<mapsto> \<lparr>c_prev = None, c_next = Some a\<rparr>)"
  let ?t = "t\<lparr>tbl_order := [b, a]\<rparr>"
  let ?s = "dst\<lparr>l_ord := ?ord, l_tbl := Some (lt\<lparr>lt_tail := Some a\<rparr>)\<rparr>"
  have ab: "a \<noteq> b" and b: "l_ord dst b = Some \<lparr>c_prev = None, c_next = first_of bs None\<rparr>"
    using a(1) t(6) by (auto simp: bs)
  have "lt_tail lt = Some b" "tbl_of dst = Inr lt" using t(1,2,3,5) b by (simp_all add: tbl_rel_def tbl_of_def bs)
  then have link: "link_element_p can_alloc dst a = Inr ?s"
    using t(5) b ab e(2) by (simp add: link_element_p_def append_links_def bs)
  have "tbl_rel (l_chn dst) ?t (lt\<lparr>lt_tail := Some a\<rparr>)" using t(2) by (simp add: tbl_rel_def last_of_def)
  then have rel: "links_rel (Some ?t) ?s" using t(5) ab by (simp add: links_rel_def bs)
  have m: "mset (elems_of (tbl_buckets t)) = mset sel" using t(4) by (simp add: hash_ok_def buckets_ok_def)
  note set = mset_eq_setD [OF m] and len = mset_eq_length [OF m]
  have len32: "unat (ucast n :: byte32) = unat n"
    using a(4) by (simp add: unsigned_ucast_eq take_bit_nat_eq_self)
  have key: "key_of hp' a = k" "handle_ok hp' a" by (simp_all add: hp'_def key_of_def handle_ok_def len32 a(3))
  have other: "\<forall>x\<in>set sel. key_of hp' x = key_of hp x \<and> handle_ok hp' x = handle_ok hp x"
    using a(1) by (auto simp: hp'_def intro!: handle_upd_other)
  let ?t1 = "?t\<lparr>tbl_num_items := tbl_num_items t + 1\<rparr>"
  have "hash_ok hp' t (mset sel)"
    using t(4) other by (intro hash_ok_cong [of "mset sel" hp' hp]) simp_all
  then have "hash_ok hp' ?t1 (mset sel)" by (simp add: hash_ok_def)
  moreover have "\<forall>x\<in>#add_mset a (mset sel). handle_ok hp' x" using key(2) other sel by (auto simp: selected_def)
  ultimately have list: "HASH_ADD_TO_TABLE can_alloc hp' (HASH_JEN k) a ?t = Inl (ProgramExit (-1)) \<or>
    (\<exists>t'. HASH_ADD_TO_TABLE can_alloc hp' (HASH_JEN k) a ?t = Inr t' \<and> hash_ok hp' t' (add_mset a (mset sel)) \<and>
      tbl_order t' = [b, a])"
    using HASH_ADD_TO_BKT_ok [of hp' ?t1 "mset sel" a can_alloc] mem
    by (auto simp: HASH_ADD_TO_TABLE_def Let_def bucket_of_def key(1))
  have sim: "simr (linked_after ?s (a # elems_of (tbl_buckets ?t))) (HASH_ADD_TO_TABLE can_alloc hp' (HASH_JEN k) a ?t)
    (HASH_ADD_TO_TABLE_p can_alloc fuel hp' (HASH_JEN k) a ?s)"
  proof (rule add_to_table_refines [OF rel])
    show "a \<notin> set (elems_of (tbl_buckets ?t))" using a(1) set by simp
    show "l_chn ?s a = Some (the (l_chn dst a))" using e(3) by (auto simp: live_def)
    show "length (elems_of (tbl_buckets ?t)) < fuel" using len fuel by simp
  qed
  have run: "HASH_ADD_KEYPTR_p can_alloc fuel hp dst p n a =
    bindr (HASH_ADD_TO_TABLE_p can_alloc fuel hp' (HASH_JEN k) a ?s) (\<lambda>s. Inr (hp', s))"
    by (simp add: HASH_ADD_KEYPTR_p_def HASH_ADD_KEYPTR_BYHASHVALUE_p_def HASH_VALUE_def a(3) deref_def e(1)
        Let_def hp'_def link)
  from list show ?thesis
  proof (elim disjE exE conjE)
    assume "HASH_ADD_TO_TABLE can_alloc hp' (HASH_JEN k) a ?t = Inl (ProgramExit (-1))"
    then show ?thesis using sim by (simp add: run)
  next
    fix t' assume t': "HASH_ADD_TO_TABLE can_alloc hp' (HASH_JEN k) a ?t = Inr t'"
      "hash_ok hp' t' (add_mset a (mset sel))" "tbl_order t' = [b, a]"
    have "mset (elems_of (tbl_buckets t')) = mset (a # sel)" using t'(2) by (simp add: hash_ok_def buckets_ok_def)
    from mset_eq_setD [OF this] have "set (elems_of (tbl_buckets t')) = insert a (set sel)" by simp
    moreover obtain s' where "HASH_ADD_TO_TABLE_p can_alloc fuel hp' (HASH_JEN k) a ?s = Inr s'" "links_rel (Some t') s'"
      using sim t'(1) by (auto simp: linked_after_def)
    ultimately show ?thesis using t'(3) by (auto simp: run bs)
  qed
qed


text \<open>Both at a concrete input: all elements of \<open>pair_table\<close> are selected into an empty table.\<close>

definition no_links :: links where
  "no_links = pair_links\<lparr>l_head := None, l_tbl := None\<rparr>"

lemma no_links_handles:
  "l_head no_links = None" "\<forall>a. pair_heap a \<noteq> None \<longrightarrow> live no_links a \<and> pair_heap a \<noteq> None"
  using pair_in_step by (simp_all add: no_links_def in_step_def live_def)

lemma pair_all: "{a \<in> set (order_of (Some pair_table)). True} = {1, 2}"
  by (auto simp: pair_facts(1))

theorem select_collects_witness:
  "HASH_SELECT_p (\<lambda>n. n < 2 ^ 36) 3 (\<lambda>_. True) pair_heap pair_links pair_heap no_links = Inl (ProgramExit (-1)) \<or>
    (\<exists>hp' dst' t. HASH_SELECT_p (\<lambda>n. n < 2 ^ 36) 3 (\<lambda>_. True) pair_heap pair_links pair_heap no_links =
         Inr (hp', dst') \<and> set (tbl_order t) = {1, 2} \<and>
       links_rel (Some t) (with_tail (last_of None (tbl_order t)) dst'))"
proof -
  have "length (order_of (Some pair_table)) \<le> 3" "\<exists>a\<in>set (order_of (Some pair_table)). True"
    by (auto simp: pair_facts(1))
  from select_collects [OF pair_in_step no_links_handles pair_facts(2) this]
  show ?thesis unfolding pair_all by blast
qed


end
