(* ===== verification/Uthash_Sort_Links.thy ===== *)
theory Uthash_Sort_Links
  imports Uthash_Order
begin

text \<open>
  \<^verbatim>\<open>HASH_SRT\<close> of \<^verbatim>\<open>src/src/libraries/uthash.h\<close> on pointers: the merge sort relinks the elements one
  by one while it still follows the old links of those it has not reached. Every loop refines the
  loop of \<open>Uthash_Sort\<close> on lists.
\<close>

section \<open>The sort\<close>

text \<open>\<^verbatim>\<open>_hs_p\<close> moves on unless it is \<^verbatim>\<open>NULL\<close>.\<close>

definition next_or_null :: "cells \<Rightarrow> nat option \<Rightarrow> fault + nat option" where
  "next_or_null cs p = (if p = None then Inr None else bindr (cell_at cs p) (\<lambda>c. Inr (c_next c)))"

fun advance_p :: "cells \<Rightarrow> nat \<Rightarrow> nat option \<Rightarrow> fault + nat \<times> nat option" where
  "advance_p cs 0 q = Inr (0, q)"
| "advance_p cs (Suc i) q =
     bindr (cell_at cs q) (\<lambda>c.
     if c_next c = None then Inr (1, None)
     else bindr (advance_p cs i (c_next c)) (\<lambda>(n, r). Inr (Suc n, r)))"

text \<open>The cells, \<^verbatim>\<open>_hs_list\<close> and \<^verbatim>\<open>_hs_tail\<close>.\<close>

type_synonym srt_state = "cells \<times> nat option \<times> nat option"

definition emit_p :: "nat option \<Rightarrow> srt_state \<Rightarrow> fault + srt_state" where
  "emit_p e = (\<lambda>(cs, lst, tail).
     bindr (if tail \<noteq> None then put_next tail e cs else Inr cs) (\<lambda>cs.
     bindr (if e \<noteq> None then put_prev e tail cs else Inr cs) (\<lambda>cs.
     Inr (cs, if tail \<noteq> None then lst else e, e))))"

function merge_p :: "(nat \<Rightarrow> nat \<Rightarrow> int) \<Rightarrow> nat option \<Rightarrow> nat \<Rightarrow> nat option \<Rightarrow> nat \<Rightarrow> srt_state
    \<Rightarrow> fault + srt_state \<times> nat option" where
  "merge_p cmp p psize q qsize st =
     (if psize \<noteq> 0 \<or> qsize \<noteq> 0 \<and> q \<noteq> None then
        if psize = 0 then
          bindr (cell_at (fst st) q) (\<lambda>c.
          bindr (emit_p q st) (\<lambda>st. merge_p cmp p psize (c_next c) (qsize - 1) st))
        else if qsize = 0 \<or> q = None then
          bindr (next_or_null (fst st) p) (\<lambda>p'.
          bindr (emit_p p st) (\<lambda>st. merge_p cmp p' (psize - 1) q qsize st))
        else if p = None then Inl NullDeref
        else if cmp (the p) (the q) \<le> 0 then
          bindr (next_or_null (fst st) p) (\<lambda>p'.
          bindr (emit_p p st) (\<lambda>st. merge_p cmp p' (psize - 1) q qsize st))
        else
          bindr (cell_at (fst st) q) (\<lambda>c.
          bindr (emit_p q st) (\<lambda>st. merge_p cmp p psize (c_next c) (qsize - 1) st))
      else Inr (st, q))"
  by pat_completeness auto
termination
  by (relation "measure (\<lambda>(cmp, p, psize, q, qsize, st). psize + qsize)") auto

declare merge_p.simps [simp del]

fun srt_pass_p :: "(nat \<Rightarrow> nat \<Rightarrow> int) \<Rightarrow> byte32 \<Rightarrow> nat \<Rightarrow> nat option \<Rightarrow> srt_state \<Rightarrow> byte32
    \<Rightarrow> fault + srt_state \<times> byte32" where
  "srt_pass_p cmp insize 0 p st nmerges = Inl OutOfFuel"
| "srt_pass_p cmp insize (Suc fuel) p st nmerges =
     (if p = None then Inr (st, nmerges)
      else
        bindr (advance_p (fst st) (unat insize) p) (\<lambda>(psize, q).
        bindr (merge_p cmp p psize q (unat insize) st) (\<lambda>(st, q).
        srt_pass_p cmp insize fuel q st (nmerges + 1))))"

fun srt_loop_p :: "(nat \<Rightarrow> nat \<Rightarrow> int) \<Rightarrow> nat \<Rightarrow> nat \<Rightarrow> cells \<Rightarrow> nat option \<Rightarrow> byte32 \<Rightarrow> fault + srt_state" where
  "srt_loop_p cmp fuel 0 cs lst insize = Inl OutOfFuel"
| "srt_loop_p cmp fuel (Suc passes) cs lst insize =
     bindr (srt_pass_p cmp insize fuel lst (cs, None, None) 0) (\<lambda>((cs, lst, tail), nmerges).
     bindr (if tail \<noteq> None then put_next tail None cs else Inr cs) (\<lambda>cs.
     if nmerges \<le> 1 then Inr (cs, lst, tail) else srt_loop_p cmp fuel passes cs lst (insize * 2)))"

definition HASH_SRT_p :: "(nat \<Rightarrow> nat \<Rightarrow> int) \<Rightarrow> nat \<Rightarrow> links \<Rightarrow> fault + links" where
  "HASH_SRT_p cmp fuel s =
     (if l_head s = None then Inr s
      else
        bindr (tbl_of s) (\<lambda>lt.
        bindr (srt_loop_p cmp fuel fuel (l_ord s) (l_head s) 1) (\<lambda>(cs, lst, tail).
        Inr (s\<lparr>l_ord := cs, l_tbl := Some (lt\<lparr>lt_tail := tail\<rparr>), l_head := lst\<rparr>))))"

section \<open>Lists linked forwards\<close>

text \<open>The part of the list that the sort still reads: only \<^verbatim>\<open>next\<close> matters.\<close>

fun nseg :: "cells \<Rightarrow> nat list \<Rightarrow> nat option \<Rightarrow> bool" where
  "nseg cs [] n \<longleftrightarrow> True"
| "nseg cs (a # as) n \<longleftrightarrow> (\<exists>p. cs a = Some \<lparr>c_prev = p, c_next = first_of as n\<rparr>) \<and> nseg cs as n"

lemma nseg_frame: "(\<And>x. x \<in> set as \<Longrightarrow> cs' x = cs x) \<Longrightarrow> nseg cs' as n = nseg cs as n"
  by (induction as) simp_all

lemma dseg_nseg: "dseg cs p as n \<Longrightarrow> nseg cs as n"
  by (induction as arbitrary: p) auto

lemma nseg_append [simp]: "nseg cs (as @ bs) n \<longleftrightarrow> nseg cs as (first_of bs n) \<and> nseg cs bs n"
  by (induction as) auto

lemma advance_p_run:
  assumes "nseg cs xs None" "xs \<noteq> []"
  shows "advance_p cs i (first_of xs None) = Inr (min i (length xs), first_of (drop i xs) None)"
  using assms
proof (induction i arbitrary: xs)
  case (Suc i)
  then obtain a as p where xs: "xs = a # as" "cs a = Some \<lparr>c_prev = p, c_next = first_of as None\<rparr>" "nseg cs as None"
    by (cases xs) auto
  show ?case using Suc.IH [OF xs(3)] by (cases as) (simp_all add: xs(1,2))
qed simp

lemma emit_p_run:
  assumes "dseg cs None out m" "distinct out" "e \<notin> set out" "cs e = Some c"
  obtains cs' where "emit_p (Some e) (cs, first_of out None, last_of None out) =
      Inr (cs', first_of (out @ [e]) None, last_of None (out @ [e]))"
    "dseg cs' None (out @ [e]) (c_next c)" "\<And>x. x \<notin> set (out @ [e]) \<Longrightarrow> cs' x = cs x"
proof (cases "out = []")
  case True
  then show thesis
    using assms(4) by (intro that [of "cs(e \<mapsto> c\<lparr>c_prev := None\<rparr>)"]) (auto simp: emit_p_def)
next
  case False
  obtain cs1 where cs1: "put_next (last_of None out) (Some e) cs = Inr cs1" "dseg cs1 None out (Some e)"
    "\<And>x. x \<notin> set out \<Longrightarrow> cs1 x = cs x"
    using put_next_last [OF assms(1,2) False] by blast
  have "cs1 e = Some c" using cs1(3) assms(3,4) by simp
  then show thesis
    using cs1 assms(3) False
    by (intro that [of "cs1(e \<mapsto> c\<lparr>c_prev := last_of None out\<rparr>)"])
      (auto simp: emit_p_def last_of_None first_of_def split: list.splits)
qed

text \<open>One round of the merge, from either run.\<close>

lemma merge_p_from_p:
  assumes "k = 0 \<or> q = None \<or> cmp a (the q) \<le> 0" "fst st a = Some c"
  shows "merge_p cmp (Some a) (Suc n) q k st =
    bindr (emit_p (Some a) st) (merge_p cmp (c_next c) n q k)"
  using assms by (subst merge_p.simps) (auto simp: next_or_null_def)

lemma merge_p_done: "k = 0 \<or> q = None \<Longrightarrow> merge_p cmp p 0 q k st = Inr (st, q)"
  by (subst merge_p.simps) auto

lemma merge_p_from_q:
  assumes "n = 0 \<or> p \<noteq> None \<and> \<not> cmp (the p) b \<le> 0" "fst st b = Some c"
  shows "merge_p cmp p n (Some b) (Suc k) st =
    bindr (emit_p (Some b) st) (merge_p cmp p n (c_next c) k)"
  using assms by (subst merge_p.simps) auto

text \<open>The state in which \<open>out\<close> has been relinked and only cells of \<open>xs\<close> have changed.\<close>

definition relinked :: "cells \<Rightarrow> nat list \<Rightarrow> nat list \<Rightarrow> srt_state \<Rightarrow> bool" where
  "relinked cs xs out = (\<lambda>(cs', lst, tail). lst = first_of out None \<and> tail = last_of None out \<and>
     (\<exists>m. dseg cs' None out m) \<and> (\<forall>x. x \<notin> set xs \<longrightarrow> cs' x = cs x))"

lemma relinked_emit:
  assumes st: "relinked cs out out st" and e: "cs e = Some c" "e \<notin> set out" "distinct out"
  obtains st' where "emit_p (Some e) st = Inr st'" "relinked cs (out @ [e]) (out @ [e]) st'"
proof -
  obtain cs1 m where st1: "st = (cs1, first_of out None, last_of None out)" "dseg cs1 None out m"
    "\<forall>x. x \<notin> set out \<longrightarrow> cs1 x = cs x" using st by (cases st) (auto simp: relinked_def)
  have "cs1 e = Some c" using st1(3) e by simp
  from emit_p_run [OF st1(2) e(3,2) this] obtain cs' where
    "emit_p (Some e) st = Inr (cs', first_of (out @ [e]) None, last_of None (out @ [e]))"
    "dseg cs' None (out @ [e]) (c_next c)" "\<And>x. x \<notin> set (out @ [e]) \<Longrightarrow> cs' x = cs1 x"
    unfolding st1(1) by blast
  then show thesis using st1(3) by (intro that) (auto simp: relinked_def)
qed

lemma merge_p_run:
  fixes cmp defines "R \<equiv> \<lambda>a b. cmp a b \<le> (0 :: int)"
  assumes "nseg cs ps n" "nseg cs qs None" "relinked cs out out st" "distinct (out @ ps @ qs)"
  shows "\<exists>st'. merge_p cmp (first_of ps n) (length ps) (first_of qs None) k st = Inr (st', first_of (drop k qs) None) \<and>
    relinked cs (out @ weave R ps (take k qs)) (out @ weave R ps (take k qs)) st'"
  using assms(2-5)
proof (induction "length ps + k" arbitrary: ps qs k out st)
  case 0
  then show ?case by (subst merge_p.simps) simp
next
  case (Suc l)
  have from_p: ?case if ps: "ps = a # ps'" and c: "k = 0 \<or> qs = [] \<or> R a (hd qs)" for a ps'
  proof -
    obtain p where a: "cs a = Some \<lparr>c_prev = p, c_next = first_of ps' n\<rparr>" using Suc.prems(1) ps by auto
    have "fst st a = cs a" using Suc.prems(3,4) ps by (auto simp: relinked_def split: prod.splits)
    then have run: "merge_p cmp (first_of ps n) (length ps) (first_of qs None) k st =
        bindr (emit_p (Some a) st) (merge_p cmp (first_of ps' n) (length ps') (first_of qs None) k)"
      using merge_p_from_p [of k "first_of qs None" cmp a st] a c
      by (cases qs) (auto simp: ps R_def)
    obtain st1 where st1: "emit_p (Some a) st = Inr st1" "relinked cs (out @ [a]) (out @ [a]) st1"
      using relinked_emit [OF Suc.prems(3) a] Suc.prems(4) ps by auto
    have w: "weave R ps (take k qs) = a # weave R ps' (take k qs)"
      using c ps by (cases k; cases qs) auto
    have "out @ weave R ps (take k qs) = (out @ [a]) @ weave R ps' (take k qs)" by (simp add: w)
    then show ?thesis
      using Suc.hyps(1) [of ps' k qs "out @ [a]" st1] Suc.hyps(2) Suc.prems st1(2)
      unfolding run st1(1) bindr_simps by (simp add: ps)
  qed
  have from_q: ?case if qs: "qs = b # qs'" "k = Suc k'" and c: "ps = [] \<or> \<not> R (hd ps) b" for b qs' k'
  proof -
    obtain p where b: "cs b = Some \<lparr>c_prev = p, c_next = first_of qs' None\<rparr>" using Suc.prems(2) qs by auto
    have "fst st b = cs b" using Suc.prems(3,4) qs by (auto simp: relinked_def split: prod.splits)
    then have run: "merge_p cmp (first_of ps n) (length ps) (first_of qs None) k st =
        bindr (emit_p (Some b) st) (merge_p cmp (first_of ps n) (length ps) (first_of qs' None) k')"
      using merge_p_from_q [of "length ps" "first_of ps n" cmp b st] b c
      by (cases ps) (auto simp: qs R_def)
    obtain st1 where st1: "emit_p (Some b) st = Inr st1" "relinked cs (out @ [b]) (out @ [b]) st1"
      using relinked_emit [OF Suc.prems(3) b] Suc.prems(4) qs by auto
    have w: "weave R ps (take k qs) = b # weave R ps (take k' qs')"
      using c qs by (cases ps) auto
    have "out @ weave R ps (take k qs) = (out @ [b]) @ weave R ps (take k' qs')" by (simp add: w)
    then show ?thesis
      using Suc.hyps(1) [of ps k' qs' "out @ [b]" st1] Suc.hyps(2) Suc.prems st1(2)
      unfolding run st1(1) bindr_simps by (simp add: qs)
  qed
  show ?case
  proof (cases "ps = [] \<or> (k \<noteq> 0 \<and> qs \<noteq> [] \<and> \<not> R (hd ps) (hd qs))")
    case True
    show ?thesis
    proof (cases "k = 0 \<or> qs = []")
      case True
      then have "ps = []" "take k qs = []" "drop k qs = qs" using \<open>ps = [] \<or> _\<close> by auto
      moreover have "merge_p cmp p 0 (first_of qs None) k st = Inr (st, first_of qs None)" for p
        using True by (auto intro: merge_p_done)
      ultimately show ?thesis
        using Suc.prems(3) by (simp only: first_of_simps list.size weave.simps append_Nil2) blast
    next
      case False
      then obtain b qs' k' where "qs = b # qs'" "k = Suc k'" by (cases qs; cases k) auto
      then show ?thesis by (rule from_q) (use True \<open>qs = _\<close> in auto)
    qed
  next
    case False
    then obtain a ps' where "ps = a # ps'" by (cases ps) auto
    then show ?thesis by (rule from_p) (use False \<open>ps = _\<close> in auto)
  qed
qed

section \<open>The loops refine those on lists\<close>

lemma relinked_nseg:
  assumes "relinked cs xs out st" "set xs \<inter> set ys = {}"
  shows "nseg (fst st) ys n = nseg cs ys n"
  using assms by (auto simp: relinked_def split: prod.splits intro!: nseg_frame)

lemma relinked_trans:
  assumes "relinked cs xs out st" "relinked (fst st) ys out' st'" "set xs \<union> set ys \<subseteq> set zs"
  shows "relinked cs zs out' st'"
proof -
  have "x \<notin> set xs" "x \<notin> set ys" if "x \<notin> set zs" for x using that assms(3) by auto
  with assms(1,2) show ?thesis unfolding relinked_def by (clarsimp split: prod.splits)
qed

lemma pass_refines:
  assumes "nseg cs xs None" "relinked cs out out st" "distinct (out @ xs)"
  shows "simr (\<lambda>((out', _), n) (st', n'). n' = n \<and> mset out' = mset (out @ xs) \<and> relinked cs out' out' st')
    (srt_pass cmp insize fuel xs (out, out = []) m) (srt_pass_p cmp insize fuel (first_of xs None) st m)"
  using assms
proof (induction fuel arbitrary: xs out st m)
  case (Suc fuel)
  let ?k = "unat insize" and ?R = "\<lambda>a b. cmp a b \<le> 0"
  show ?case
  proof (cases "xs = []")
    case True
    with Suc.prems(2) show ?thesis by simp
  next
    case False
    define ps where "ps = take ?k xs"
    define qs where "qs = drop ?k xs"
    define out' where "out' = out @ weave ?R ps (take ?k qs)"
    have xs: "xs = ps @ qs" by (simp add: ps_def qs_def)
    have parts: "ps @ qs = ps @ take ?k qs @ drop ?k qs" by simp
    have ms: "mset (out' @ drop ?k qs) = mset (out @ xs)"
      unfolding xs by (subst parts) (simp only: out'_def mset_append mset_weave ac_simps)
    have "nseg (fst st) xs None" using relinked_nseg [OF Suc.prems(2)] Suc.prems(1,3) by auto
    then have adv: "advance ?k xs = (length ps, qs)"
      "advance_p (fst st) ?k (first_of xs None) = Inr (length ps, first_of qs None)"
      using advance_run [OF False] advance_p_run [OF _ False] by (simp_all add: ps_def qs_def min.commute)
    have segs: "nseg cs ps (first_of qs None)" "nseg cs qs None" using Suc.prems(1) by (simp_all add: xs)
    have "nseg cs (take ?k qs @ drop ?k qs) None" using segs(2) by (simp only: append_take_drop_id)
    then have rest: "nseg cs (drop ?k qs) None" by (simp only: nseg_append)
    have first: "first_of ps (first_of qs None) = first_of xs None" by (simp add: xs)
    obtain st' where st': "merge_p cmp (first_of xs None) (length ps) (first_of qs None) ?k st =
        Inr (st', first_of (drop ?k qs) None)" "relinked cs out' out' st'"
      using merge_p_run [OF segs Suc.prems(2), of cmp ?k] Suc.prems(3) unfolding first by (auto simp: xs out'_def)
    have merge: "merge_runs cmp xs (length ps) qs ?k (out, out = []) = Inr ((out', out' = []), drop ?k qs)"
      using merge_runs_run [of cmp ps qs qs ?k out] by (simp only: xs out'_def)
    have "distinct (out' @ drop ?k qs)"
      using Suc.prems(3) mset_eq_imp_distinct_iff [OF ms] by simp
    from Suc.IH [OF rest st'(2) this, of "m + 1"] show ?thesis
      using False by (simp add: adv merge st'(1) first_of_None ms [unfolded mset_append])
  qed
qed simp

lemma loop_refines:
  assumes "dseg cs None xs None" "distinct xs"
  shows "simr (\<lambda>ys (cs', lst, tail). lst = first_of ys None \<and> tail = last_of None ys \<and>
      dseg cs' None ys None \<and> mset ys = mset xs \<and> (\<forall>x. x \<notin> set xs \<longrightarrow> cs' x = cs x))
    (srt_loop cmp fuel passes xs insize) (srt_loop_p cmp fuel passes cs (first_of xs None) insize)"
  using assms
proof (induction passes arbitrary: cs xs insize)
  case (Suc passes)
  have "relinked cs [] [] (cs, None, None)" by (simp add: relinked_def)
  from pass_refines [OF dseg_nseg [OF Suc.prems(1)] this, of cmp insize fuel 0] Suc.prems(2)
  have pass: "simr (\<lambda>((out', _), n) (st', n'). n' = n \<and> mset out' = mset xs \<and> relinked cs out' out' st')
    (srt_pass cmp insize fuel xs ([], True) 0) (srt_pass_p cmp insize fuel (first_of xs None) (cs, None, None) 0)"
    by simp
  show ?case unfolding srt_loop.simps srt_loop_p.simps
  proof (rule simr_bind [OF pass])
    fix r :: "(nat list \<times> bool) \<times> byte32" and r' :: "srt_state \<times> byte32"
    assume "(\<lambda>((out', _), n) (st', n'). n' = n \<and> mset out' = mset xs \<and> relinked cs out' out' st') r r'"
    then obtain out f n cs1 lst tail where r: "r = ((out, f), n)" "r' = ((cs1, lst, tail), n)"
      and ms: "mset out = mset xs" and st: "relinked cs out out (cs1, lst, tail)"
      by (cases r; cases r'; cases "fst r"; cases "fst r'") auto
    then have out: "set out = set xs" "distinct out"
      using Suc.prems(2) mset_eq_imp_distinct_iff mset_eq_setD by blast+
    obtain m where cs1: "dseg cs1 None out m" "lst = first_of out None" "tail = last_of None out"
      "\<And>x. x \<notin> set xs \<Longrightarrow> cs1 x = cs x" using st out(1) by (auto simp: relinked_def)
    obtain cs2 where cs2: "(if tail \<noteq> None then put_next tail None cs1 else Inr cs1) = Inr cs2"
      "dseg cs2 None out None" "\<And>x. x \<notin> set xs \<Longrightarrow> cs2 x = cs x"
    proof (cases "out = []")
      case True
      with cs1 show thesis by (intro that [of cs1]) auto
    next
      case False
      obtain cs2 where "put_next tail None cs1 = Inr cs2" "dseg cs2 None out None"
        "\<And>x. x \<notin> set out \<Longrightarrow> cs2 x = cs1 x"
        using put_next_last [OF cs1(1) out(2) False] unfolding cs1(3) by blast
      then show thesis using that [of cs2] cs1(3,4) out(1) False by (simp add: last_of_None)
    qed
    from Suc.IH [OF cs2(2) out(2), of "insize * 2"] have
      "simr (\<lambda>ys (cs', lst, tail). lst = first_of ys None \<and> tail = last_of None ys \<and>
          dseg cs' None ys None \<and> mset ys = mset xs \<and> (\<forall>x. x \<notin> set xs \<longrightarrow> cs' x = cs x))
        (srt_loop cmp fuel passes out (insize * 2)) (srt_loop_p cmp fuel passes cs2 (first_of out None) (insize * 2))"
      by (rule simr_mono) (auto simp: ms out(1) cs2(3))
    with cs2 ms show "simr (\<lambda>ys (cs', lst, tail). lst = first_of ys None \<and> tail = last_of None ys \<and>
          dseg cs' None ys None \<and> mset ys = mset xs \<and> (\<forall>x. x \<notin> set xs \<longrightarrow> cs' x = cs x))
        ((\<lambda>((out, _), nmerges). if nmerges \<le> 1 then Inr out else srt_loop cmp fuel passes out (insize * 2)) r)
        ((\<lambda>((cs, lst, tail), nmerges).
          bindr (if tail \<noteq> None then put_next tail None cs else Inr cs) (\<lambda>cs.
          if nmerges \<le> 1 then Inr (cs, lst, tail) else srt_loop_p cmp fuel passes cs lst (insize * 2))) r')"
      unfolding r prod.case cs2(1) bindr_simps by (simp add: cs1(2,3))
  qed
qed simp

section \<open>The sorted table\<close>

lemma srt_refines:
  assumes inv: "in_step hp (Some t) s" and srt: "HASH_SRT cmp fuel (Some t) = Inr (Some (t\<lparr>tbl_order := ys\<rparr>))"
    and ok: "table_ok hp (t\<lparr>tbl_order := ys\<rparr>)"
  obtains s' where "HASH_SRT_p cmp fuel s = Inr s'" "in_step hp (Some (t\<lparr>tbl_order := ys\<rparr>)) s'" "l_chn s' = l_chn s"
proof -
  let ?xs = "tbl_order t"
  have rel: "links_rel (Some t) s" using inv by (simp add: in_step_def)
  obtain lt where lt: "tbl_of s = Inr lt" "tbl_rel (l_chn s) t lt" "l_head s \<noteq> None" using rel by (rule links_relE)
  have xs: "dseg (l_ord s) None ?xs None" "distinct ?xs" "l_head s = first_of ?xs None"
    using rel by (simp_all add: links_rel_def)
  have "srt_loop cmp fuel fuel ?xs 1 = Inr ys"
    using srt by (cases "srt_loop cmp fuel fuel ?xs 1") (auto simp: HASH_SRT_def dest: arg_cong [where f = tbl_order])
  with loop_refines [OF xs(1,2), of cmp fuel fuel 1] obtain cs' where
    run: "srt_loop_p cmp fuel fuel (l_ord s) (first_of ?xs None) 1 = Inr (cs', first_of ys None, last_of None ys)"
    and ys: "dseg cs' None ys None" "mset ys = mset ?xs" "\<forall>x. x \<notin> set ?xs \<longrightarrow> cs' x = l_ord s x"
    by auto
  let ?s = "s\<lparr>l_ord := cs', l_tbl := Some (lt\<lparr>lt_tail := last_of None ys\<rparr>), l_head := first_of ys None\<rparr>"
  have set: "set ys = set ?xs" "distinct ys" "ys \<noteq> []"
    using ys(2) ok mset_eq_setD by (auto simp: table_ok_def)
  have "links_rel (Some (t\<lparr>tbl_order := ys\<rparr>)) ?s"
    using lt(2) ys(1) set by (simp add: links_rel_def tbl_rel_def)
  moreover have "live ?s b" if "hp b \<noteq> None" for b
  proof -
    have "live s b" using inv that by (simp add: in_step_def)
    then show ?thesis using dseg_dom [OF ys(1), of b] ys(3) set(1) by (cases "b \<in> set ys") (auto simp: live_def)
  qed
  ultimately have "in_step hp (Some (t\<lparr>tbl_order := ys\<rparr>)) ?s" using ok by (simp add: in_step_def)
  moreover have "HASH_SRT_p cmp fuel s = Inr ?s" using run lt(1,3) unfolding xs(3) [symmetric] by (auto simp: HASH_SRT_p_def)
  ultimately show thesis by (intro that [of ?s]) simp_all
qed

text \<open>C29: \<^verbatim>\<open>HASH_SRT\<close> sorts, pointer by pointer: with a comparison function that is a total preorder it
  returns and never follows a null or stale pointer; the elements are then linked in both directions in
  an order that is a sorted permutation of the old one, in which elements that compare as equal
  have kept their places, head and tail are its ends, and the chains of the buckets are untouched.
  One more pass than elements is enough.\<close>

theorem hash_srt_relinks:
  assumes inv: "in_step hp (Some t) s" and R: "total_preorder (\<lambda>a b. cmp a b \<le> 0)"
    and len: "length (tbl_order t) < 2 ^ 32" "length (tbl_order t) < fuel"
  shows "\<exists>ys s'. HASH_SRT_p cmp fuel s = Inr s' \<and> in_step hp (Some (t\<lparr>tbl_order := ys\<rparr>)) s' \<and>
    l_chn s' = l_chn s \<and> mset ys = mset (tbl_order t) \<and> sorted_wrt (\<lambda>a b. cmp a b \<le> 0) ys \<and>
    (\<forall>x. alike (\<lambda>a b. cmp a b \<le> 0) x ys = alike (\<lambda>a b. cmp a b \<le> 0) x (tbl_order t))"
proof -
  have "table_ok hp t" using inv by (simp add: in_step_def)
  from hash_srt_sorts [OF this R len] obtain ys where ys: "HASH_SRT cmp fuel (Some t) = Inr (Some (t\<lparr>tbl_order := ys\<rparr>))"
    "sorted_wrt (\<lambda>a b. cmp a b \<le> 0) ys" "mset ys = mset (tbl_order t)"
    "\<forall>x. alike (\<lambda>a b. cmp a b \<le> 0) x ys = alike (\<lambda>a b. cmp a b \<le> 0) x (tbl_order t)"
    "table_ok hp (t\<lparr>tbl_order := ys\<rparr>)" by blast
  show ?thesis by (rule srt_refines [OF inv ys(1,5)]) (use ys(2-4) in blast)
qed

theorem hash_srt_relinks_witness:
  "\<exists>ys s'. HASH_SRT_p (\<lambda>a b. int a - int b) 3 pair_links = Inr s' \<and>
    in_step pair_heap (Some (pair_table\<lparr>tbl_order := ys\<rparr>)) s' \<and> mset ys = {#2, 1#} \<and>
    sorted_wrt (\<lambda>a b. int a - int b \<le> 0) ys"
proof -
  have "total_preorder (\<lambda>a b. int a - int b \<le> 0)" by (auto simp: total_preorder_def)
  from hash_srt_relinks [OF pair_in_step this, of 3] show ?thesis by (auto simp: pair_facts(1))
qed

end
