(* ===== verification/Uthash_Hashes.thy ===== *)
theory Uthash_Hashes
  imports C_Prelude
begin

text \<open>
  The hash functions of \<^verbatim>\<open>src/src/libraries/uthash.h\<close> that a program can choose with
  \<^verbatim>\<open>HASH_FUNCTION\<close> instead of Jenkins' one, on the bytes of the key (\<^verbatim>\<open>unsigned\<close> is 32 bits wide,
  the machine is little-endian). The locale \<open>absorbing\<close> says what follows for a hash each of whose
  steps loses neither the state nor the input; the rounds of Bernstein's, FNV-1a, one-at-a-time and
  MurmurHash are instances. The last section is about MurmurHash where a word must be aligned.
\<close>

section \<open>Byte by byte\<close>

definition ber_step :: "byte32 \<Rightarrow> byte8 \<Rightarrow> byte32" where
  "ber_step hashv b = (push_bit 5 hashv + hashv) + ucast b"

definition HASH_BER :: "bytes \<Rightarrow> byte32" where
  "HASH_BER key = foldl ber_step 0 key"

definition sax_step :: "byte32 \<Rightarrow> byte8 \<Rightarrow> byte32" where
  "sax_step hashv b = hashv XOR (push_bit 5 hashv + drop_bit 2 hashv + ucast b)"

definition HASH_SAX :: "bytes \<Rightarrow> byte32" where
  "HASH_SAX key = foldl sax_step 0 key"

definition fnv_step :: "byte32 \<Rightarrow> byte8 \<Rightarrow> byte32" where
  "fnv_step hashv b = (hashv XOR ucast b) * 16777619"

definition HASH_FNV :: "bytes \<Rightarrow> byte32" where
  "HASH_FNV key = foldl fnv_step 2166136261 key"

definition oat_step :: "byte32 \<Rightarrow> byte8 \<Rightarrow> byte32" where
  "oat_step hashv b =
     (let hashv = hashv + ucast b; hashv = hashv + push_bit 10 hashv in hashv XOR drop_bit 6 hashv)"

definition oat_final :: "byte32 \<Rightarrow> byte32" where
  "oat_final hashv =
     (let hashv = hashv + push_bit 3 hashv; hashv = hashv XOR drop_bit 11 hashv
      in hashv + push_bit 15 hashv)"

definition HASH_OAT :: "bytes \<Rightarrow> byte32" where
  "HASH_OAT key = oat_final (foldl oat_step 0 key)"

section \<open>Block by block\<close>

definition get16bits :: "byte8 \<Rightarrow> byte8 \<Rightarrow> byte32" where
  "get16bits d0 d1 = push_bit 8 (ucast d1) + ucast d0"

fun sfh_loop :: "byte32 \<Rightarrow> bytes \<Rightarrow> byte32 \<times> bytes" where
  "sfh_loop hashv (k0 # k1 # k2 # k3 # key) =
     (let hashv = hashv + get16bits k0 k1;
          tmp = push_bit 11 (get16bits k2 k3) XOR hashv;
          hashv = push_bit 16 hashv XOR tmp
      in sfh_loop (hashv + drop_bit 11 hashv) key)"
| "sfh_loop hashv key = (hashv, key)"

definition sfh_tail :: "byte32 \<Rightarrow> bytes \<Rightarrow> byte32" where
  "sfh_tail hashv key =
     (case key of
        [k0, k1, k2] \<Rightarrow>
          let hashv = hashv + get16bits k0 k1; hashv = hashv XOR push_bit 16 hashv;
              hashv = hashv XOR push_bit 18 (ucast k2)
          in hashv + drop_bit 11 hashv
      | [k0, k1] \<Rightarrow>
          let hashv = hashv + get16bits k0 k1; hashv = hashv XOR push_bit 11 hashv
          in hashv + drop_bit 17 hashv
      | [k0] \<Rightarrow>
          let hashv = hashv + ucast k0; hashv = hashv XOR push_bit 10 hashv
          in hashv + drop_bit 1 hashv
      | _ \<Rightarrow> hashv)"

definition sfh_final :: "byte32 \<Rightarrow> byte32" where
  "sfh_final hashv =
     (let hashv = hashv XOR push_bit 3 hashv; hashv = hashv + drop_bit 5 hashv;
          hashv = hashv XOR push_bit 4 hashv; hashv = hashv + drop_bit 17 hashv;
          hashv = hashv XOR push_bit 25 hashv
      in hashv + drop_bit 6 hashv)"

definition HASH_SFH :: "bytes \<Rightarrow> byte32" where
  "HASH_SFH key = (case sfh_loop 0xcafebabe key of (hashv, rest) \<Rightarrow> sfh_final (sfh_tail hashv rest))"

definition MUR_ROTL32 :: "byte32 \<Rightarrow> nat \<Rightarrow> byte32" where
  "MUR_ROTL32 x r = push_bit r x OR drop_bit (32 - r) x"

definition MUR_FMIX :: "byte32 \<Rightarrow> byte32" where
  "MUR_FMIX h =
     (let h = h XOR drop_bit 16 h; h = h * 0x85ebca6b; h = h XOR drop_bit 13 h; h = h * 0xc2b2ae35
      in h XOR drop_bit 16 h)"

text \<open>\<^verbatim>\<open>MUR_GETBLOCK\<close> where unaligned reads are allowed.\<close>

definition mur_block :: "byte8 \<Rightarrow> byte8 \<Rightarrow> byte8 \<Rightarrow> byte8 \<Rightarrow> byte32" where
  "mur_block k0 k1 k2 k3 =
     ucast k0 OR push_bit 8 (ucast k1) OR push_bit 16 (ucast k2) OR push_bit 24 (ucast k3)"

definition mur_k1 :: "byte32 \<Rightarrow> byte32" where
  "mur_k1 k = MUR_ROTL32 (k * 0xcc9e2d51) 15 * 0x1b873593"

definition mur_round :: "byte32 \<Rightarrow> byte32 \<Rightarrow> byte32" where
  "mur_round h1 k = MUR_ROTL32 (h1 XOR mur_k1 k) 13 * 5 + 0xe6546b64"

fun mur_loop :: "byte32 \<Rightarrow> bytes \<Rightarrow> byte32 \<times> bytes" where
  "mur_loop h1 (k0 # k1 # k2 # k3 # key) = mur_loop (mur_round h1 (mur_block k0 k1 k2 k3)) key"
| "mur_loop h1 key = (h1, key)"

definition mur_tail :: "byte32 \<Rightarrow> bytes \<Rightarrow> byte32" where
  "mur_tail h1 tail =
     (if tail = [] then h1
      else
        let k1 = 0;
            k1 = (if 3 \<le> length tail then k1 XOR push_bit 16 (ucast (tail ! 2)) else k1);
            k1 = (if 2 \<le> length tail then k1 XOR push_bit 8 (ucast (tail ! 1)) else k1);
            k1 = k1 XOR ucast (tail ! 0)
        in h1 XOR mur_k1 k1)"

definition HASH_MUR :: "bytes \<Rightarrow> byte32" where
  "HASH_MUR key =
     (case mur_loop 0xf88D5353 key of (h1, tail) \<Rightarrow>
      MUR_FMIX (mur_tail h1 tail XOR of_nat (length key)))"

section \<open>Block reads where a word must be aligned\<close>

text \<open>
  Off Intel the blocks are read as aligned words of memory (here little-endian) and, when the key
  is not aligned, pieced together from two of them. \<^verbatim>\<open>mem\<close> gives the byte at each address.
\<close>

definition aligned_word :: "(nat \<Rightarrow> byte8) \<Rightarrow> nat \<Rightarrow> byte32" where
  "aligned_word mem a = mur_block (mem a) (mem (a + 1)) (mem (a + 2)) (mem (a + 3))"

definition word_at :: "(nat \<Rightarrow> byte8) \<Rightarrow> nat \<Rightarrow> int \<Rightarrow> byte32" where
  "word_at mem p i = aligned_word mem (nat (int p + 4 * i))"

definition WP :: "nat \<Rightarrow> nat" where "WP p = p div 4 * 4"

definition MUR_THREE_ONE :: "(nat \<Rightarrow> byte8) \<Rightarrow> nat \<Rightarrow> byte32" where
  "MUR_THREE_ONE mem p = drop_bit 8 (aligned_word mem (WP p) AND 0xffffff00)
     OR push_bit 24 (aligned_word mem (WP p + 4) AND 0x000000ff)"

definition MUR_TWO_TWO :: "(nat \<Rightarrow> byte8) \<Rightarrow> nat \<Rightarrow> byte32" where
  "MUR_TWO_TWO mem p = drop_bit 16 (aligned_word mem (WP p) AND 0xffff0000)
     OR push_bit 16 (aligned_word mem (WP p + 4) AND 0x0000ffff)"

definition MUR_ONE_THREE :: "(nat \<Rightarrow> byte8) \<Rightarrow> nat \<Rightarrow> byte32" where
  "MUR_ONE_THREE mem p = drop_bit 24 (aligned_word mem (WP p) AND 0xff000000)
     OR push_bit 8 (aligned_word mem (WP p + 4) AND 0x00ffffff)"

definition MUR_GETBLOCK :: "(nat \<Rightarrow> byte8) \<Rightarrow> nat \<Rightarrow> int \<Rightarrow> byte32" where
  "MUR_GETBLOCK mem p i =
     (if p mod 4 = 0 then word_at mem p i
      else if p mod 4 = 1 then MUR_THREE_ONE mem p
      else if p mod 4 = 2 then MUR_TWO_TWO mem p
      else MUR_ONE_THREE mem p)"

fun mur_scan :: "(int \<Rightarrow> byte32) \<Rightarrow> nat \<Rightarrow> byte32 \<Rightarrow> byte32" where
  "mur_scan getblock 0 h1 = h1"
| "mur_scan getblock (Suc n) h1 = mur_scan getblock n (mur_round h1 (getblock (- int (Suc n))))"

definition HASH_MUR_mem :: "((nat \<Rightarrow> byte8) \<Rightarrow> nat \<Rightarrow> int \<Rightarrow> byte32) \<Rightarrow> (nat \<Rightarrow> byte8) \<Rightarrow> nat \<Rightarrow> nat \<Rightarrow> byte32" where
  "HASH_MUR_mem getblock mem key keylen =
     (let nblocks = keylen div 4; blocks = key + nblocks * 4;
          h1 = mur_scan (getblock mem blocks) nblocks 0xf88D5353;
          tail = map mem [blocks..<blocks + keylen mod 4]
      in MUR_FMIX (mur_tail h1 tail XOR of_nat keylen))"

section \<open>Steps that lose nothing\<close>

lemma mult_inverse_inj:
  fixes c d x y :: byte32
  assumes "c * d = 1" "x * c = y * c"
  shows "x = y"
proof -
  have "x = x * (c * d)" by (simp add: assms(1))
  also have "\<dots> = y * (c * d)" using assms(2) by (simp flip: mult.assoc)
  finally show ?thesis by (simp add: assms(1))
qed

lemma xor_shift_inj:
  fixes x y :: byte32
  assumes "x XOR drop_bit n x = y XOR drop_bit n y" "0 < n"
  shows "x = y"
proof -
  have "bit x i = bit y i" for i
  proof (induction "32 - i" arbitrary: i rule: less_induct)
    case less
    show ?case
    proof (cases "i < 32")
      case True
      have "bit (x XOR drop_bit n x) i = bit (y XOR drop_bit n y) i" by (simp add: assms(1))
      moreover have "bit x (i + n) = bit y (i + n)" by (rule less) (use True assms(2) in simp)
      ultimately show ?thesis by (auto simp: bit_simps ac_simps)
    next
      case False
      then show ?thesis by (simp add: bit_word.rep_eq bit_take_bit_iff)
    qed
  qed
  then show ?thesis by (simp add: bit_eq_iff)
qed

lemma shift_add: "push_bit n (h :: byte32) + h = h * (2 ^ n + 1)" "h + push_bit n h = h * (2 ^ n + 1)"
  by (simp_all add: push_bit_eq_mult algebra_simps)

lemma ucast_byte_inj: "(ucast (a :: byte8) :: byte32) = ucast b \<longleftrightarrow> a = b"
proof
  assume "(ucast a :: byte32) = ucast b"
  then have "unat (ucast a :: byte32) = unat (ucast b :: byte32)" by simp
  then show "a = b" by (simp add: unsigned_ucast_eq take_bit_nat_eq_self word_unat_eq_iff
        order.strict_trans [OF unat_byte8_less])
qed simp

section \<open>Keys that differ in one byte\<close>

locale absorbing =
  fixes step :: "'s \<Rightarrow> 'b \<Rightarrow> 's"
  assumes state_inj: "step h b = step h' b \<Longrightarrow> h = h'"
    and input_inj: "step h b = step h b' \<Longrightarrow> b = b'"
begin

lemma rest_inj: "foldl step h xs = foldl step h' xs \<Longrightarrow> h = h'"
  by (induction xs arbitrary: h h') (auto dest: state_inj)

lemma one_input: "foldl step h (xs @ b # ys) = foldl step h (xs @ b' # ys) \<Longrightarrow> b = b'"
  by (simp, drule rest_inj) (rule input_inj)

end

lemma ber_step_eq: "ber_step h b = h * 33 + ucast b"
  by (simp add: ber_step_def shift_add)

lemma oat_step_eq: "oat_step h b = (let k = (h + ucast b) * 1025 in k XOR drop_bit 6 k)"
  by (simp add: oat_step_def shift_add Let_def)

interpretation ber: absorbing ber_step
proof
  show "h = h'" if "ber_step h b = ber_step h' b" for h h' b
    using that mult_inverse_inj [of 33 1041204193 h h'] by (simp add: ber_step_eq)
  show "b = b'" if "ber_step h b = ber_step h b'" for h b b'
    using that by (simp add: ber_step_eq ucast_byte_inj)
qed

lemma xor_left_inj: "(a :: byte32) XOR b = a XOR c \<longleftrightarrow> b = c"
  by (metis xor.left_neutral xor.assoc xor_self_eq)

lemma xor_right_inj: "(b :: byte32) XOR a = c XOR a \<longleftrightarrow> b = c"
  by (simp add: xor_left_inj xor.commute [of _ a])

interpretation fnv: absorbing fnv_step
proof
  show "h = h'" if "fnv_step h b = fnv_step h' b" for h h' b
    using that mult_inverse_inj [of 16777619 899433627 "h XOR ucast b" "h' XOR ucast b"]
    by (simp add: fnv_step_def xor_right_inj)
  show "b = b'" if "fnv_step h b = fnv_step h b'" for h b b'
    using that mult_inverse_inj [of 16777619 899433627 "h XOR ucast b" "h XOR ucast b'"]
    by (simp add: fnv_step_def xor_left_inj ucast_byte_inj)
qed

lemma oat_core: "oat_step h b = oat_step h' b' \<Longrightarrow> h + ucast b = h' + ucast b'"
  using xor_shift_inj [of "(h + ucast b) * 1025" 6 "(h' + ucast b') * 1025"]
    mult_inverse_inj [of 1025 3222273025 "h + ucast b" "h' + ucast b'"]
  by (simp add: oat_step_eq Let_def)

interpretation oat: absorbing oat_step
proof
  show "h = h'" if "oat_step h b = oat_step h' b" for h h' b using oat_core [OF that] by simp
  show "b = b'" if "oat_step h b = oat_step h b'" for h b b'
    using oat_core [OF that] by (simp add: ucast_byte_inj)
qed

lemma oat_final_inj: "oat_final h = oat_final h' \<Longrightarrow> h = h'"
  using mult_inverse_inj [of 32769 1073709057 "h * 9 XOR drop_bit 11 (h * 9)" "h' * 9 XOR drop_bit 11 (h' * 9)"]
    xor_shift_inj [of "h * 9" 11 "h' * 9"] mult_inverse_inj [of 9 954437177 h h']
  by (simp add: oat_final_def Let_def shift_add)

lemma MUR_FMIX_inj: "MUR_FMIX h = MUR_FMIX h' \<Longrightarrow> h = h'"
  by (simp add: MUR_FMIX_def Let_def, drule xor_shift_inj, simp, drule mult_inverse_inj [rotated, of _ _ _ 2127672349],
      simp, drule xor_shift_inj, simp, drule mult_inverse_inj [rotated, of _ _ _ 2781581891], simp, drule xor_shift_inj, simp, assumption)

lemma MUR_ROTL32_inj:
  assumes "MUR_ROTL32 x r = MUR_ROTL32 y r" "r \<le> 32" shows "x = y"
proof -
  have "bit (MUR_ROTL32 z r) ((i + r) mod 32) = bit z i" if "i < 32" for z :: byte32 and i
    using that assms(2)
    by (cases "i + r < 32") (auto simp: MUR_ROTL32_def bit_simps mod_if dest: bit_imp_le_length)
  with assms(1) have "bit x i = bit y i" if "i < 32" for i using that by metis
  then show ?thesis by (intro bit_word_eqI) simp
qed

lemma mur_k1_inj [simp]: "mur_k1 k = mur_k1 k' \<longleftrightarrow> k = k'"
proof
  assume "mur_k1 k = mur_k1 k'"
  then have "MUR_ROTL32 (k * 0xcc9e2d51) 15 = MUR_ROTL32 (k' * 0xcc9e2d51) 15"
    using mult_inverse_inj [of 461845907 1458385051 "MUR_ROTL32 (k * 0xcc9e2d51) 15"
        "MUR_ROTL32 (k' * 0xcc9e2d51) 15"]
    by (simp add: mur_k1_def)
  then have "k * 0xcc9e2d51 = k' * 0xcc9e2d51" by (rule MUR_ROTL32_inj) simp
  then show "k = k'" using mult_inverse_inj [of 3432918353 3739302833 k k'] by simp
qed simp

lemma mur_round_core: "mur_round h k = mur_round h' k' \<Longrightarrow> h XOR mur_k1 k = h' XOR mur_k1 k'"
  using mult_inverse_inj [of 5 3435973837 "MUR_ROTL32 (h XOR mur_k1 k) 13" "MUR_ROTL32 (h' XOR mur_k1 k') 13"]
    MUR_ROTL32_inj [of "h XOR mur_k1 k" 13 "h' XOR mur_k1 k'"]
  by (simp add: mur_round_def)

interpretation mur: absorbing mur_round
proof
  show "h = h'" if "mur_round h k = mur_round h' k" for h h' k
    using mur_round_core [OF that] by (simp add: xor_right_inj)
  show "k = k'" if "mur_round h k = mur_round h k'" for h k k'
    using mur_round_core [OF that] by (simp add: xor_left_inj)
qed

lemma bit_mur_block:
  "bit (mur_block a b c d) i \<longleftrightarrow>
     (if i < 8 then bit a i else if i < 16 then bit b (i - 8) else if i < 24 then bit c (i - 16)
      else bit d (i - 24))"
  by (auto simp: mur_block_def bit_simps dest: bit_imp_le_length)

lemma mur_block_inj [simp]:
  "mur_block a b c d = mur_block a' b' c' d' \<longleftrightarrow> a = a' \<and> b = b' \<and> c = c' \<and> d = d'"
proof
  assume eq: "mur_block a b c d = mur_block a' b' c' d'"
  have "bit (mur_block a b c d) i = bit (mur_block a' b' c' d') i" for i by (simp add: eq)
  note * = this [unfolded bit_mur_block]
  have "bit a i = bit a' i" "bit b i = bit b' i" "bit c i = bit c' i" "bit d i = bit d' i" if "i < 8" for i
    using that * [of i] * [of "i + 8"] * [of "i + 16"] * [of "i + 24"] by simp_all
  then show "a = a' \<and> b = b' \<and> c = c' \<and> d = d'" by (auto intro: bit_word_eqI)
qed simp

definition mur_end :: "byte32 \<Rightarrow> bytes \<Rightarrow> byte32" where
  "mur_end h key = (case mur_loop h key of (h1, tail) \<Rightarrow> mur_tail h1 tail)"

lemma mur_blocks:
  "mur_block a 0 0 0 = ucast a"
  "mur_block a b 0 0 = push_bit 8 (ucast b) XOR ucast a"
  "mur_block a b c 0 = (push_bit 16 (ucast c) XOR push_bit 8 (ucast b)) XOR ucast a"
  by (auto simp: bit_eq_iff bit_simps bit_mur_block dest: bit_imp_le_length)

lemma mur_end_simps [simp]:
  "mur_end h (a # b # c # d # key) = mur_end (mur_round h (mur_block a b c d)) key"
  "mur_end h [] = h"
  "mur_end h [a] = h XOR mur_k1 (mur_block a 0 0 0)"
  "mur_end h [a, b] = h XOR mur_k1 (mur_block a b 0 0)"
  "mur_end h [a, b, c] = h XOR mur_k1 (mur_block a b c 0)"
  by (simp_all add: mur_end_def mur_tail_def mur_blocks)

lemma mur_end_state: "mur_end h key = mur_end h' key \<Longrightarrow> h = h'"
  by (induction h key arbitrary: h' rule: mur_loop.induct)
    (auto simp: xor_right_inj dest: mur.state_inj)

lemma short_list_cases:
  obtains "ys = []" | a where "ys = [a]" | a b where "ys = [a, b]" | a b c d zs where "ys = a # b # c # zs"
  by (metis neq_Nil_conv)

lemma mur_end_byte: "mur_end h (xs @ b # ys) = mur_end h (xs @ b' # ys) \<Longrightarrow> b = b'"
  by (induction h xs rule: mur_loop.induct; cases ys rule: short_list_cases)
    (auto simp: xor_left_inj xor_right_inj dest!: mur_end_state mur.input_inj)

lemma HASH_MUR_end: "HASH_MUR key = MUR_FMIX (mur_end 0xf88D5353 key XOR of_nat (length key))"
  by (simp add: HASH_MUR_def mur_end_def split: prod.split)

text \<open>C35: the Bernstein, FNV-1a, one-at-a-time and MurmurHash functions never confuse two keys of the
  same length that differ in one byte, wherever that byte is.
\<close>

theorem hashes_tell_one_byte:
  "((HASH_BER (xs @ b # ys) = HASH_BER (xs @ b' # ys)) = (b = b')) \<and>
   ((HASH_FNV (xs @ b # ys) = HASH_FNV (xs @ b' # ys)) = (b = b')) \<and>
   ((HASH_OAT (xs @ b # ys) = HASH_OAT (xs @ b' # ys)) = (b = b')) \<and>
   ((HASH_MUR (xs @ b # ys) = HASH_MUR (xs @ b' # ys)) = (b = b'))"
proof (intro conjI)
  show "(HASH_BER (xs @ b # ys) = HASH_BER (xs @ b' # ys)) = (b = b')"
    unfolding HASH_BER_def by (blast dest: ber.one_input)
  show "(HASH_FNV (xs @ b # ys) = HASH_FNV (xs @ b' # ys)) = (b = b')"
    unfolding HASH_FNV_def by (blast dest: fnv.one_input)
  show "(HASH_OAT (xs @ b # ys) = HASH_OAT (xs @ b' # ys)) = (b = b')"
    unfolding HASH_OAT_def by (blast dest: oat_final_inj oat.one_input)
  show "(HASH_MUR (xs @ b # ys) = HASH_MUR (xs @ b' # ys)) = (b = b')"
    unfolding HASH_MUR_end by (auto simp: xor_right_inj dest!: MUR_FMIX_inj mur_end_byte)
qed

section \<open>What the aligned reads give\<close>

lemma word_at_back: "word_at mem (key + 4 * Suc n) (- int (Suc n)) = aligned_word mem key"
  by (simp add: word_at_def)

lemma mur_loop_short: "r < 4 \<Longrightarrow> length key = r \<Longrightarrow> mur_loop h key = (h, key)"
  by (induction h key rule: mur_loop.induct) auto

lemma upt_4:
  assumes "k + 4 \<le> m" shows "[k..<m] = k # (k + 1) # (k + 2) # (k + 3) # [k + 4..<m]"
  using upt_conv_Cons [of k m] upt_conv_Cons [of "k + 1" m] upt_conv_Cons [of "k + 2" m]
    upt_conv_Cons [of "k + 3" m] assms
  by (simp add: eval_nat_numeral)

lemma mur_scan_loop:
  assumes "r < 4"
  shows "mur_loop h (map mem [key..<key + 4 * n + r])
    = (mur_scan (word_at mem (key + 4 * n)) n h, map mem [key + 4 * n..<key + 4 * n + r])"
proof (induction n arbitrary: key h)
  case 0
  then show ?case using assms by (simp add: mur_loop_short)
next
  case (Suc n)
  have "[key..<key + 4 * Suc n + r]
      = key # (key + 1) # (key + 2) # (key + 3) # [key + 4..<(key + 4) + 4 * n + r]"
    using upt_4 [of key "key + 4 * Suc n + r"] by (simp add: ac_simps)
  moreover have "key + 4 * Suc n = (key + 4) + 4 * n" by simp
  ultimately show ?case
    using Suc [of _ "key + 4"] word_at_back [of mem key n] by (simp add: aligned_word_def add.assoc)
qed

lemma mur_plain_reads:
  "HASH_MUR_mem word_at mem key keylen = HASH_MUR (map mem [key..<key + keylen])"
proof -
  have "key + keylen = key + 4 * (keylen div 4) + keylen mod 4" by simp
  then show ?thesis
    using mur_scan_loop [of "keylen mod 4" _ mem key "keylen div 4"]
    by (simp add: HASH_MUR_mem_def HASH_MUR_def Let_def ac_simps)
qed

text \<open>
  On a key at an aligned address the aligned reads of MurmurHash give the same hash as the
  plain ones.
\<close>

theorem mur_aligned_key:
  assumes "key mod 4 = 0"
  shows "HASH_MUR_mem MUR_GETBLOCK mem key keylen = HASH_MUR (map mem [key..<key + keylen])"
proof -
  have "MUR_GETBLOCK mem (key + keylen div 4 * 4) = word_at mem (key + keylen div 4 * 4)"
    using assms by (auto simp: MUR_GETBLOCK_def)
  then show ?thesis by (simp add: HASH_MUR_mem_def Let_def flip: mur_plain_reads)
qed

theorem mur_aligned_key_witness:
  "HASH_MUR_mem MUR_GETBLOCK of_nat 8 5 = HASH_MUR [8, 9, 10, 11, 12]"
  using mur_aligned_key [of 8 of_nat 5] by (simp add: upt_conv_Cons)

lemma masks:
  "(0xffffff00 :: byte32) = NOT (mask 8)" "(0xffff0000 :: byte32) = NOT (mask 16)"
  "(0xff000000 :: byte32) = NOT (mask 24)" "(0x000000ff :: byte32) = mask 8"
  "(0x0000ffff :: byte32) = mask 16" "(0x00ffffff :: byte32) = mask 24"
  by (simp_all add: mask_eq_exp_minus_1)

lemma block_pieces:
  "drop_bit 8 (mur_block a b c d AND NOT (mask 8)) OR push_bit 24 (mur_block e f g h AND mask 8)
    = mur_block b c d e"
  "drop_bit 16 (mur_block a b c d AND NOT (mask 16)) OR push_bit 16 (mur_block e f g h AND mask 16)
    = mur_block c d e f"
  "drop_bit 24 (mur_block a b c d AND NOT (mask 24)) OR push_bit 8 (mur_block e f g h AND mask 24)
    = mur_block d e f g"
  by (intro bit_word_eqI; auto simp: bit_simps bit_mur_block dest: bit_imp_le_length)+

lemma mur_pieces:
  "MUR_THREE_ONE mem p = aligned_word mem (WP p + 1)" "MUR_TWO_TWO mem p = aligned_word mem (WP p + 2)"
  "MUR_ONE_THREE mem p = aligned_word mem (WP p + 3)"
  unfolding MUR_THREE_ONE_def MUR_TWO_TWO_def MUR_ONE_THREE_def aligned_word_def masks block_pieces
  by (simp_all add: eval_nat_numeral)

lemma getblock_misaligned:
  assumes "p mod 4 \<noteq> 0" shows "MUR_GETBLOCK mem p i = aligned_word mem p"
proof -
  have p: "p = WP p + p mod 4" by (simp add: WP_def)
  from assms consider "p mod 4 = 1" | "p mod 4 = 2" | "p mod 4 = 3" by linarith
  then show ?thesis
  proof cases
    case 1 with p show ?thesis by (simp add: MUR_GETBLOCK_def mur_pieces)
  next
    case 2 with p show ?thesis by (simp add: MUR_GETBLOCK_def mur_pieces)
  next
    case 3 with p show ?thesis by (simp add: MUR_GETBLOCK_def mur_pieces)
  qed
qed

text \<open>C36: on a key at any other address the code that pieces a block together reads at the end of the
  blocks, whichever block it is asked for: two memories that agree from there on give the same
  hash, whatever the blocks of the key hold.
\<close>

theorem mur_misaligned_key:
  assumes "key mod 4 \<noteq> 0" "\<forall>a \<ge> key + keylen div 4 * 4. mem a = mem' a"
  shows "HASH_MUR_mem MUR_GETBLOCK mem key keylen = HASH_MUR_mem MUR_GETBLOCK mem' key keylen"
proof -
  have "MUR_GETBLOCK mem (key + keylen div 4 * 4) = MUR_GETBLOCK mem' (key + keylen div 4 * 4)"
    using assms by (simp add: getblock_misaligned aligned_word_def fun_eq_iff)
  moreover have "map mem [key + keylen div 4 * 4..<key + keylen div 4 * 4 + keylen mod 4]
      = map mem' [key + keylen div 4 * 4..<key + keylen div 4 * 4 + keylen mod 4]"
    using assms(2) by simp
  ultimately show ?thesis unfolding HASH_MUR_mem_def Let_def by (simp only:)
qed

theorem mur_misaligned_key_witness:
  "map (\<lambda>a. if a < 5 then 0 else 7) [1..<7] \<noteq> map (\<lambda>a. if a < 5 then 1 else 7 :: byte8) [1..<7]
   \<and> HASH_MUR_mem MUR_GETBLOCK (\<lambda>a. if a < 5 then 0 else 7) 1 6
     = HASH_MUR_mem MUR_GETBLOCK (\<lambda>a. if a < 5 then 1 else 7) 1 6"
  using mur_misaligned_key [of 1 6 "\<lambda>a. if a < 5 then 0 else 7" "\<lambda>a. if a < 5 then 1 else 7"]
  by (simp add: upt_conv_Cons)

end
