(* ===== verification/Uthash_Bloom.thy ===== *)
theory Uthash_Bloom
  imports Uthash_Sort
begin

text \<open>
  The Bloom filter that \<^verbatim>\<open>src/src/libraries/uthash.h\<close> keeps in a table when \<^verbatim>\<open>HASH_BLOOM\<close> is
  defined: a bit array indexed by the low bits of the hash, asked before a bucket is searched. The
  locale \<open>set_filter\<close> is the contract the search relies on; the code's filter provides it.
\<close>

section \<open>The filter\<close>

record bloom =
  bloom_bv :: bytes
  bloom_sig :: byte32
  bloom_nbits :: byte8

definition HASH_BLOOM_SIGNATURE :: byte32 where "HASH_BLOOM_SIGNATURE = 0xb12220f2"

definition HASH_BLOOM_BITLEN :: "byte8 \<Rightarrow> size_t" where
  "HASH_BLOOM_BITLEN nbits = push_bit (unat nbits) 1"

definition HASH_BLOOM_BYTELEN :: "byte8 \<Rightarrow> size_t" where
  "HASH_BLOOM_BYTELEN nbits =
     HASH_BLOOM_BITLEN nbits div 8 + (if HASH_BLOOM_BITLEN nbits mod 8 \<noteq> 0 then 1 else 0)"

text \<open>\<^verbatim>\<open>malloced\<close> is what the allocator returns: no block, or a block with whatever is in it.\<close>

definition HASH_BLOOM_MAKE :: "byte8 \<Rightarrow> bytes option \<Rightarrow> fault + bloom" where
  "HASH_BLOOM_MAKE HASH_BLOOM malloced =
     (case malloced of
        None \<Rightarrow> Inl (ProgramExit (-1))
      | Some bv \<Rightarrow>
          if length bv < unat (HASH_BLOOM_BYTELEN HASH_BLOOM) then Inl OutOfBounds
          else Inr \<lparr>bloom_bv = replicate (unat (HASH_BLOOM_BYTELEN HASH_BLOOM)) 0
                      @ drop (unat (HASH_BLOOM_BYTELEN HASH_BLOOM)) bv,
                    bloom_sig = HASH_BLOOM_SIGNATURE, bloom_nbits = HASH_BLOOM\<rparr>)"

definition HASH_BLOOM_BITSET :: "bytes \<Rightarrow> byte32 \<Rightarrow> fault + bytes" where
  "HASH_BLOOM_BITSET bv idx =
     (if unat (idx div 8) < length bv
      then Inr (bv[unat (idx div 8) :=
                    ucast (ucast (bv ! unat (idx div 8)) OR push_bit (unat (idx mod 8)) (1 :: byte32))])
      else Inl OutOfBounds)"

definition HASH_BLOOM_BITTEST :: "bytes \<Rightarrow> byte32 \<Rightarrow> fault + byte32" where
  "HASH_BLOOM_BITTEST bv idx =
     (if unat (idx div 8) < length bv
      then Inr (ucast (bv ! unat (idx div 8)) AND push_bit (unat (idx mod 8)) 1)
      else Inl OutOfBounds)"

definition bloom_index :: "byte8 \<Rightarrow> byte32 \<Rightarrow> byte32" where
  "bloom_index nbits hashv = hashv AND ucast (push_bit (unat nbits) (1 :: size_t) - 1)"

definition HASH_BLOOM_ADD :: "bloom \<Rightarrow> byte32 \<Rightarrow> fault + bloom" where
  "HASH_BLOOM_ADD tbl hashv =
     bindr (HASH_BLOOM_BITSET (bloom_bv tbl) (bloom_index (bloom_nbits tbl) hashv))
       (\<lambda>bv. Inr (tbl\<lparr>bloom_bv := bv\<rparr>))"

definition HASH_BLOOM_TEST :: "bloom \<Rightarrow> byte32 \<Rightarrow> fault + byte32" where
  "HASH_BLOOM_TEST tbl hashv =
     HASH_BLOOM_BITTEST (bloom_bv tbl) (bloom_index (bloom_nbits tbl) hashv)"

section \<open>What a search may rely on\<close>

fun add_all :: "('f \<Rightarrow> 'h \<Rightarrow> fault + 'f) \<Rightarrow> 'f \<Rightarrow> 'h list \<Rightarrow> fault + 'f" where
  "add_all add f [] = Inr f"
| "add_all add f (h # hs) = bindr (add f h) (\<lambda>f. add_all add f hs)"

locale set_filter =
  fixes ok :: "'f \<Rightarrow> bool" and slots :: "'f \<Rightarrow> 's set" and slot :: "'h \<Rightarrow> 's"
    and add :: "'f \<Rightarrow> 'h \<Rightarrow> fault + 'f" and test :: "'f \<Rightarrow> 'h \<Rightarrow> fault + byte32"
  assumes add_slot: "ok f \<Longrightarrow> \<exists>f'. add f h = Inr f' \<and> ok f' \<and> slots f' = insert (slot h) (slots f)"
    and test_slot: "ok f \<Longrightarrow> \<exists>w. test f h = Inr w \<and> (w \<noteq> 0 \<longleftrightarrow> slot h \<in> slots f)"
begin

lemma add_all_slots:
  "ok f \<Longrightarrow> \<exists>f'. add_all add f hs = Inr f' \<and> ok f' \<and> slots f' = slot ` set hs \<union> slots f"
proof (induction hs arbitrary: f)
  case (Cons h hs)
  from add_slot [OF Cons.prems] obtain f1
    where f1: "add f h = Inr f1" "ok f1" "slots f1 = insert (slot h) (slots f)" by blast
  with Cons.IH [OF f1(2)] show ?case by auto
qed simp

lemma filter_exact:
  assumes "ok f" "slots f = {}"
  shows "\<exists>f'. add_all add f hs = Inr f' \<and>
    (\<forall>h. \<exists>w. test f' h = Inr w \<and> (w \<noteq> 0 \<longleftrightarrow> (\<exists>h' \<in> set hs. slot h' = slot h)))"
proof -
  from add_all_slots [OF assms(1), of hs] obtain f'
    where f': "add_all add f hs = Inr f'" "ok f'" "slots f' = slot ` set hs" by (auto simp: assms(2))
  then have "\<exists>w. test f' h = Inr w \<and> (w \<noteq> 0 \<longleftrightarrow> (\<exists>h' \<in> set hs. slot h' = slot h))" for h
    using test_slot [OF f'(2), of h] by (auto simp: image_iff eq_commute)
  with f'(1) show ?thesis by blast
qed

end

section \<open>The code's filter keeps the contract\<close>

definition bloom_ok :: "byte8 \<Rightarrow> bloom \<Rightarrow> bool" where
  "bloom_ok nbits tbl \<longleftrightarrow> bloom_nbits tbl = nbits \<and> 2 ^ unat nbits \<le> 8 * length (bloom_bv tbl)"

definition bloom_slots :: "bloom \<Rightarrow> byte32 set" where
  "bloom_slots tbl =
     {i. unat i < 2 ^ unat (bloom_nbits tbl) \<and> bit (bloom_bv tbl ! (unat i div 8)) (unat i mod 8)}"

lemma low_bits: "push_bit n (1 :: size_t) - 1 = mask n"
  by (simp add: mask_eq_exp_minus_1 push_bit_of_1)

lemma bloom_index_eq: "unat nbits < 64 \<Longrightarrow> bloom_index nbits hashv = take_bit (unat nbits) hashv"
  unfolding bloom_index_def low_bits by (auto simp: bit_eq_iff bit_simps dest: bit_imp_le_length)

lemma bloom_index_less: "unat nbits < 64 \<Longrightarrow> unat (bloom_index nbits hashv) < 2 ^ unat nbits"
  by (simp add: bloom_index_eq unsigned_take_bit_eq)

lemma bitset_bit:
  "bit (ucast (ucast (b :: byte8) OR push_bit k (1 :: byte32)) :: byte8) j \<longleftrightarrow> bit b j \<or> j = k \<and> j < 8"
  by (auto simp: bit_simps dest: bit_imp_le_length)

lemma bittest_bit:
  assumes "k < 8"
  shows "ucast (b :: byte8) AND push_bit k 1 \<noteq> (0 :: byte32) \<longleftrightarrow> bit b k"
proof -
  have "bit (ucast b AND push_bit k 1 :: byte32) i \<longleftrightarrow> i = k \<and> bit b k" for i
    using assms by (auto simp: bit_simps)
  then show ?thesis by (metis bit_0_eq bit_eq_iff bot_apply bot_bool_def)
qed

lemma byte_of_index:
  assumes "bloom_ok nbits tbl" "unat nbits < 64" "i = unat (bloom_index nbits hashv)"
  shows "i < 2 ^ unat (bloom_nbits tbl)" "i div 8 < length (bloom_bv tbl)"
    "unat (bloom_index nbits hashv div 8) = i div 8" "unat (bloom_index nbits hashv mod 8) = i mod 8"
proof -
  show "i < 2 ^ unat (bloom_nbits tbl)"
    using bloom_index_less [OF assms(2), of hashv] assms(1,3) by (simp add: bloom_ok_def)
  then have "i < 8 * length (bloom_bv tbl)" using assms(1) by (simp add: bloom_ok_def)
  then show "i div 8 < length (bloom_bv tbl)" by auto
qed (simp_all add: assms(3) unat_div unat_mod)

lemma bloom_add_slot:
  assumes ok: "bloom_ok nbits tbl" and n: "unat nbits < 64"
  shows "\<exists>tbl'. HASH_BLOOM_ADD tbl hashv = Inr tbl' \<and> bloom_ok nbits tbl' \<and>
    bloom_slots tbl' = insert (bloom_index nbits hashv) (bloom_slots tbl)"
proof -
  define i where "i = unat (bloom_index nbits hashv)"
  note b = byte_of_index [OF ok n i_def]
  let ?bv = "bloom_bv tbl"
  let ?byte = "ucast (ucast (?bv ! (i div 8)) OR push_bit (i mod 8) (1 :: byte32)) :: byte8"
  let ?tbl = "tbl\<lparr>bloom_bv := ?bv[i div 8 := ?byte]\<rparr>"
  have "HASH_BLOOM_ADD tbl hashv = Inr ?tbl"
    using ok b by (simp add: HASH_BLOOM_ADD_def HASH_BLOOM_BITSET_def bloom_ok_def)
  moreover have "bit (?bv[i div 8 := ?byte] ! (j div 8)) (j mod 8) \<longleftrightarrow> bit (?bv ! (j div 8)) (j mod 8) \<or> j = i"
    for j
  proof (cases "j div 8 = i div 8")
    case True
    then have "j mod 8 = i mod 8 \<longleftrightarrow> j = i" by (metis div_mult_mod_eq)
    with True b(2) show ?thesis by (simp add: bitset_bit [unfolded push_bit_of_1])
  qed auto
  then have "bloom_slots ?tbl = insert (bloom_index nbits hashv) (bloom_slots tbl)"
    using b(1) by (auto simp: bloom_slots_def i_def word_unat_eq_iff)
  moreover have "bloom_ok nbits ?tbl" using ok by (simp add: bloom_ok_def)
  ultimately show ?thesis unfolding i_def by blast
qed

lemma bloom_test_slot:
  assumes ok: "bloom_ok nbits tbl" and n: "unat nbits < 64"
  shows "\<exists>w. HASH_BLOOM_TEST tbl hashv = Inr w \<and>
    (w \<noteq> 0 \<longleftrightarrow> bloom_index nbits hashv \<in> bloom_slots tbl)"
proof -
  define i where "i = unat (bloom_index nbits hashv)"
  note b = byte_of_index [OF ok n i_def]
  have "HASH_BLOOM_TEST tbl hashv = Inr (ucast (bloom_bv tbl ! (i div 8)) AND push_bit (i mod 8) 1)"
    using ok b by (simp add: HASH_BLOOM_TEST_def HASH_BLOOM_BITTEST_def bloom_ok_def)
  moreover have "ucast (bloom_bv tbl ! (i div 8)) AND push_bit (i mod 8) 1 \<noteq> (0 :: byte32)
      \<longleftrightarrow> bloom_index nbits hashv \<in> bloom_slots tbl"
    using b(1) by (simp add: bittest_bit [unfolded push_bit_of_1] bloom_slots_def i_def)
  ultimately show ?thesis by blast
qed

text \<open>A filter of more than \<open>2 ^ 63\<close> bits cannot be asked for: its length is no \<^verbatim>\<open>unsigned long\<close>.\<close>

interpretation bloom: set_filter
  "\<lambda>tbl. bloom_ok nbits tbl \<and> unat nbits < 64" bloom_slots "bloom_index nbits"
  HASH_BLOOM_ADD HASH_BLOOM_TEST
  for nbits
  by unfold_locales (use bloom_add_slot bloom_test_slot in blast)+

lemma bytelen_covers:
  assumes "unat nbits < 64" shows "2 ^ unat nbits \<le> 8 * unat (HASH_BLOOM_BYTELEN nbits)"
proof -
  let ?l = "HASH_BLOOM_BITLEN nbits"
  have l: "unat ?l = 2 ^ unat nbits"
    using assms by (simp add: HASH_BLOOM_BITLEN_def unsigned_push_bit_eq take_bit_nat_eq_self del: push_bit_of_1)
  have "(?l mod 8 = 0) = (unat ?l mod 8 = 0)" "unat (?l div 8) = unat ?l div 8"
    by (simp_all add: word_unat_eq_iff unat_mod unat_div)
  moreover have "unat ?l div 8 + 1 < 2 ^ 64" using unsigned_less [of ?l, where 'a = nat] by simp
  ultimately have "unat (HASH_BLOOM_BYTELEN nbits) = unat ?l div 8 + (if unat ?l mod 8 \<noteq> 0 then 1 else 0)"
    by (simp add: HASH_BLOOM_BYTELEN_def unat_word_ariths)
  then show ?thesis unfolding l [symmetric] by (simp; presburger)
qed

lemma HASH_BLOOM_MAKE_ok:
  assumes "HASH_BLOOM_MAKE nbits malloced = Inr tbl" "unat nbits < 64"
  shows "bloom_ok nbits tbl" "bloom_slots tbl = {}"
proof -
  let ?n = "unat (HASH_BLOOM_BYTELEN nbits)"
  from assms(1) have bv: "?n \<le> length (bloom_bv tbl)" "bloom_nbits tbl = nbits"
    "take ?n (bloom_bv tbl) = replicate ?n 0"
    by (cases malloced; force simp: HASH_BLOOM_MAKE_def split: if_splits)+
  note n = bytelen_covers [OF assms(2)]
  from bv n show "bloom_ok nbits tbl" by (simp add: bloom_ok_def)
  have "bloom_bv tbl ! (i div 8) = 0" if "i < 2 ^ unat nbits" for i
  proof -
    have "i div 8 < ?n" using that n by auto
    then show ?thesis using bv(3) by (metis nth_replicate nth_take)
  qed
  then show "bloom_slots tbl = {}" by (simp add: bloom_slots_def bv(2))
qed

text \<open>
  A filter that \<^verbatim>\<open>HASH_BLOOM_MAKE\<close> made and to which any hashes were added never touches a byte
  outside its array, and its test is exact up to the low bits of the hash: it says yes for every
  hash that was added, and for no hash whose low bits differ from those of all of them.
\<close>

theorem bloom_exact:
  assumes "HASH_BLOOM_MAKE nbits malloced = Inr tbl" "unat nbits < 64"
  shows "\<exists>tbl'. add_all HASH_BLOOM_ADD tbl hs = Inr tbl' \<and>
    (\<forall>h. \<exists>w. HASH_BLOOM_TEST tbl' h = Inr w \<and>
      (w \<noteq> 0) = (\<exists>h' \<in> set hs. take_bit (unat nbits) h' = take_bit (unat nbits) h))"
  using bloom.filter_exact [of nbits tbl hs] HASH_BLOOM_MAKE_ok [OF assms] assms(2)
  by (simp add: bloom_index_eq)

theorem bloom_exact_witness:
  "\<exists>tbl. HASH_BLOOM_MAKE 4 (Some [7, 7]) = Inr tbl \<and>
    (\<exists>tbl'. add_all HASH_BLOOM_ADD tbl [5, 18] = Inr tbl' \<and>
      (\<exists>w. HASH_BLOOM_TEST tbl' 21 = Inr w \<and> w \<noteq> 0) \<and> HASH_BLOOM_TEST tbl' 3 = Inr 0)"
proof -
  obtain tbl where tbl: "HASH_BLOOM_MAKE 4 (Some [7, 7]) = Inr tbl"
    by (simp add: HASH_BLOOM_MAKE_def HASH_BLOOM_BYTELEN_def HASH_BLOOM_BITLEN_def)
  obtain tbl' where "add_all HASH_BLOOM_ADD tbl [5, 18] = Inr tbl'"
    and *: "\<forall>h. \<exists>w. HASH_BLOOM_TEST tbl' h = Inr w \<and>
      (w \<noteq> 0) = (\<exists>h' \<in> set [5, 18]. take_bit (unat (4 :: byte8)) h' = take_bit (unat (4 :: byte8)) h)"
    using bloom_exact [OF tbl, of "[5, 18]"] by auto
  moreover from * [rule_format, of 21] have "\<exists>w. HASH_BLOOM_TEST tbl' 21 = Inr w \<and> w \<noteq> 0"
    by (simp add: take_bit_word_eq_self) 
  moreover from * [rule_format, of 3] have "HASH_BLOOM_TEST tbl' 3 = Inr 0" by simp
  ultimately show ?thesis using tbl by blast
qed

section \<open>Searching through the filter\<close>

text \<open>\<^verbatim>\<open>HASH_FIND\<close> with \<^verbatim>\<open>HASH_BLOOM\<close> defined: the table and its filter.\<close>

definition HASH_FIND_bloom :: "heap \<Rightarrow> (ut_table \<times> bloom) option \<Rightarrow> ptr \<Rightarrow> byte32 \<Rightarrow> fault + nat option" where
  "HASH_FIND_bloom hp head keyptr keylen =
     (case head of None \<Rightarrow> Inr None
      | Some (tbl, bloom) \<Rightarrow>
          bindr (HASH_VALUE keyptr (unat keylen)) (\<lambda>hashv.
          bindr (HASH_BLOOM_TEST bloom hashv) (\<lambda>maybe.
          if maybe \<noteq> 0
          then bindr (bucket_at (tbl_buckets tbl) (HASH_TO_BKT hashv (tbl_num_buckets tbl))) (\<lambda>b.
               HASH_FIND_IN_BKT hp (bkt_chain b) keyptr keylen hashv)
          else Inr None)))"

text \<open>C34: the filter never hides an element: when the hash of every element of the table was added to
  it, whatever else was, the search through the filter returns what the search without it does.
\<close>

theorem bloom_search_agrees:
  assumes ok: "table_ok hp t" and k: "read_bytes p (unat n) = Inr k"
    and made: "HASH_BLOOM_MAKE nbits malloced = Inr bloom0" and nbits: "unat nbits < 64"
    and added: "add_all HASH_BLOOM_ADD bloom0 hs = Inr bloom"
    and all: "(\<lambda>a. HASH_JEN (key_of hp a)) ` set (tbl_order t) \<subseteq> set hs"
  shows "HASH_FIND_bloom hp (Some (t, bloom)) p n = HASH_FIND hp (Some t) p n"
proof -
  have "\<exists>w. HASH_BLOOM_TEST bloom h = Inr w \<and>
      (w \<noteq> 0) = (\<exists>h' \<in> set hs. bloom_index nbits h' = bloom_index nbits h)" for h
    using bloom.filter_exact [of nbits bloom0 hs] HASH_BLOOM_MAKE_ok [OF made nbits] nbits added by simp
  then obtain w where w: "HASH_BLOOM_TEST bloom (HASH_JEN k) = Inr w"
    "(w \<noteq> 0) = (\<exists>h \<in> set hs. bloom_index nbits h = bloom_index nbits (HASH_JEN k))" by blast
  show ?thesis
  proof (cases "w = 0")
    case False
    with w show ?thesis by (simp add: HASH_FIND_bloom_def HASH_FIND_def HASH_VALUE_def k)
  next
    case True
    with w(2) all have "\<forall>a \<in> set (tbl_order t). key_of hp a \<noteq> k" by force
    then have "find (\<lambda>a. key_of hp a = k) (tbl_order t) = None" by (simp add: find_None_iff)
    with True w(1) show ?thesis
      by (simp add: HASH_FIND_spec [OF ok k] HASH_FIND_bloom_def HASH_VALUE_def k)
  qed
qed

theorem bloom_search_agrees_witness:
  "\<exists>bloom0 bloom. HASH_BLOOM_MAKE 4 (Some [7, 7]) = Inr bloom0 \<and>
     add_all HASH_BLOOM_ADD bloom0 [HASH_JEN [1], HASH_JEN [2]] = Inr bloom \<and>
     HASH_FIND_bloom pair_heap (Some (pair_table, bloom)) (Obj [2]) 1
       = HASH_FIND pair_heap (Some pair_table) (Obj [2]) 1"
proof -
  obtain bloom0 where made: "HASH_BLOOM_MAKE 4 (Some [7, 7]) = Inr bloom0"
    by (simp add: HASH_BLOOM_MAKE_def HASH_BLOOM_BYTELEN_def HASH_BLOOM_BITLEN_def)
  have nbits: "unat (4 :: byte8) < 64" by simp
  obtain bloom where added: "add_all HASH_BLOOM_ADD bloom0 [HASH_JEN [1], HASH_JEN [2]] = Inr bloom"
    using bloom.filter_exact [of 4 bloom0 "[HASH_JEN [1], HASH_JEN [2]]"] HASH_BLOOM_MAKE_ok [OF made nbits]
    by auto
  have "read_bytes (Obj [2]) (unat (1 :: byte32)) = Inr [2]" by simp
  moreover have "(\<lambda>a. HASH_JEN (key_of pair_heap a)) ` set (tbl_order pair_table)
      \<subseteq> set [HASH_JEN [1], HASH_JEN [2]]"
    by (simp add: pair_table_def pair_heap_def key_of_def)
  ultimately show ?thesis
    using made added bloom_search_agrees [OF pair_table_ok _ made nbits added] by blast
qed

end
