(* ===== verification/Uthash_Oom.thy ===== *)
theory Uthash_Oom
  imports Uthash_Check
begin

text \<open>
  The insertion of \<^verbatim>\<open>src/src/libraries/uthash.h\<close> as it is compiled with \<^verbatim>\<open>HASH_NONFATAL_OOM\<close>: a
  failed allocation does not end the program but is recorded in a flag, and the element that
  could not be stored is taken out of the table again. The theorem says that nothing else has
  changed. Names end in \<open>_nf\<close>; what the two variants share is the model of \<open>Uthash_Links\<close>.
\<close>

section \<open>The macros\<close>

definition HASH_MAKE_TABLE_nf :: "(nat \<Rightarrow> bool) \<Rightarrow> nat \<Rightarrow> bool \<times> ltable option" where
  "HASH_MAKE_TABLE_nf can_alloc head =
     (if \<not> can_alloc 64 then (True, None)
      else if \<not> can_alloc (unat HASH_INITIAL_NUM_BUCKETS * 16) then (True, None)
      else (False, Some \<lparr>lt_buckets = replicate (unat HASH_INITIAL_NUM_BUCKETS) empty_lbucket,
        lt_num_buckets = HASH_INITIAL_NUM_BUCKETS,
        lt_log2_num_buckets = HASH_INITIAL_NUM_BUCKETS_LOG2, lt_num_items = 0,
        lt_tail = Some head, lt_ideal_chain_maxlen = 0, lt_nonideal_items = 0,
        lt_ineff_expands = 0, lt_noexpand = 0\<rparr>))"

definition HASH_EXPAND_BUCKETS_nf :: "(nat \<Rightarrow> bool) \<Rightarrow> nat \<Rightarrow> heap \<Rightarrow> cells \<Rightarrow> ltable
    \<Rightarrow> fault + bool \<times> cells \<times> ltable" where
  "HASH_EXPAND_BUCKETS_nf can_alloc fuel hp cs lt =
     (if \<not> can_alloc (2 * unat (lt_num_buckets lt) * 16) then Inr (True, cs, lt)
      else bindr (HASH_EXPAND_BUCKETS_p can_alloc fuel hp cs lt) (\<lambda>(cs, lt). Inr (False, cs, lt)))"

definition HASH_ADD_TO_BKT_nf :: "(nat \<Rightarrow> bool) \<Rightarrow> nat \<Rightarrow> heap \<Rightarrow> nat \<Rightarrow> nat \<Rightarrow> cells \<Rightarrow> ltable
    \<Rightarrow> fault + bool \<times> cells \<times> ltable" where
  "HASH_ADD_TO_BKT_nf can_alloc fuel hp bkt add cs lt =
     bindr (lbucket_at (lt_buckets lt) bkt) (\<lambda>b.
     let b = b\<lparr>lb_count := lb_count b + 1\<rparr> in
     bindr (push_links add (lb_head b) cs) (\<lambda>cs.
     let b = b\<lparr>lb_head := Some add\<rparr>; lt = lt\<lparr>lt_buckets := (lt_buckets lt)[bkt := b]\<rparr>
     in if lb_count b \<ge> (lb_expand_mult b + 1) * HASH_BKT_CAPACITY_THRESH \<and> lt_noexpand lt = 0
        then bindr (HASH_EXPAND_BUCKETS_nf can_alloc fuel hp cs lt) (\<lambda>(oomed, cs, lt).
             if oomed then bindr (HASH_DEL_IN_BKT_p bkt add cs lt) (\<lambda>(cs, lt). Inr (True, cs, lt))
             else Inr (False, cs, lt))
        else Inr (False, cs, lt)))"

definition HASH_ROLLBACK_BKT :: "heap \<Rightarrow> nat \<Rightarrow> links \<Rightarrow> fault + links" where
  "HASH_ROLLBACK_BKT hp item s =
     bindr (deref hp item) (\<lambda>e.
     bindr (tbl_of s) (\<lambda>lt.
     let bkt = HASH_TO_BKT (hh_hashv e) (lt_num_buckets lt) in
     bindr (lbucket_at (lt_buckets lt) bkt) (\<lambda>b.
     let lt = lt\<lparr>lt_buckets := (lt_buckets lt)[bkt := b\<lparr>lb_count := lb_count b + 1\<rparr>]\<rparr> in
     bindr (put_next (Some item) None (l_chn s)) (\<lambda>cs.
     bindr (put_prev (Some item) None cs) (\<lambda>cs.
     Inr (s\<lparr>l_chn := cs, l_tbl := Some lt\<rparr>))))))"

text \<open>\<^verbatim>\<open>uthash_nonfatal_oom\<close> does nothing. That \<^verbatim>\<open>hh.tbl\<close> of the element becomes \<^verbatim>\<open>NULL\<close> is not
  visible here: an element out of the table has no table in the model.\<close>

definition HASH_ADD_TO_TABLE_nf :: "(nat \<Rightarrow> bool) \<Rightarrow> nat \<Rightarrow> heap \<Rightarrow> byte32 \<Rightarrow> nat \<Rightarrow> bool \<Rightarrow> links
    \<Rightarrow> fault + bool \<times> links" where
  "HASH_ADD_TO_TABLE_nf can_alloc fuel hp hashval add oomed s =
     (if \<not> oomed then
        bindr (tbl_of s) (\<lambda>lt.
        let lt = lt\<lparr>lt_num_items := lt_num_items lt + 1\<rparr> in
        bindr (HASH_ADD_TO_BKT_nf can_alloc fuel hp (HASH_TO_BKT hashval (lt_num_buckets lt)) add
                 (l_chn s) lt) (\<lambda>(oomed, cs, lt).
        let s = s\<lparr>l_chn := cs, l_tbl := Some lt\<rparr> in
        if oomed then
          bindr (HASH_ROLLBACK_BKT hp add s) (\<lambda>s.
          bindr (HASH_DELETE_p hp s (Some add)) (\<lambda>s. Inr (True, s)))
        else Inr (False, s)))
      else Inr (True, s))"

definition link_element_nf :: "(nat \<Rightarrow> bool) \<Rightarrow> links \<Rightarrow> nat \<Rightarrow> fault + bool \<times> links" where
  "link_element_nf can_alloc s add =
     (if l_head s = None then
        bindr (put_next (Some add) None (l_ord s)) (\<lambda>cs.
        bindr (put_prev (Some add) None cs) (\<lambda>cs.
        case HASH_MAKE_TABLE_nf can_alloc add of (oomed, lt) \<Rightarrow>
        let s = s\<lparr>l_ord := cs\<rparr> in
        Inr (oomed, if \<not> oomed then s\<lparr>l_tbl := lt, l_head := Some add\<rparr> else s)))
      else
        bindr (tbl_of s) (\<lambda>lt.
        bindr (append_links add (lt_tail lt) (l_ord s)) (\<lambda>(cs, tail).
        Inr (False, s\<lparr>l_ord := cs, l_tbl := Some (lt\<lparr>lt_tail := tail\<rparr>)\<rparr>))))"

definition HASH_ADD_KEYPTR_BYHASHVALUE_nf :: "(nat \<Rightarrow> bool) \<Rightarrow> nat \<Rightarrow> heap \<Rightarrow> links \<Rightarrow> ptr \<Rightarrow> size_t
    \<Rightarrow> byte32 \<Rightarrow> nat \<Rightarrow> fault + bool \<times> heap \<times> links" where
  "HASH_ADD_KEYPTR_BYHASHVALUE_nf can_alloc fuel hp s keyptr keylen_in hashval add =
     bindr (deref hp add) (\<lambda>e.
     let hp = hp(add \<mapsto> e\<lparr>hh_hashv := hashval, hh_key := keyptr, hh_keylen := ucast keylen_in\<rparr>) in
     bindr (link_element_nf can_alloc s add) (\<lambda>(oomed, s).
     bindr (HASH_ADD_TO_TABLE_nf can_alloc fuel hp hashval add oomed s) (\<lambda>(oomed, s).
     Inr (oomed, hp, s))))"

definition HASH_ADD_KEYPTR_nf :: "(nat \<Rightarrow> bool) \<Rightarrow> nat \<Rightarrow> heap \<Rightarrow> links \<Rightarrow> ptr \<Rightarrow> size_t \<Rightarrow> nat
    \<Rightarrow> fault + bool \<times> heap \<times> links" where
  "HASH_ADD_KEYPTR_nf can_alloc fuel hp s keyptr keylen_in add =
     bindr (HASH_VALUE keyptr (unat keylen_in)) (\<lambda>hashv.
     HASH_ADD_KEYPTR_BYHASHVALUE_nf can_alloc fuel hp s keyptr keylen_in hashv add)"

section \<open>Linking and unlinking cancel\<close>

lemma push_splice:
  assumes "dseg cs None xs None" "a \<notin> set xs" "cs a = Some c"
  obtains cs' where "push_links a (first_of xs None) cs = Inr cs'"
    "cs' a = Some \<lparr>c_prev = None, c_next = first_of xs None\<rparr>"
    "splice_out a cs' = Inr (cs(a \<mapsto> \<lparr>c_prev = None, c_next = first_of xs None\<rparr>))"
proof (cases xs)
  case Nil
  with assms show thesis
    by (intro that [of "cs(a \<mapsto> \<lparr>c_prev = None, c_next = None\<rparr>)"]) (simp_all add: push_links_def splice_out_def)
next
  case (Cons x ys)
  with assms show thesis
    by (intro that [of "cs(a \<mapsto> \<lparr>c_prev = None, c_next = Some x\<rparr>, x \<mapsto> \<lparr>c_prev = Some a, c_next = first_of ys None\<rparr>)"])
      (simp_all add: push_links_def splice_out_def fun_eq_iff)
qed

lemma append_splice:
  assumes "dseg cs None xs None" "distinct xs" "xs \<noteq> []" "a \<notin> set xs" "cs a = Some c"
  obtains cs' where "append_links a (last_of None xs) cs = Inr (cs', Some a)"
    "cs' a = Some \<lparr>c_prev = last_of None xs, c_next = None\<rparr>"
    "splice_out a cs' = Inr (cs(a \<mapsto> \<lparr>c_prev = last_of None xs, c_next = None\<rparr>))"
proof -
  obtain ys x where xs: "xs = ys @ [x]" using assms(3) by (cases xs rule: rev_cases) auto
  with assms show thesis
    by (intro that [of "cs(a \<mapsto> \<lparr>c_prev = Some x, c_next = None\<rparr>, x \<mapsto> \<lparr>c_prev = last_of None ys, c_next = Some a\<rparr>)"])
      (simp_all add: append_links_def splice_out_def fun_eq_iff)
qed

section \<open>What can end the program\<close>

definition no_exit :: "fault + 'a \<Rightarrow> bool" where
  "no_exit r \<longleftrightarrow> (\<forall>c. r \<noteq> Inl (ProgramExit c))"

lemma no_exit_simps [simp]: "no_exit (Inr x)" "no_exit (Inl f) \<longleftrightarrow> (\<forall>c. f \<noteq> ProgramExit c)"
  by (simp_all add: no_exit_def)

lemma no_exit_bindr [intro]: "no_exit r \<Longrightarrow> (\<And>x. r = Inr x \<Longrightarrow> no_exit (k x)) \<Longrightarrow> no_exit (bindr r k)"
  by (cases r) (auto simp: no_exit_def)

lemma no_exit_reads [simp]:
  "no_exit (cell_at cs p)" "no_exit (deref hp a)" "no_exit (lbucket_at bs i)"
  by (simp_all add: cell_at_def deref_def lbucket_at_def no_exit_def split: option.split)

lemma no_exit_puts [simp]: "no_exit (put_prev p v cs)" "no_exit (put_next p v cs)"
  unfolding put_prev_def put_next_def by (rule no_exit_bindr; simp)+

lemma no_exit_push [simp]: "no_exit (push_links a p cs)"
  unfolding push_links_def by (intro no_exit_bindr) auto

lemma no_exit_step [simp]: "no_exit (rehash_step_p hp num2 ideal a st)"
  unfolding rehash_step_p_def by (auto simp: Let_def intro!: no_exit_bindr split: prod.split)

lemma no_exit_chain [simp]: "no_exit (rehash_chain_p fuel hp num2 ideal p st)"
proof (induction fuel hp num2 ideal p st rule: rehash_chain_p.induct)
  case (3 fuel hp num2 ideal a st)
  show ?case unfolding rehash_chain_p.simps by (intro no_exit_bindr) (simp_all add: 3)
qed simp_all

lemma no_exit_buckets: "no_exit (rehash_buckets_p fuel hp num2 ideal bs st)"
  by (induction bs arbitrary: st) (auto intro!: no_exit_bindr)

lemma no_exit_expand:
  assumes "can_alloc (2 * unat (lt_num_buckets lt) * 16)"
  shows "no_exit (HASH_EXPAND_BUCKETS_p can_alloc fuel hp cs lt)"
  using assms by (auto simp: HASH_EXPAND_BUCKETS_p_def Let_def no_exit_buckets)

section \<open>A failed expansion is undone\<close>

definition flagged :: "fault + 'a \<times> 'b \<Rightarrow> fault + bool \<times> 'a \<times> 'b" where
  "flagged r = bindr r (\<lambda>(x, y). Inr (False, x, y))"

lemma add_to_bkt_nf:
  assumes rel: "tbl_rel cs t lt" and i: "i < length (tbl_buckets t)"
    and a: "a \<notin> set (elems_of (tbl_buckets t))" "cs a = Some c"
  shows "HASH_ADD_TO_BKT_p can_alloc fuel hp i a cs lt = Inl (ProgramExit (-1)) \<and>
      (\<exists>c. HASH_ADD_TO_BKT_nf can_alloc fuel hp i a cs lt = Inr (True, cs(a \<mapsto> c), lt)) \<or>
    HASH_ADD_TO_BKT_nf can_alloc fuel hp i a cs lt = flagged (HASH_ADD_TO_BKT_p can_alloc fuel hp i a cs lt) \<and>
      no_exit (HASH_ADD_TO_BKT_p can_alloc fuel hp i a cs lt)"
proof -
  let ?b = "lt_buckets lt ! i" and ?xs = "bkt_chain (tbl_buckets t ! i)"
  have all: "list_all2 (chain_rel cs) (tbl_buckets t) (lt_buckets lt)"
    using rel by (simp add: tbl_rel_def buckets_rel_def)
  then have b: "lbucket_at (lt_buckets lt) i = Inr ?b" "lb_head ?b = first_of ?xs None" "dseg cs None ?xs None"
    using i list_all2_nthD [OF all i] by (auto simp: lbucket_at_def chain_rel_def dest: list_all2_lengthD)
  have "a \<notin> set ?xs" using a(1) i by auto
  from push_splice [OF b(3) this a(2)] obtain cs' where cs': "push_links a (lb_head ?b) cs = Inr cs'"
    "cs' a = Some \<lparr>c_prev = None, c_next = first_of ?xs None\<rparr>"
    "splice_out a cs' = Inr (cs(a \<mapsto> \<lparr>c_prev = None, c_next = first_of ?xs None\<rparr>))"
    unfolding b(2) .
  define b' where "b' = ?b\<lparr>lb_count := lb_count ?b + 1, lb_head := Some a\<rparr>"
  define lt' where "lt' = lt\<lparr>lt_buckets := (lt_buckets lt)[i := b']\<rparr>"
  define full where "full \<longleftrightarrow> lb_count b' \<ge> (lb_expand_mult b' + 1) * HASH_BKT_CAPACITY_THRESH \<and> lt_noexpand lt = 0"
  have p: "HASH_ADD_TO_BKT_p can_alloc fuel hp i a cs lt =
      (if full then HASH_EXPAND_BUCKETS_p can_alloc fuel hp cs' lt' else Inr (cs', lt'))"
    by (simp add: HASH_ADD_TO_BKT_p_def Let_def b(1) cs'(1) full_def b'_def lt'_def)
  have nf: "HASH_ADD_TO_BKT_nf can_alloc fuel hp i a cs lt =
      (if full then bindr (HASH_EXPAND_BUCKETS_nf can_alloc fuel hp cs' lt') (\<lambda>(oomed, cs, lt).
         if oomed then bindr (HASH_DEL_IN_BKT_p i a cs lt) (\<lambda>(cs, lt). Inr (True, cs, lt))
         else Inr (False, cs, lt)) else Inr (False, cs', lt'))"
    by (simp add: HASH_ADD_TO_BKT_nf_def Let_def b(1) cs'(1) full_def b'_def lt'_def)
  consider "\<not> full" | "full" "can_alloc (2 * unat (lt_num_buckets lt') * 16)"
    | "full" "\<not> can_alloc (2 * unat (lt_num_buckets lt') * 16)" by blast
  then show ?thesis
  proof cases
    case 1
    then show ?thesis by (simp add: p nf flagged_def)
  next
    case 2
    then show ?thesis
      using no_exit_expand [of can_alloc lt' fuel hp cs']
      by (cases "HASH_EXPAND_BUCKETS_p can_alloc fuel hp cs' lt'")
        (auto simp: p nf flagged_def HASH_EXPAND_BUCKETS_nf_def)
  next
    case 3
    have "lbucket_at (lt_buckets lt') i = Inr b'"
      using b(1) by (auto simp: lt'_def lbucket_at_def split: if_splits)
    moreover have "lt'\<lparr>lt_buckets := (lt_buckets lt')[i := ?b]\<rparr> = lt" by (simp add: lt'_def)
    moreover have "b'\<lparr>lb_count := lb_count b' - 1, lb_head := first_of ?xs None\<rparr> = ?b"
      by (simp add: b'_def flip: b(2))
    ultimately have "HASH_DEL_IN_BKT_p i a cs' lt' =
        Inr (cs(a \<mapsto> \<lparr>c_prev = None, c_next = first_of ?xs None\<rparr>), lt)"
      using cs'(2,3) by (simp add: HASH_DEL_IN_BKT_p_def b'_def)
    then show ?thesis using 3 by (simp add: p nf HASH_EXPAND_BUCKETS_nf_def HASH_EXPAND_BUCKETS_p_def) blast
  qed
qed

section \<open>A failed insertion is undone\<close>

text \<open>The state in which the element is in no list again: only its own cells may have changed.\<close>

definition undone :: "nat \<Rightarrow> links \<Rightarrow> links \<Rightarrow> bool" where
  "undone a s s' \<longleftrightarrow> (\<exists>c d. s' = s\<lparr>l_ord := (l_ord s)(a \<mapsto> c), l_chn := (l_chn s)(a \<mapsto> d)\<rparr>)"

definition flagged1 :: "fault + 'a \<Rightarrow> fault + bool \<times> 'a" where
  "flagged1 r = bindr r (\<lambda>x. Inr (False, x))"

lemma rollback_undoes:
  assumes head: "l_head s = Some h" "h \<noteq> a" "l_ord s h = Some y" "l_tbl s = Some lt"
    and e: "hp a = Some e" "i = HASH_TO_BKT (hh_hashv e) (lt_num_buckets lt)"
    and ord: "ord a = Some \<lparr>c_prev = Some z, c_next = None\<rparr>" "ord h = Some y'"
      "splice_out a ord = Inr ((l_ord s)(a \<mapsto> c))"
    and tail: "lt_tail lt = Some z"
    and b: "i < length (lt_buckets lt)" "lb_head (lt_buckets lt ! i) \<noteq> Some a" and chn: "chn a = Some d"
    and s2: "s2 = s\<lparr>l_ord := ord, l_chn := chn,
      l_tbl := Some (lt\<lparr>lt_tail := Some a, lt_num_items := lt_num_items lt + 1\<rparr>)\<rparr>"
  shows "bindr (HASH_ROLLBACK_BKT hp a s2) (\<lambda>s. HASH_DELETE_p hp s (Some a)) =
    Inr (s\<lparr>l_ord := (l_ord s)(a \<mapsto> c), l_chn := chn(a \<mapsto> \<lparr>c_prev = None, c_next = None\<rparr>)\<rparr>)"
proof -
  let ?lt = "lt\<lparr>lt_tail := Some a, lt_num_items := lt_num_items lt + 1,
    lt_buckets := (lt_buckets lt)[i := (lt_buckets lt ! i)\<lparr>lb_count := lb_count (lt_buckets lt ! i) + 1\<rparr>]\<rparr>"
  let ?chn = "chn(a \<mapsto> \<lparr>c_prev = None, c_next = None\<rparr>)"
  have hv: "deref hp a = Inr e" using e(1) by (simp add: deref_def)
  have "HASH_ROLLBACK_BKT hp a s2 = Inr (s2\<lparr>l_chn := ?chn, l_tbl := Some ?lt\<rparr>)"
    using head ord(2) b chn
    by (simp add: HASH_ROLLBACK_BKT_def hv s2 tbl_of_def lbucket_at_def e(2)[symmetric] Let_def)
  moreover have "splice_out a ?chn = Inr ?chn" by (simp add: splice_out_def)
  then have "HASH_DELETE_p hp (s2\<lparr>l_chn := ?chn, l_tbl := Some ?lt\<rparr>) (Some a) =
      Inr (s\<lparr>l_ord := (l_ord s)(a \<mapsto> c), l_chn := ?chn\<rparr>)"
    using head ord b tail
    by (simp add: HASH_DELETE_p_def HASH_DEL_IN_BKT_p_def hv s2 tbl_of_def lbucket_at_def e(2)[symmetric] Let_def)
  ultimately show ?thesis by simp
qed

lemma add_to_table_nf:
  assumes rel: "links_rel (Some t) s" and ok: "table_ok hp t" and a: "a \<notin> set (tbl_order t)" "live s a"
    and e: "hp' a = Some e" "hh_hashv e = h" and lt: "tbl_of s = Inr lt"
    and app: "append_links a (lt_tail lt) (l_ord s) = Inr (ord, tail)"
  defines "s1 \<equiv> s\<lparr>l_ord := ord, l_tbl := Some (lt\<lparr>lt_tail := tail\<rparr>)\<rparr>"
  shows "HASH_ADD_TO_TABLE_p can_alloc fuel hp' h a s1 = Inl (ProgramExit (-1)) \<and>
      (\<exists>s'. HASH_ADD_TO_TABLE_nf can_alloc fuel hp' h a False s1 = Inr (True, s') \<and> undone a s s') \<or>
    HASH_ADD_TO_TABLE_nf can_alloc fuel hp' h a False s1 = flagged1 (HASH_ADD_TO_TABLE_p can_alloc fuel hp' h a s1) \<and>
      no_exit (HASH_ADD_TO_TABLE_p can_alloc fuel hp' h a s1)"
proof -
  let ?xs = "tbl_order t" and ?i = "HASH_TO_BKT h (lt_num_buckets lt)"
  let ?lt = "lt\<lparr>lt_tail := Some a, lt_num_items := lt_num_items lt + 1\<rparr>"
  obtain c d where c: "l_ord s a = Some c" "l_chn s a = Some d" using a(2) by (auto simp: live_def)
  have xs: "dseg (l_ord s) None ?xs None" "distinct ?xs" "?xs \<noteq> []" "l_head s = first_of ?xs None"
    using rel by (simp_all add: links_rel_def)
  have lt': "l_tbl s = Some lt" "tbl_rel (l_chn s) t lt" using rel lt by (auto elim: links_relE)
  then have tail: "lt_tail lt = last_of None ?xs" by (simp add: tbl_rel_def)
  from append_splice [OF xs(1-3) a(1) c(1)] app have ord: "ord a = Some \<lparr>c_prev = last_of None ?xs, c_next = None\<rparr>"
    "splice_out a ord = Inr ((l_ord s)(a \<mapsto> \<lparr>c_prev = last_of None ?xs, c_next = None\<rparr>))" "tail = Some a"
    unfolding tail by (metis Inr_inject prod.inject)+
  have "dseg ord None (?xs @ [a]) None"
    using append_links_ok [OF xs(1-3) a(1) c(1)] app unfolding tail by (metis Inr_inject prod.inject)
  then obtain x y y' z where h: "l_head s = Some x" "x \<noteq> a" "l_ord s x = Some y" "ord x = Some y'"
    "last_of None ?xs = Some z"
    using xs a(1) by (cases ?xs) (auto simp: last_of_def)
  let ?t = "t\<lparr>tbl_order := ?xs @ [a], tbl_num_items := tbl_num_items t + 1\<rparr>"
  have trel: "tbl_rel (l_chn s) ?t ?lt" using lt'(2) by (simp add: tbl_rel_def)
  have i: "?i < length (tbl_buckets t)"
    using lt'(2) ok HASH_TO_BKT_less [of "tbl_num_buckets t" h]
    by (simp add: tbl_rel_def table_ok_def buckets_ok_def)
  have fresh: "a \<notin> set (elems_of (tbl_buckets t))" using table_elems(3) [OF ok] a(1) by blast
  have s1: "tbl_of s1 = Inr (lt\<lparr>lt_tail := Some a\<rparr>)" "l_chn s1 = l_chn s"
    using h(1,4) by (simp_all add: s1_def tbl_of_def ord(3))
  have p: "HASH_ADD_TO_TABLE_p can_alloc fuel hp' h a s1 =
      bindr (HASH_ADD_TO_BKT_p can_alloc fuel hp' ?i a (l_chn s) ?lt) (\<lambda>(cs, lt). Inr (s1\<lparr>l_chn := cs, l_tbl := Some lt\<rparr>))"
    by (simp add: HASH_ADD_TO_TABLE_p_def s1)
  have nf: "HASH_ADD_TO_TABLE_nf can_alloc fuel hp' h a False s1 =
      bindr (HASH_ADD_TO_BKT_nf can_alloc fuel hp' ?i a (l_chn s) ?lt) (\<lambda>(oomed, cs, lt).
        if oomed then bindr (bindr (HASH_ROLLBACK_BKT hp' a (s1\<lparr>l_chn := cs, l_tbl := Some lt\<rparr>))
            (\<lambda>s. HASH_DELETE_p hp' s (Some a))) (\<lambda>s. Inr (True, s))
        else Inr (False, s1\<lparr>l_chn := cs, l_tbl := Some lt\<rparr>))"
    by (cases "HASH_ADD_TO_BKT_nf can_alloc fuel hp' ?i a (l_chn s) ?lt")
      (simp_all add: HASH_ADD_TO_TABLE_nf_def Let_def s1 bindr_assoc split: prod.split)
  from add_to_bkt_nf [of "l_chn s" ?t ?lt ?i a d can_alloc fuel hp', OF trel] i fresh c(2)
  consider (oom) c' where "HASH_ADD_TO_BKT_p can_alloc fuel hp' ?i a (l_chn s) ?lt = Inl (ProgramExit (-1))"
      "HASH_ADD_TO_BKT_nf can_alloc fuel hp' ?i a (l_chn s) ?lt = Inr (True, (l_chn s)(a \<mapsto> c'), ?lt)"
    | (fine) "HASH_ADD_TO_BKT_nf can_alloc fuel hp' ?i a (l_chn s) ?lt
        = flagged (HASH_ADD_TO_BKT_p can_alloc fuel hp' ?i a (l_chn s) ?lt)"
      "no_exit (HASH_ADD_TO_BKT_p can_alloc fuel hp' ?i a (l_chn s) ?lt)" by auto
  then show ?thesis
  proof cases
    case oom
    have chains: "list_all2 (chain_rel (l_chn s)) (tbl_buckets t) (lt_buckets lt)"
      using lt'(2) by (simp add: tbl_rel_def buckets_rel_def)
    then have "chain_rel (l_chn s) (tbl_buckets t ! ?i) (lt_buckets lt ! ?i)" "?i < length (lt_buckets lt)"
      using i by (auto dest: list_all2_nthD list_all2_lengthD)
    moreover have "a \<notin> set (bkt_chain (tbl_buckets t ! ?i))" using fresh i by auto
    ultimately have b: "?i < length (lt_buckets lt)" "lb_head (lt_buckets lt ! ?i) \<noteq> Some a"
      by (auto simp: chain_rel_def first_of_def split: list.splits)
    have "bindr (HASH_ROLLBACK_BKT hp' a (s1\<lparr>l_chn := (l_chn s)(a \<mapsto> c'), l_tbl := Some ?lt\<rparr>))
        (\<lambda>s. HASH_DELETE_p hp' s (Some a)) =
      Inr (s\<lparr>l_ord := (l_ord s)(a \<mapsto> \<lparr>c_prev = last_of None ?xs, c_next = None\<rparr>),
        l_chn := ((l_chn s)(a \<mapsto> c'))(a \<mapsto> \<lparr>c_prev = None, c_next = None\<rparr>)\<rparr>)"
      by (rule rollback_undoes [where h = x and y = y and y' = y' and lt = lt and e = e and i = "?i"
            and ord = ord and z = z and d = c'])
        (use h lt'(1) e(1) ord tail b in \<open>simp_all add: e(2) s1_def\<close>)
    then have "HASH_ADD_TO_TABLE_nf can_alloc fuel hp' h a False s1 =
        Inr (True, s\<lparr>l_ord := (l_ord s)(a \<mapsto> \<lparr>c_prev = last_of None ?xs, c_next = None\<rparr>),
          l_chn := (l_chn s)(a \<mapsto> \<lparr>c_prev = None, c_next = None\<rparr>)\<rparr>)"
      by (simp only: nf oom bindr_simps prod.case if_True fun_upd_upd)
    then show ?thesis using oom(1) by (auto simp: p undone_def)
  next
    case fine
    then show ?thesis
      by (cases "HASH_ADD_TO_BKT_p can_alloc fuel hp' ?i a (l_chn s) ?lt") (auto simp: p nf flagged_def flagged1_def)
  qed
qed

lemma in_step_undone:
  assumes inv: "in_step hp head s" and undone: "undone a s s'" and a: "a \<notin> set (order_of head)"
  shows "in_step (hp(a \<mapsto> e)) head s'"
proof -
  have ok: "head_ok hp head" and rel: "links_rel head s" using inv by (simp_all add: in_step_def)
  obtain c d where s': "s' = s\<lparr>l_ord := (l_ord s)(a \<mapsto> c), l_chn := (l_chn s)(a \<mapsto> d)\<rparr>"
    using undone by (auto simp: undone_def)
  have "links_rel head s'"
  proof (cases head)
    case None
    then show ?thesis using rel by (simp add: links_rel_def s')
  next
    case (Some t)
    then have "a \<notin> set (elems_of (tbl_buckets t))" using table_elems(3) [of hp t] ok a by simp
    then have "list_all2 (chain_rel ((l_chn s)(a \<mapsto> d))) bs lbs" if "list_all2 (chain_rel (l_chn s)) bs lbs"
      "bs = tbl_buckets t" for bs lbs
      by (intro chains_frame [OF that(1)]) (use that(2) in auto)
    then show ?thesis using rel a by (auto simp: Some links_rel_def s' tbl_rel_def buckets_rel_def)
  qed
  moreover have "head_ok (hp(a \<mapsto> e)) head"
  proof (rule table_ok_frame [OF ok])
    fix b assume b: "b \<in> set (order_of head)"
    then have "b \<noteq> a" "handle_ok hp b" using a ok by (cases head; auto simp: table_ok_def)+
    then show "key_of (hp(a \<mapsto> e)) b = key_of hp b \<and> handle_ok (hp(a \<mapsto> e)) b" by (simp add: handle_upd_other)
  qed
  moreover have "live s' b" if "(hp(a \<mapsto> e)) b \<noteq> None" for b
    using that inv by (cases "b = a") (auto simp: in_step_def live_def s')
  ultimately show ?thesis by (simp add: in_step_def)
qed

text \<open>The first element: its bucket holds nothing yet, so that only the table itself can fail.\<close>

lemma first_nf:
  assumes None: "l_head s = None" and c: "l_ord s a = Some c" "l_chn s a = Some d"
  shows "bindr (link_element_p can_alloc s a) (HASH_ADD_TO_TABLE_p can_alloc fuel hp h a) = Inl (ProgramExit (-1)) \<and>
      (\<exists>s'. link_element_nf can_alloc s a = Inr (True, s') \<and> undone a s s') \<or>
    (\<exists>s1. link_element_nf can_alloc s a = Inr (False, s1) \<and> link_element_p can_alloc s a = Inr s1 \<and>
      HASH_ADD_TO_TABLE_nf can_alloc fuel hp h a False s1 = flagged1 (HASH_ADD_TO_TABLE_p can_alloc fuel hp h a s1) \<and>
      no_exit (HASH_ADD_TO_TABLE_p can_alloc fuel hp h a s1))"
proof (cases "can_alloc 64 \<and> can_alloc (unat HASH_INITIAL_NUM_BUCKETS * 16)")
  case False
  have "undone a s (s\<lparr>l_ord := (l_ord s)(a \<mapsto> x)\<rparr>)" for x
    unfolding undone_def using c(2) by (intro exI [of _ x] exI [of _ d]) (simp add: fun_upd_idem)
  then show ?thesis
    using False by (auto simp: link_element_p_def link_element_nf_def HASH_MAKE_TABLE_p_def HASH_MAKE_TABLE_nf_def None c)
next
  case True
  define lt where "lt = \<lparr>lt_buckets = replicate (unat HASH_INITIAL_NUM_BUCKETS) empty_lbucket,
    lt_num_buckets = HASH_INITIAL_NUM_BUCKETS, lt_log2_num_buckets = HASH_INITIAL_NUM_BUCKETS_LOG2,
    lt_num_items = 0, lt_tail = Some a, lt_ideal_chain_maxlen = 0, lt_nonideal_items = 0,
    lt_ineff_expands = 0, lt_noexpand = 0\<rparr>"
  define s1 where "s1 = s\<lparr>l_ord := (l_ord s)(a \<mapsto> \<lparr>c_prev = None, c_next = None\<rparr>), l_tbl := Some lt, l_head := Some a\<rparr>"
  have link: "link_element_nf can_alloc s a = Inr (False, s1)" "link_element_p can_alloc s a = Inr s1"
    using True by (simp_all add: link_element_p_def link_element_nf_def HASH_MAKE_TABLE_p_def
        HASH_MAKE_TABLE_nf_def None c s1_def lt_def)
  let ?i = "HASH_TO_BKT h HASH_INITIAL_NUM_BUCKETS"
  have "?i < 32" using HASH_TO_BKT_less [of HASH_INITIAL_NUM_BUCKETS h] by (simp add: HASH_INITIAL_NUM_BUCKETS_def)
  then have b: "lbucket_at (lt_buckets lt) ?i = Inr empty_lbucket"
    by (simp add: lt_def lbucket_at_def HASH_INITIAL_NUM_BUCKETS_def)
  have s1: "tbl_of s1 = Inr lt" "l_chn s1 a = Some d" "lt_num_buckets lt = HASH_INITIAL_NUM_BUCKETS"
    by (simp_all add: s1_def tbl_of_def c lt_def)
  have few: "\<not> (10 :: byte32) \<le> 1" by (simp add: word_le_nat_alt)
  obtain s2 where "HASH_ADD_TO_TABLE_p can_alloc fuel hp h a s1 = Inr s2"
    "HASH_ADD_TO_TABLE_nf can_alloc fuel hp h a False s1 = Inr (False, s2)"
    by (simp add: HASH_ADD_TO_TABLE_p_def HASH_ADD_TO_TABLE_nf_def HASH_ADD_TO_BKT_p_def HASH_ADD_TO_BKT_nf_def
        s1 b few push_links_def empty_lbucket_def HASH_BKT_CAPACITY_THRESH_def Let_def)
  then show ?thesis by (simp add: link flagged1_def)
qed

lemma bucketed_nf:
  assumes inv: "in_step hp head s" and a: "a \<notin> set (order_of head)" "live s a"
    and e: "hp' a = Some e" "hh_hashv e = h"
  shows "bindr (link_element_p can_alloc s a) (HASH_ADD_TO_TABLE_p can_alloc fuel hp' h a) = Inl (ProgramExit (-1)) \<and>
      (\<exists>s'. bindr (link_element_nf can_alloc s a) (\<lambda>(oomed, s). HASH_ADD_TO_TABLE_nf can_alloc fuel hp' h a oomed s)
          = Inr (True, s') \<and> undone a s s') \<or>
    bindr (link_element_nf can_alloc s a) (\<lambda>(oomed, s). HASH_ADD_TO_TABLE_nf can_alloc fuel hp' h a oomed s)
      = flagged1 (bindr (link_element_p can_alloc s a) (HASH_ADD_TO_TABLE_p can_alloc fuel hp' h a)) \<and>
    no_exit (bindr (link_element_p can_alloc s a) (HASH_ADD_TO_TABLE_p can_alloc fuel hp' h a))"
proof (cases head)
  case None
  then have "l_head s = None" using inv by (simp add: in_step_def links_rel_def)
  moreover obtain c d where "l_ord s a = Some c" "l_chn s a = Some d" using a(2) by (auto simp: live_def)
  ultimately show ?thesis
    using first_nf [of s a c d can_alloc fuel hp' h] by (auto simp: HASH_ADD_TO_TABLE_nf_def)
next
  case (Some t)
  then have rel: "links_rel (Some t) s" and ok: "table_ok hp t" using inv by (simp_all add: in_step_def)
  obtain lt where lt: "tbl_of s = Inr lt" "l_head s \<noteq> None" "tbl_rel (l_chn s) t lt" using rel by (rule links_relE)
  obtain c where c: "l_ord s a = Some c" using a(2) by (auto simp: live_def)
  have "dseg (l_ord s) None (tbl_order t) None" "distinct (tbl_order t)" "tbl_order t \<noteq> []"
    "lt_tail lt = last_of None (tbl_order t)" using rel lt(3) by (simp_all add: links_rel_def tbl_rel_def)
  then obtain ord where app: "append_links a (lt_tail lt) (l_ord s) = Inr (ord, Some a)"
    using append_links_ok [of "l_ord s" "tbl_order t" a c] a(1) c Some by auto
  have "a \<notin> set (tbl_order t)" using a(1) Some by simp
  with add_to_table_nf [of t s hp a hp' e h lt ord "Some a" can_alloc fuel] rel ok a(2) e lt(1) app
  show ?thesis
    by (simp add: link_element_p_def link_element_nf_def lt app)
qed

text \<open>C31: an insertion for which memory runs out is undone completely when \<^verbatim>\<open>HASH_NONFATAL_OOM\<close> is on:
  it returns, sets the flag exactly when the program would otherwise have ended, and then head,
  table and every pointer of every other element are as they were, so that the table is as well
  formed as before. Otherwise it does what the fatal variant does.
\<close>

theorem failed_insertion_undone:
  assumes inv: "in_step hp head s" and mem: "memory_bound can_alloc" and op: "legal_op hp head (Insert p n a)"
    and fuel: "length (order_of head) < fuel"
  shows "HASH_ADD_KEYPTR_p can_alloc fuel hp s p n a = Inl (ProgramExit (-1)) \<and>
      (\<exists>hp' s'. HASH_ADD_KEYPTR_nf can_alloc fuel hp s p n a = Inr (True, hp', s') \<and>
         undone a s s' \<and> in_step hp' head s') \<or>
    (\<exists>hp' s' t. HASH_ADD_KEYPTR_p can_alloc fuel hp s p n a = Inr (hp', s') \<and>
       HASH_ADD_KEYPTR_nf can_alloc fuel hp s p n a = Inr (False, hp', s') \<and> in_step hp' (Some t) s')"
proof -
  obtain k e where k: "read_bytes p (unat n) = Inr k" and e: "hp a = Some e" and a: "a \<notin> set (order_of head)"
    using op by (auto split: sum.splits)
  define e' where "e' = e\<lparr>hh_hashv := HASH_JEN k, hh_key := p, hh_keylen := ucast n\<rparr>"
  let ?p = "bindr (link_element_p can_alloc s a) (HASH_ADD_TO_TABLE_p can_alloc fuel (hp(a \<mapsto> e')) (HASH_JEN k) a)"
  let ?nf = "bindr (link_element_nf can_alloc s a)
    (\<lambda>(oomed, s). HASH_ADD_TO_TABLE_nf can_alloc fuel (hp(a \<mapsto> e')) (HASH_JEN k) a oomed s)"
  have live: "live s a" using inv e by (simp add: in_step_def)
  have p: "HASH_ADD_KEYPTR_p can_alloc fuel hp s p n a = bindr ?p (\<lambda>s. Inr (hp(a \<mapsto> e'), s))"
    by (simp add: HASH_ADD_KEYPTR_p_def HASH_ADD_KEYPTR_BYHASHVALUE_p_def HASH_VALUE_def k deref_def e e'_def bindr_assoc Let_def)
  have nf: "HASH_ADD_KEYPTR_nf can_alloc fuel hp s p n a = bindr ?nf (\<lambda>(oomed, s). Inr (oomed, hp(a \<mapsto> e'), s))"
    by (cases "link_element_nf can_alloc s a")
      (simp_all add: HASH_ADD_KEYPTR_nf_def HASH_ADD_KEYPTR_BYHASHVALUE_nf_def HASH_VALUE_def k deref_def e e'_def Let_def
        split: prod.split)
  from bucketed_nf [OF inv a live, of "hp(a \<mapsto> e')" e' "HASH_JEN k" can_alloc fuel]
  consider (oom) s' where "?p = Inl (ProgramExit (-1))" "?nf = Inr (True, s')" "undone a s s'"
    | (fine) "?nf = flagged1 ?p" "no_exit ?p" by (auto simp: e'_def)
  then show ?thesis
  proof cases
    case oom
    then show ?thesis using in_step_undone [OF inv oom(3) a] by (auto simp: p nf)
  next
    case fine
    show ?thesis
    proof (rule insert_step [OF inv mem op fuel])
      assume "HASH_ADD_KEYPTR_p can_alloc fuel hp s p n a = Inl (ProgramExit (-1))"
      then have "?p = Inl (ProgramExit (-1))" unfolding p by (cases ?p) simp_all
      with fine(2) show ?thesis by simp
    next
      fix e' k' hp' t s'
      assume "HASH_ADD_KEYPTR_p can_alloc fuel hp s p n a = Inr (hp', s')" "in_step hp' (Some t) s'"
      then show ?thesis using fine(1) unfolding p nf by (cases ?p) (auto simp: flagged1_def)
    qed
  qed
qed

text \<open>A table of one bucket with nine elements, and a tenth: the next insertion has to expand.\<close>

definition crowd_heap :: heap where
  "crowd_heap = (\<lambda>a. if a \<in> {1..10} then Some \<lparr>he_key = Null, he_value = Null, he_value_length = 0,
     hh_key = Obj [of_nat a], hh_keylen = 1, hh_hashv = HASH_JEN [of_nat a]\<rparr> else None)"

definition crowd_table :: ut_table where
  "crowd_table = \<lparr>tbl_buckets = [\<lparr>bkt_chain = [1..<10], bkt_count = 9, bkt_expand_mult = 0\<rparr>],
     tbl_num_buckets = 1, tbl_log2_num_buckets = 0, tbl_num_items = 9, tbl_order = [1..<10],
     tbl_ideal_chain_maxlen = 0, tbl_nonideal_items = 0, tbl_ineff_expands = 0, tbl_noexpand = 0\<rparr>"

definition crowd_cells :: cells where
  "crowd_cells = (\<lambda>a. if a \<in> {1..10} then Some \<lparr>c_prev = (if a = 1 then None else Some (a - 1)),
     c_next = (if a < 9 then Some (a + 1) else None)\<rparr> else None)"

definition crowd_links :: links where
  "crowd_links = \<lparr>l_ord = crowd_cells, l_chn = crowd_cells, l_head = Some 1,
     l_tbl = Some \<lparr>lt_buckets = [\<lparr>lb_head = Some 1, lb_count = 9, lb_expand_mult = 0\<rparr>],
       lt_num_buckets = 1, lt_log2_num_buckets = 0, lt_num_items = 9, lt_tail = Some 9,
       lt_ideal_chain_maxlen = 0, lt_nonideal_items = 0, lt_ineff_expands = 0, lt_noexpand = 0\<rparr>\<rparr>"

lemma crowd_key: "a \<in> {1..10} \<Longrightarrow> key_of crowd_heap a = [of_nat a]"
  by (simp add: key_of_def crowd_heap_def)

lemma crowd_in_step: "in_step crowd_heap (Some crowd_table) crowd_links"
proof -
  have "inj_on (of_nat :: nat \<Rightarrow> byte8) {1..10}"
    by (rule inj_onI) (simp add: of_nat_eq_iff word_of_nat_eq_iff take_bit_nat_eq_self)
  then have inj: "inj_on (key_of crowd_heap) {1..<10}"
    by (auto simp: inj_on_def crowd_key)
  have "handle_ok crowd_heap a" if "a \<in> {1..10}" for a
    using that by (simp add: handle_ok_def crowd_heap_def)
  then have "table_ok crowd_heap crowd_table"
    using inj by (simp add: table_ok_def crowd_table_def buckets_ok_def bucket_of_def HASH_TO_BKT_def)
  moreover have "dseg crowd_cells None [1..<10] None"
    by (simp add: upt_conv_Cons crowd_cells_def)
  then have "links_rel (Some crowd_table) crowd_links"
    by (simp add: links_rel_def crowd_table_def crowd_links_def tbl_rel_def buckets_rel_def chain_rel_def
        last_of_def upt_conv_Cons)
  moreover have "live crowd_links a" if "crowd_heap a \<noteq> None" for a
    using that by (auto simp: live_def crowd_links_def crowd_cells_def crowd_heap_def split: if_splits)
  ultimately show ?thesis by (simp add: in_step_def)
qed

theorem failed_insertion_undone_witness:
  "\<exists>hp' s'. HASH_ADD_KEYPTR_nf (\<lambda>_. False) 10 crowd_heap crowd_links (Obj [10]) 1 10 = Inr (True, hp', s') \<and>
     undone 10 crowd_links s' \<and> in_step hp' (Some crowd_table) s'"
proof -
  have mem: "memory_bound (\<lambda>_. False)" by (simp add: memory_bound_def)
  have op: "legal_op crowd_heap (Some crowd_table) (Insert (Obj [10]) 1 10)"
  proof -
    have "key_of crowd_heap b \<noteq> [10]" if "b \<in> set [1..<10]" for b
    proof -
      have "word_of_nat b \<noteq> (word_of_nat 10 :: byte8)"
        using that unfolding word_of_nat_eq_iff by (simp add: take_bit_nat_eq_self)
      then show ?thesis using that by (simp add: crowd_key)
    qed
    then show ?thesis by (simp add: crowd_table_def) (simp add: crowd_heap_def)
  qed
  have "HASH_ADD_KEYPTR_p (\<lambda>_. False) 10 crowd_heap crowd_links (Obj [10]) 1 10 = Inl (ProgramExit (-1))"
    by (simp add: HASH_ADD_KEYPTR_p_def HASH_VALUE_def HASH_ADD_KEYPTR_BYHASHVALUE_p_def deref_def crowd_heap_def
        link_element_p_def crowd_links_def tbl_of_def crowd_cells_def append_links_def HASH_ADD_TO_TABLE_p_def
        HASH_ADD_TO_BKT_p_def lbucket_at_def HASH_TO_BKT_def push_links_def HASH_EXPAND_BUCKETS_p_def
        HASH_BKT_CAPACITY_THRESH_def Let_def)
  with failed_insertion_undone [OF crowd_in_step mem op, of 10] show ?thesis
    by (auto simp: crowd_table_def)
qed

end
