(* ===== verification/Uthash_Strings.thy ===== *)
theory Uthash_Strings
  imports Uthash_Order
begin

text \<open>
  The convenience forms of \<^verbatim>\<open>src/src/libraries/uthash.h\<close> for string keys. The length of the key is
  that of \<^verbatim>\<open>strlen\<close>, without the terminating zero, in an \<^verbatim>\<open>unsigned\<close>.
\<close>

section \<open>The macros\<close>

definition uthash_strlen :: "ptr \<Rightarrow> fault + size_t" where
  "uthash_strlen s =
     (case s of Null \<Rightarrow> Inl NullDeref | Dangling \<Rightarrow> Inl UseAfterFree
      | Obj bs \<Rightarrow> if 0 \<in> set bs then Inr (of_nat (length (takeWhile (\<lambda>b. b \<noteq> 0) bs))) else Inl OutOfBounds)"

definition HASH_FIND_STR :: "nat \<Rightarrow> heap \<Rightarrow> links \<Rightarrow> ptr \<Rightarrow> fault + nat option" where
  "HASH_FIND_STR fuel hp s findstr =
     bindr (uthash_strlen findstr) (\<lambda>keylen. HASH_FIND_p fuel hp s findstr (ucast keylen))"

text \<open>\<open>strfield\<close> is the string in the element \<open>add\<close>.\<close>

definition HASH_ADD_STR :: "(nat \<Rightarrow> bool) \<Rightarrow> nat \<Rightarrow> heap \<Rightarrow> links \<Rightarrow> ptr \<Rightarrow> nat \<Rightarrow> fault + heap \<times> links" where
  "HASH_ADD_STR can_alloc fuel hp s strfield add =
     bindr (uthash_strlen strfield) (\<lambda>keylen.
     HASH_ADD_KEYPTR_p can_alloc fuel hp s strfield (ucast (ucast keylen :: byte32)) add)"

definition HASH_REPLACE_STR :: "(nat \<Rightarrow> bool) \<Rightarrow> nat \<Rightarrow> heap \<Rightarrow> links \<Rightarrow> ptr \<Rightarrow> nat
    \<Rightarrow> fault + nat option \<times> heap \<times> links" where
  "HASH_REPLACE_STR can_alloc fuel hp s strfield add =
     bindr (uthash_strlen strfield) (\<lambda>keylen.
     HASH_REPLACE_p can_alloc fuel hp s strfield (ucast keylen) add)"

section \<open>A table keyed by strings\<close>

text \<open>A pointer to the string \<open>str\<close> and its terminating zero, with whatever lies behind.\<close>

definition points_to :: "ptr \<Rightarrow> bytes \<Rightarrow> bool" where
  "points_to p str \<longleftrightarrow> 0 \<notin> set str \<and> length str < 2 ^ 32 \<and> (\<exists>rest. p = Obj (str @ 0 # rest))"

lemma points_to_strlen:
  assumes "points_to p str"
  obtains n where "uthash_strlen p = Inr n" "read_bytes p (unat (ucast n :: byte32)) = Inr str"
proof -
  obtain rest where p: "p = Obj (str @ 0 # rest)" "0 \<notin> set str" "length str < 2 ^ 32"
    using assms by (auto simp: points_to_def)
  have "takeWhile (\<lambda>b. b \<noteq> 0) (str @ 0 # rest) = str"
    using p(2) by (simp add: takeWhile_append)
  then have "uthash_strlen p = Inr (of_nat (length str))" by (simp add: uthash_strlen_def p(1))
  moreover have "unat (ucast (of_nat (length str) :: size_t) :: byte32) = length str"
    using p(3) by (simp add: unsigned_ucast_eq unsigned_of_nat take_bit_nat_eq_self)
  then have "read_bytes p (unat (ucast (of_nat (length str) :: size_t) :: byte32)) = Inr str"
    by (simp add: p(1))
  ultimately show thesis by (rule that)
qed

text \<open>
  A table keyed by strings is a map from strings: after a string was stored, a search with any
  pointer to an equal string, whatever lies behind its end, finds the new element, and a search
  with another string finds what it found before.
\<close>

theorem string_table_is_map:
  assumes inv: "in_step hp head s" and mem: "memory_bound can_alloc" and e: "hp a \<noteq> None"
    and fresh: "a \<notin> set (order_of head)" and str: "points_to p str"
    and fuel: "length (order_of head) < fuel"
  shows "HASH_REPLACE_STR can_alloc fuel hp s p a = Inl (ProgramExit (-1)) \<or>
    (\<exists>replaced hp' t s'. HASH_REPLACE_STR can_alloc fuel hp s p a = Inr (replaced, hp', s') \<and>
       in_step hp' (Some t) s' \<and> HASH_FIND_STR fuel hp s p = Inr replaced \<and>
       (\<forall>q str'. points_to q str' \<longrightarrow> HASH_FIND_STR fuel hp' s' q =
          (if str' = str then Inr (Some a) else HASH_FIND_STR fuel hp s q)))"
proof -
  obtain n where n: "uthash_strlen p = Inr n" "read_bytes p (unat (ucast n :: byte32)) = Inr str"
    using str by (rule points_to_strlen)
  have find: "HASH_FIND_STR fuel hp s q = Inr (find (\<lambda>b. key_of hp b = str') (order_of head))"
    if "points_to q str'" for q str'
    by (rule points_to_strlen [OF that]) (use find_step [OF inv] fuel in \<open>simp add: HASH_FIND_STR_def\<close>)
  have run: "HASH_REPLACE_STR can_alloc fuel hp s p a = HASH_REPLACE_p can_alloc fuel hp s p (ucast n) a"
    by (simp add: HASH_REPLACE_STR_def n(1))
  from replace_last_wins [OF inv mem e fresh n(2) fuel] show ?thesis
  proof (elim disjE exE conjE)
    fix hp' t s'
    assume *: "HASH_REPLACE_p can_alloc fuel hp s p (ucast n) a =
        Inr (find (\<lambda>b. key_of hp b = str) (order_of head), hp', s')" "in_step hp' (Some t) s'"
      "\<forall>q m k'. read_bytes q (unat m) = Inr k' \<longrightarrow> HASH_FIND_p fuel hp' s' q m =
          Inr (if k' = str then Some a else find (\<lambda>b. key_of hp b = k') (order_of head))"
    have "HASH_FIND_STR fuel hp' s' q = (if str' = str then Inr (Some a) else HASH_FIND_STR fuel hp s q)"
      if q: "points_to q str'" for q str'
    proof -
      obtain m where m: "uthash_strlen q = Inr m" "read_bytes q (unat (ucast m :: byte32)) = Inr str'"
        using q by (rule points_to_strlen)
      then have "HASH_FIND_STR fuel hp' s' q = Inr (if str' = str then Some a
          else find (\<lambda>b. key_of hp b = str') (order_of head))"
        using *(3) [rule_format, OF m(2)] by (simp only: HASH_FIND_STR_def m(1) bindr_simps)
      then show ?thesis by (simp add: find [OF q])
    qed
    then show ?thesis using *(1,2) find [OF str] by (auto simp: run)
  qed (simp add: run)
qed

theorem string_table_is_map_witness:
  "HASH_REPLACE_STR (\<lambda>n. n < 2 ^ 36) 3 pair_heap pair_links (Obj [3, 0]) 3 = Inl (ProgramExit (-1)) \<or>
    (\<exists>replaced hp' s'. HASH_REPLACE_STR (\<lambda>n. n < 2 ^ 36) 3 pair_heap pair_links (Obj [3, 0]) 3 = Inr (replaced, hp', s') \<and>
       HASH_FIND_STR 3 hp' s' (Obj [3, 0, 9]) = Inr (Some 3) \<and>
       HASH_FIND_STR 3 hp' s' (Obj [1, 0]) = HASH_FIND_STR 3 pair_heap pair_links (Obj [1, 0]))"
proof -
  have strings: "points_to (Obj [3, 0]) [3]" "points_to (Obj [3, 0, 9]) [3]" "points_to (Obj [1, 0]) [1]"
    by (simp_all add: points_to_def)
  have new: "pair_heap 3 \<noteq> None" "3 \<notin> set (order_of (Some pair_table))" "length (order_of (Some pair_table)) < 3"
    by (simp_all add: pair_heap_def pair_facts(1))
  from string_table_is_map [OF pair_in_step pair_facts(2) new(1,2) strings(1) new(3)] show ?thesis
    using strings(2,3) by fastforce
qed

end
