(* ===== verification/C_Strings.thy ===== *)
theory C_Strings
  imports C_Prelude
begin

text \<open>
  Text conversions: the parts of the C library the program uses (\<^verbatim>\<open>sprintf("%d")\<close>,
  \<^verbatim>\<open>atoi\<close>, \<^verbatim>\<open>inet_ntop\<close> and \<^verbatim>\<open>inet_pton\<close> for \<^verbatim>\<open>AF_INET\<close>) and the four
  conversion macros of \<^verbatim>\<open>src/src/generic/network.h\<close>, with the size of the buffers they
  declare. A C string is the list of its characters before the terminating zero; a
  \<^verbatim>\<open>char*\<close> that may be \<^verbatim>\<open>NULL\<close> is a \<open>string option\<close>.
\<close>

section \<open>Decimal text\<close>

fun dec_string :: "nat \<Rightarrow> string" where
  "dec_string n =
     (if n < 10 then [char_of (48 + n)] else dec_string (n div 10) @ [char_of (48 + n mod 10)])"

declare dec_string.simps [simp del]

definition is_digit :: "char \<Rightarrow> bool" where
  "is_digit c \<longleftrightarrow> 48 \<le> (of_char c :: nat) \<and> (of_char c :: nat) \<le> 57"

definition digit_value :: "char \<Rightarrow> nat" where
  "digit_value c = of_char c - 48"

definition dec_value :: "string \<Rightarrow> nat" where
  "dec_value s = foldl (\<lambda>a c. 10 * a + digit_value c) 0 s"

lemma digit_char [simp]:
  assumes "d < 10"
  shows "is_digit (char_of (48 + d))" "digit_value (char_of (48 + d)) = d"
    "char_of (48 + d) = CHR ''0'' \<longleftrightarrow> d = 0"
proof -
  have v: "of_char (char_of (48 + d) :: char) = 48 + d"
    using assms by simp
  show "is_digit (char_of (48 + d))" "digit_value (char_of (48 + d)) = d"
    using assms by (simp_all only: is_digit_def digit_value_def v) simp_all
  have "char_of (48 + d) = CHR ''0'' \<longleftrightarrow> (48 + d :: nat) = of_char CHR ''0''"
    by (metis v char_of_char)
  then show "char_of (48 + d) = CHR ''0'' \<longleftrightarrow> d = 0" by simp
qed

lemma dec_string_nonempty [simp]: "dec_string n \<noteq> []"
  by (subst dec_string.simps) simp

lemma dec_string_digits: "list_all is_digit (dec_string n)"
proof (induction n rule: dec_string.induct)
  case (1 n)
  then show ?case
    by (cases "n < 10") (simp_all add: dec_string.simps [of n])
qed

lemma dec_value_dec_string [simp]: "dec_value (dec_string n) = n"
proof (induction n rule: dec_string.induct)
  case (1 n)
  then show ?case
    by (cases "n < 10") (simp_all add: dec_string.simps [of n] dec_value_def)
qed

lemma dec_string_leading_zero: "hd (dec_string n) = CHR ''0'' \<longleftrightarrow> n = 0"
proof (induction n rule: dec_string.induct)
  case (1 n)
  then show ?case
    by (cases "n < 10") (simp_all add: dec_string.simps [of n])
qed

lemma dec_string_length_le: "length (dec_string n) \<le> Suc k \<longleftrightarrow> n < 10 ^ Suc k"
proof (induction n arbitrary: k rule: dec_string.induct)
  case (1 n)
  show ?case
  proof (cases "n < 10")
    case True
    have "(1::nat) \<le> 10 ^ k" by simp
    with True have "n < 10 * 10 ^ k" by linarith
    with True show ?thesis by (simp add: dec_string.simps [of n])
  next
    case False
    then have len: "length (dec_string n) = Suc (length (dec_string (n div 10)))"
      by (subst dec_string.simps) simp
    show ?thesis
    proof (cases k)
      case 0
      then show ?thesis using False len by (simp add: Suc_le_eq)
    next
      case (Suc j)
      then show ?thesis using False "1.IH" [of j] len
        by (simp add: div_less_iff_less_mult mult.commute)
    qed
  qed
qed

text \<open>
  \<^verbatim>\<open>atoi\<close> of the platform: white space, an optional sign, digits up to the first other
  character, \<^verbatim>\<open>strtol\<close>'s saturation to 64 bits and the conversion to 32 bits.
\<close>

definition is_space :: "char \<Rightarrow> bool" where
  "is_space c \<longleftrightarrow> (of_char c :: nat) = 32 \<or> (9 \<le> (of_char c :: nat) \<and> (of_char c :: nat) \<le> 13)"

definition strtol10 :: "string \<Rightarrow> int" where
  "strtol10 s =
     (let t = dropWhile is_space s in
      case t of
        [] \<Rightarrow> 0
      | c # u \<Rightarrow>
          if c = CHR ''-'' then - int (dec_value (takeWhile is_digit u))
          else if c = CHR ''+'' then int (dec_value (takeWhile is_digit u))
          else int (dec_value (takeWhile is_digit t)))"

definition atoi :: "string \<Rightarrow> int" where
  "atoi s = signed_take_bit 31 (max (- (2 ^ 63)) (min (2 ^ 63 - 1) (strtol10 s)))"

lemma digit_not_space: "is_digit c \<Longrightarrow> \<not> is_space c \<and> c \<noteq> CHR ''-'' \<and> c \<noteq> CHR ''+'' \<and> c \<noteq> CHR ''.''"
  by (auto simp: is_digit_def is_space_def)

lemma strtol10_dec_string: "strtol10 (dec_string n) = int n"
proof -
  obtain c u where s: "dec_string n = c # u"
    by (cases "dec_string n") auto
  with dec_string_digits [of n] have "is_digit c" "list_all is_digit (dec_string n)" by simp_all
  then have "dropWhile is_space (dec_string n) = dec_string n" "c \<noteq> CHR ''-''" "c \<noteq> CHR ''+''"
    "takeWhile is_digit (dec_string n) = dec_string n"
    using digit_not_space [of c] s by (auto simp: takeWhile_eq_all_conv list_all_iff)
  then show ?thesis
    using dec_value_dec_string [of n] s by (simp add: strtol10_def Let_def)
qed

lemma atoi_dec_string: "n < 2 ^ 31 \<Longrightarrow> atoi (dec_string n) = int n"
  by (simp add: atoi_def strtol10_dec_string signed_take_bit_int_eq_self)

section \<open>IPv4 text\<close>

text \<open>An address is the 32-bit word whose four bytes in memory are the four octets in order.\<close>

definition inet_ntop4 :: "byte32 \<Rightarrow> string" where
  "inet_ntop4 w =
     (case le32 w of
        [a, b, c, d] \<Rightarrow> dec_string (unat a) @ CHR ''.'' # dec_string (unat b) @ CHR ''.'' #
          dec_string (unat c) @ CHR ''.'' # dec_string (unat d)
      | _ \<Rightarrow> [])"

fun split_dots :: "string \<Rightarrow> string list" where
  "split_dots [] = [[]]"
| "split_dots (c # s) =
     (if c = CHR ''.'' then [] # split_dots s
      else case split_dots s of [] \<Rightarrow> [[c]] | t # ts \<Rightarrow> (c # t) # ts)"

definition parse_octet :: "string \<Rightarrow> byte8 option" where
  "parse_octet s =
     (if s \<noteq> [] \<and> list_all is_digit s \<and> length s \<le> 3 \<and> (hd s = CHR ''0'' \<longrightarrow> length s = 1)
         \<and> dec_value s \<le> 255
      then Some (of_nat (dec_value s)) else None)"

definition inet_pton4 :: "string \<Rightarrow> byte32 option" where
  "inet_pton4 s =
     (case map parse_octet (split_dots s) of
        [Some a, Some b, Some c, Some d] \<Rightarrow> Some (of_le32 [a, b, c, d])
      | _ \<Rightarrow> None)"

lemma split_dots_nonempty [simp]: "split_dots s \<noteq> []"
  by (cases s) (auto split: list.splits)

lemma split_dots_nodot: "CHR ''.'' \<notin> set s \<Longrightarrow> split_dots s = [s]"
  by (induction s) auto

lemma split_dots_append:
  "CHR ''.'' \<notin> set s \<Longrightarrow> split_dots (s @ CHR ''.'' # t) = s # split_dots t"
  by (induction s) auto

lemma dec_string_nodot: "CHR ''.'' \<notin> set (dec_string n)"
  using dec_string_digits [of n] digit_not_space by (auto simp: list_all_iff)

lemma octet_text_length: "length (dec_string (unat (b :: byte8))) \<le> 3"
  using dec_string_length_le [of "unat b" 2] unat_byte8_less [of b] by simp

lemma parse_octet_dec_string: "parse_octet (dec_string (unat (b :: byte8))) = Some b"
proof -
  have "hd (dec_string (unat b)) = CHR ''0'' \<longrightarrow> length (dec_string (unat b)) = 1"
    by (simp add: dec_string_leading_zero dec_string.simps [of 0])
  then show ?thesis
    using unat_byte8_less [of b] octet_text_length [of b] by (simp add: parse_octet_def dec_string_digits)
qed

lemma inet_pton4_ntop4: "inet_pton4 (inet_ntop4 w) = Some w"
proof -
  obtain a b c d where w: "le32 w = [a, b, c, d]" by (simp add: le32_def)
  then have "of_le32 [a, b, c, d] = w" by (metis of_le_nil(2))
  then show ?thesis
    by (simp add: w inet_pton4_def inet_ntop4_def split_dots_append split_dots_nodot
        dec_string_nodot parse_octet_dec_string)
qed

lemma inet_ntop4_length: "length (inet_ntop4 w) < 16"
proof -
  obtain a b c d where w: "le32 w = [a, b, c, d]" by (simp add: le32_def)
  from octet_text_length [of a] octet_text_length [of b] octet_text_length [of c]
    octet_text_length [of d] show ?thesis
    by (simp add: w inet_ntop4_def)
qed

section \<open>The conversion macros\<close>

definition INET_ADDRSTRLEN :: nat where "INET_ADDRSTRLEN = 16"

definition int_addr_to_str :: "byte32 \<Rightarrow> fault + string" where
  "int_addr_to_str addr =
     (if length (inet_ntop4 addr) + 1 \<le> INET_ADDRSTRLEN then Inr (inet_ntop4 addr)
      else Inl OutOfBounds)"

text \<open>\<^verbatim>\<open>char name[5]; sprintf(name, "%d", port);\<close> writes the digits and the terminating zero.\<close>

definition int_port_to_str :: "byte16 \<Rightarrow> fault + string" where
  "int_port_to_str port =
     (let s = dec_string (unat port) in if length s + 1 \<le> 5 then Inr s else Inl OutOfBounds)"

definition str_port_to_int :: "string option \<Rightarrow> fault + byte16" where
  "str_port_to_int port =
     (case port of None \<Rightarrow> Inl NullDeref | Some s \<Rightarrow> Inr (word_of_int (atoi s)))"

text \<open>\<^verbatim>\<open>inet_pton\<close> leaves \<^verbatim>\<open>name = 0\<close> as it is when the text is not an address.\<close>

definition str_addr_to_int :: "string option \<Rightarrow> fault + byte32" where
  "str_addr_to_int addr =
     (case addr of None \<Rightarrow> Inl NullDeref
      | Some s \<Rightarrow> Inr (case inet_pton4 s of None \<Rightarrow> 0 | Some w \<Rightarrow> w))"

lemma int_addr_to_str_total [simp]: "int_addr_to_str a = Inr (inet_ntop4 a)"
  using inet_ntop4_length [of a] by (simp add: int_addr_to_str_def INET_ADDRSTRLEN_def)

lemma int_port_to_str_cases:
  "int_port_to_str p = (if p < 10000 then Inr (dec_string (unat p)) else Inl OutOfBounds)"
  using dec_string_length_le [of "unat p" 3]
  by (simp add: int_port_to_str_def word_less_nat_alt Let_def)

text \<open>
  The address of a peer survives the conversion to the text that is handed to
  \<^verbatim>\<open>getaddrinfo\<close> and back, for every address.\<close>

theorem addr_text_roundtrip:
  "bindr (int_addr_to_str a) (\<lambda>s. str_addr_to_int (Some s)) = Inr a"
  by (simp add: str_addr_to_int_def inet_pton4_ntop4)

text \<open>C39: the five-byte buffer of \<^verbatim>\<open>int_port_to_str\<close> is overrun exactly by the ports with
  five digits; below that the text converts back to the same port.\<close>

theorem port_text_roundtrip:
  "bindr (int_port_to_str p) (\<lambda>s. str_port_to_int (Some s)) =
     (if p < 10000 then Inr p else Inl OutOfBounds)"
proof (cases "p < 10000")
  case True
  then have "unat p < 2 ^ 31" by (simp add: word_less_nat_alt)
  with True show ?thesis
    by (simp add: int_port_to_str_cases str_port_to_int_def atoi_dec_string)
qed (simp add: int_port_to_str_cases)

end
