(* ===== verification/Helpers.thy ===== *)
theory Helpers
  imports C_Strings
begin

text \<open>
  The helper macros of \<^verbatim>\<open>src/src/helper\<close> that the program uses: the range test of
  \<^verbatim>\<open>max/extended_math.h\<close>, the truth value and the byte type of
  \<^verbatim>\<open>wulkanat/descriptive_types.h\<close>, the hex dump of \<^verbatim>\<open>wulkanat/debug.h\<close> and the
  argument macros of \<^verbatim>\<open>wulkanat/commander.h\<close>. \<^verbatim>\<open>DEBUG\<close> is defined in the source,
  so the debugging variants are the ones modelled.
\<close>

section \<open>Range test and truth values\<close>

definition in_range :: "'a::ord \<Rightarrow> 'a \<Rightarrow> 'a \<Rightarrow> bool" where
  "in_range value upper lower \<longleftrightarrow> upper > value \<and> lower < value"

text \<open>\<^verbatim>\<open>#define truthy(value) (value ? true : false)\<close>, \<^verbatim>\<open>bool\<close> being \<^verbatim>\<open>uint8_t\<close>.\<close>

definition truthy :: "byte8 \<Rightarrow> byte8" where
  "truthy v = (if v \<noteq> 0 then 1 else 0)"

section \<open>Hex dump\<close>

definition hex_digit :: "nat \<Rightarrow> char" where
  "hex_digit d = (if d < 10 then char_of (48 + d) else char_of (55 + d))"

fun hex_string :: "nat \<Rightarrow> string" where
  "hex_string n =
     (if n < 16 then [hex_digit n] else hex_string (n div 16) @ [hex_digit (n mod 16)])"

declare hex_string.simps [simp del]

text \<open>
  \<^verbatim>\<open>printf("%02X", *(((char*)value) + i))\<close>: \<^verbatim>\<open>char\<close> is signed on this machine, so the
  byte is sign-extended to \<^verbatim>\<open>int\<close> before it is printed as an unsigned number.
\<close>

definition hex_byte :: "byte8 \<Rightarrow> string" where
  "hex_byte b =
     (let s = hex_string (unat (scast b :: byte32)) in
      if length s < 2 then CHR ''0'' # s else s)"

fun hex_bytes :: "bytes \<Rightarrow> string" where
  "hex_bytes [] = []"
| "hex_bytes [b] = hex_byte b"
| "hex_bytes (b # bs) = hex_byte b @ '' '' @ hex_bytes bs"

text \<open>\<^verbatim>\<open>HEX_VALUE_LOG\<close>: the text between the quotes, nothing when the pointer is
  \<^verbatim>\<open>NULL\<close>; the dump reads every byte it prints.\<close>

definition HEX_VALUE_LOG :: "ptr \<Rightarrow> nat \<Rightarrow> fault + string" where
  "HEX_VALUE_LOG value len =
     (if value = Null then Inr []
      else bindr (read_bytes value len) (\<lambda>bs. Inr (hex_bytes bs)))"

lemma hex_string_length_le: "length (hex_string n) \<le> Suc k \<longleftrightarrow> n < 16 ^ Suc k"
proof (induction n arbitrary: k rule: hex_string.induct)
  case (1 n)
  show ?case
  proof (cases "n < 16")
    case True
    have "(1::nat) \<le> 16 ^ k" by simp
    with True have "n < 16 * 16 ^ k" by linarith
    with True show ?thesis by (simp add: hex_string.simps [of n])
  next
    case False
    then have len: "length (hex_string n) = Suc (length (hex_string (n div 16)))"
      by (subst hex_string.simps) simp
    have ne: "hex_string m \<noteq> []" for m by (subst hex_string.simps) simp
    show ?thesis
    proof (cases k)
      case 0
      then show ?thesis using False len ne by (simp add: Suc_le_eq)
    next
      case (Suc j)
      then show ?thesis using False "1.IH" [of j] len
        by (simp add: div_less_iff_less_mult mult.commute)
    qed
  qed
qed

lemma unat_scast_byte:
  "unat (scast (b :: byte8) :: byte32) = (if b < 0x80 then unat b else 0xFFFFFF00 + unat b)"
proof -
  have u: "uint b < 256" using uint_lt2p [of b] by simp
  have s: "sint b = (if uint b < 128 then uint b else uint b - 256)"
  proof (cases "uint b < 128")
    case True
    then have "signed_take_bit 7 (uint b) = uint b"
      by (intro signed_take_bit_int_eq_self) (rule order_trans [OF _ uint_ge_0], simp_all)
    then show ?thesis using True by (simp add: sint_uint)
  next
    case False
    then have "(uint b + 128) mod 256 = uint b + 128 - 256"
      using u by (subst mod_pos_geq) (auto)
    with False show ?thesis
     by (simp add: sint_uint signed_take_bit_eq_take_bit_shift take_bit_eq_mod)
  qed
  have "uint (scast b :: byte32) = sint b mod 2 ^ 32"
    by (simp only: scast_eq uint_word_of_int) simp
  also have "\<dots> = (if uint b < 128 then uint b else 0xFFFFFF00 + uint b)"
  proof (cases "uint b < 128")
    case False
    have "(uint b - 256) mod 4294967296 = (uint b - 256 + 4294967296) mod 4294967296"
      by (rule mod_add_self2 [symmetric])
    also have "\<dots> = uint b - 256 + 4294967296"
      using u False by (intro mod_pos_pos_trivial) simp_all
    finally show ?thesis using False s by simp
  qed (use u s in simp)
  finally have "uint (scast b :: byte32) = (if uint b < 128 then uint b else 0xFFFFFF00 + uint b)" .
  then have "nat (uint (scast b :: byte32)) =
      (if uint b < 128 then nat (uint b) else 0xFFFFFF00 + nat (uint b))"
    by (simp only:) (simp add: nat_add_distrib)
  then show ?thesis
    by (simp only: unat_eq_nat_uint word_less_def) simp
qed

text \<open>
  A byte of the hex dump has two digits when its top bit is clear and is printed as
  the eight digits of its sign extension otherwise.\<close>

theorem hex_byte_width: "length (hex_byte b) = (if b < 0x80 then 2 else 8)"
proof (cases "b < 0x80")
  case True
  then have "unat b < 16 ^ Suc 1" by (simp add: word_less_nat_alt)
  then have "length (hex_string (unat b)) \<le> 2"
    using hex_string_length_le [of "unat b" 1] by simp
  moreover have "hex_string (unat b) \<noteq> []" by (subst hex_string.simps) simp
  ultimately show ?thesis
    using True by (auto simp: hex_byte_def unat_scast_byte Let_def le_less_Suc_eq less_Suc_eq neq_Nil_conv)
next
  case False
  then have "length (hex_string (0xFFFFFF00 + unat b)) = 8"
    using hex_string_length_le [of "0xFFFFFF00 + unat b" 7]
      hex_string_length_le [of "0xFFFFFF00 + unat b" 6] unat_byte8_less [of b] by simp
  then show ?thesis using False by (simp add: hex_byte_def unat_scast_byte)
qed

section \<open>Program arguments\<close>

text \<open>
  \<open>argv\<close> lists the \<^verbatim>\<open>argc\<close> strings of the command line, the program's name first;
  \<^verbatim>\<open>argv[argc]\<close> is \<^verbatim>\<open>NULL\<close>. No macro reads further than that.
\<close>

definition argv_at :: "string list \<Rightarrow> nat \<Rightarrow> string option" where
  "argv_at argv i = (if i < length argv then Some (argv ! i) else None)"

definition STR_ARG :: "string list \<Rightarrow> nat \<Rightarrow> fault + string option" where
  "STR_ARG argv pos =
     (if length argv < pos + 1 then Inl (ProgramExit (-1)) else Inr (argv_at argv (pos + 1)))"

definition DEFAULT_STR_ARG :: "string list \<Rightarrow> nat \<Rightarrow> string \<Rightarrow> string option" where
  "DEFAULT_STR_ARG argv pos default_value =
     (if length argv \<le> pos + 1 then Some default_value else argv_at argv (pos + 1))"

text \<open>The value's pointer and length: \<^verbatim>\<open>NULL\<close> and 0 when the argument is missing.\<close>

definition BINARY_ARG :: "string list \<Rightarrow> nat \<Rightarrow> string option \<times> size_t" where
  "BINARY_ARG argv pos =
     (if length argv \<le> pos + 1 then (None, 0)
      else (argv_at argv (pos + 1),
            of_nat (case argv_at argv (pos + 1) of None \<Rightarrow> 0 | Some s \<Rightarrow> length s)))"

lemma DEFAULT_STR_ARG_Some: "\<exists>s. DEFAULT_STR_ARG argv pos d = Some s"
  by (simp add: DEFAULT_STR_ARG_def argv_at_def)

text \<open>
  A mandatory argument read by \<^verbatim>\<open>STR_ARG\<close> is the argument when it is present;
  when it is the first missing one the macro yields the \<^verbatim>\<open>NULL\<close> after the last argument
  instead of the error, and only a later one ends the program.\<close>

theorem STR_ARG_cases:
  "STR_ARG argv pos =
     (if pos + 1 < length argv then Inr (Some (argv ! (pos + 1)))
      else if length argv = pos + 1 then Inr None
      else Inl (ProgramExit (-1)))"
  by (auto simp: STR_ARG_def argv_at_def)

end
