(* ===== verification/Data_Helper.thy ===== *)
theory Data_Helper
  imports Helpers
begin

text \<open>
  \<^verbatim>\<open>src/src/generic/data_helper.h\<close> and \<^verbatim>\<open>data_helper.c\<close>: the two message structs,
  the peer structs, the encoders and decoders of the wire formats, and the responsibility test.
  A flag field is the \<^verbatim>\<open>bool\<close> of the source, a byte; a pointer to a peer is an option
  (every \<^verbatim>\<open>Peer\<close> is reached through one pointer only). A struct the source declares
  without initialising it is an argument \<open>junk\<close>.
\<close>

section \<open>Types\<close>

definition ACK_BIT :: byte8 where "ACK_BIT = push_bit 4 1"
definition GET_BIT :: byte8 where "GET_BIT = push_bit 5 1"
definition SET_BIT :: byte8 where "SET_BIT = push_bit 6 1"
definition DELETE_BIT :: byte8 where "DELETE_BIT = push_bit 7 1"

definition CONTROL_BIT :: byte8 where "CONTROL_BIT = push_bit 0 1"
definition FINGER_BIT :: byte8 where "FINGER_BIT = push_bit 1 1"
definition FACK_BIT :: byte8 where "FACK_BIT = push_bit 2 1"
definition JOIN_BIT :: byte8 where "JOIN_BIT = push_bit 3 1"
definition NOTIFY_BIT :: byte8 where "NOTIFY_BIT = push_bit 4 1"
definition STABILIZE_BIT :: byte8 where "STABILIZE_BIT = push_bit 5 1"
definition REPLY_BIT :: byte8 where "REPLY_BIT = push_bit 6 1"
definition LOOKUP_BIT :: byte8 where "LOOKUP_BIT = push_bit 7 1"

lemmas client_bits = ACK_BIT_def GET_BIT_def SET_BIT_def DELETE_BIT_def
lemmas peer_bits = CONTROL_BIT_def FINGER_BIT_def FACK_BIT_def JOIN_BIT_def NOTIFY_BIT_def
  STABILIZE_BIT_def REPLY_BIT_def LOOKUP_BIT_def

record ClientProtocol =
  cp_act :: byte8
  cp_get :: byte8
  cp_set :: byte8
  cp_delete :: byte8
  cp_key_length :: byte16
  cp_value_length :: byte32
  cp_key :: ptr
  cp_value :: ptr

record PeerProtocol =
  pp_control :: byte8
  pp_finger :: byte8
  pp_fack :: byte8
  pp_join :: byte8
  pp_notify :: byte8
  pp_stabilize :: byte8
  pp_reply :: byte8
  pp_lookup :: byte8
  pp_hashId :: byte16
  pp_nodeId :: byte16
  pp_nodeIp :: byte32
  pp_nodePort :: byte16

text \<open>\<^verbatim>\<open>next_finger\<close> is never followed, only compared with \<^verbatim>\<open>NULL\<close> and assigned: an
  address.\<close>

record Peer =
  peer_ip :: byte32
  peer_port :: byte16
  peer_id :: byte16
  peer_is_base :: byte8
  peer_next_finger :: "nat option"

record PeerInfo =
  pi_this :: "Peer option"
  pi_next :: "Peer option"
  pi_prev :: "Peer option"
  pi_join :: "Peer option"

record raw_fingertable =
  rf_fingers :: "nat option"
  rf_last_in_list :: "nat option"
  rf_count :: byte16

text \<open>Static and \<^verbatim>\<open>calloc\<close>ed objects start as zeros; \<^verbatim>\<open>= {}\<close> does the same.\<close>

definition zero_ClientProtocol :: ClientProtocol where
  "zero_ClientProtocol = \<lparr>cp_act = 0, cp_get = 0, cp_set = 0, cp_delete = 0, cp_key_length = 0,
     cp_value_length = 0, cp_key = Null, cp_value = Null\<rparr>"

definition zero_PeerProtocol :: PeerProtocol where
  "zero_PeerProtocol = \<lparr>pp_control = 0, pp_finger = 0, pp_fack = 0, pp_join = 0, pp_notify = 0,
     pp_stabilize = 0, pp_reply = 0, pp_lookup = 0, pp_hashId = 0, pp_nodeId = 0, pp_nodeIp = 0,
     pp_nodePort = 0\<rparr>"

definition zero_Peer :: Peer where
  "zero_Peer = \<lparr>peer_ip = 0, peer_port = 0, peer_id = 0, peer_is_base = 0,
     peer_next_finger = None\<rparr>"

definition zero_PeerInfo :: PeerInfo where
  "zero_PeerInfo = \<lparr>pi_this = None, pi_next = None, pi_prev = None, pi_join = None\<rparr>"

definition zero_raw_fingertable :: raw_fingertable where
  "zero_raw_fingertable = \<lparr>rf_fingers = None, rf_last_in_list = None, rf_count = 0\<rparr>"

section \<open>Peer messages\<close>

text \<open>The last load of the decoder is 32 bits wide, cut to 16 by the parameter of
  \<^verbatim>\<open>ntohs\<close>.\<close>

definition decode_peerProtocol :: "ptr \<Rightarrow> PeerProtocol \<Rightarrow> fault + PeerProtocol" where
  "decode_peerProtocol msg data =
     bindr (load8 msg) (\<lambda>h.
     let data1 = data\<lparr>pp_control := h AND CONTROL_BIT, pp_finger := h AND FINGER_BIT,
           pp_fack := h AND FACK_BIT, pp_join := h AND JOIN_BIT, pp_notify := h AND NOTIFY_BIT,
           pp_stabilize := h AND STABILIZE_BIT, pp_reply := h AND REPLY_BIT,
           pp_lookup := h AND LOOKUP_BIT\<rparr> in
     bindr (load16 (ptr_add msg 1)) (\<lambda>hash.
     bindr (load16 (ptr_add msg (1 + 2))) (\<lambda>nid.
     bindr (load32 (ptr_add msg (1 + 2 + 2))) (\<lambda>nip.
     bindr (load32 (ptr_add msg (1 + 2 + 2 + 4))) (\<lambda>nport.
     Inr (data1\<lparr>pp_hashId := ntohs hash, pp_nodeId := ntohs nid, pp_nodeIp := ntohl nip,
                 pp_nodePort := ntohs (ucast nport)\<rparr>))))))"

definition peerProtocolCalculateSize :: nat where
  "peerProtocolCalculateSize = 11"

definition peer_header :: "PeerProtocol \<Rightarrow> byte8" where
  "peer_header data = pp_control data OR pp_finger data OR pp_fack data OR pp_join data
     OR pp_notify data OR pp_stabilize data OR pp_reply data OR pp_lookup data"

text \<open>The last store of the encoder is 32 bits wide at offset 9 of an 11-byte block.\<close>

definition encode_peerProtocol :: "(nat \<Rightarrow> bytes) \<Rightarrow> PeerProtocol \<Rightarrow> fault + bytes" where
  "encode_peerProtocol slack data =
     (let msg = calloc slack peerProtocolCalculateSize in
     bindr (store 0 [peer_header data] msg) (\<lambda>msg.
     bindr (store 1 (le16 (htons (pp_hashId data))) msg) (\<lambda>msg.
     bindr (store (1 + 2) (le16 (htons (pp_nodeId data))) msg) (\<lambda>msg.
     bindr (store (1 + 2 + 2) (le32 (htonl (pp_nodeIp data))) msg) (\<lambda>msg.
     store (1 + 2 + 2 + 4) (le32 (ucast (htons (pp_nodePort data)))) msg)))))"

definition isPeerProtocol :: "ptr \<Rightarrow> fault + byte8" where
  "isPeerProtocol msg = bindr (load8 msg) (\<lambda>h. Inr (truthy (h AND CONTROL_BIT)))"

section \<open>Client messages\<close>

definition decode_clientProtocol :: "ptr \<Rightarrow> ClientProtocol \<Rightarrow> fault + ClientProtocol" where
  "decode_clientProtocol msg data =
     bindr (load8 msg) (\<lambda>h.
     bindr (load16 (ptr_add msg 1)) (\<lambda>kl.
     bindr (load32 (ptr_add msg (1 + 2))) (\<lambda>vl.
     let data = data\<lparr>cp_act := h AND ACK_BIT, cp_get := h AND GET_BIT, cp_set := h AND SET_BIT,
           cp_delete := h AND DELETE_BIT, cp_key_length := ntohs kl, cp_value_length := ntohl vl\<rparr> in
     Inr (data\<lparr>
       cp_key := (if cp_key_length data = 0 then Null else ptr_add msg (1 + 2 + 4)),
       cp_value := (if cp_value_length data = 0 then Null
                    else ptr_add msg (1 + 2 + 4 + unat (cp_key_length data)))\<rparr>))))"

definition clientProtocolCalculateSize :: "ClientProtocol \<Rightarrow> size_t" where
  "clientProtocolCalculateSize data =
     1 + 2 + 4 + ucast (cp_key_length data) + ucast (cp_value_length data)"

definition client_header :: "ClientProtocol \<Rightarrow> byte8" where
  "client_header data = cp_act data OR cp_get data OR cp_set data OR cp_delete data"

definition memcpy :: "nat \<Rightarrow> ptr \<Rightarrow> nat \<Rightarrow> bytes \<Rightarrow> fault + bytes" where
  "memcpy off src n dst = bindr (read_bytes src n) (\<lambda>bs. store off bs dst)"

definition encode_clientProtocol :: "(nat \<Rightarrow> bytes) \<Rightarrow> ClientProtocol \<Rightarrow> fault + bytes" where
  "encode_clientProtocol slack data =
     (let msg = calloc slack (unat (clientProtocolCalculateSize data)) in
     bindr (store 0 [client_header data] msg) (\<lambda>msg.
     bindr (store 1 (le16 (htons (cp_key_length data))) msg) (\<lambda>msg.
     bindr (store (1 + 2) (le32 (htonl (cp_value_length data))) msg) (\<lambda>msg.
     bindr (memcpy (1 + 2 + 4) (cp_key data) (unat (cp_key_length data)) msg) (\<lambda>msg.
     memcpy (1 + 2 + 4 + unat (cp_key_length data)) (cp_value data)
       (unat (cp_value_length data)) msg)))))"

section \<open>Peers\<close>

text \<open>\<^verbatim>\<open>make_peerProtocol\<close> sets seven of the twelve fields of its local struct.\<close>

definition make_peerProtocol ::
    "PeerProtocol \<Rightarrow> byte8 \<Rightarrow> byte8 \<Rightarrow> byte16 \<Rightarrow> Peer option \<Rightarrow> fault + PeerProtocol" where
  "make_peerProtocol junk reply lookup hashID peer =
     (let result = junk\<lparr>pp_control := CONTROL_BIT,
           pp_reply := (if reply \<noteq> 0 then REPLY_BIT else 0),
           pp_lookup := (if lookup \<noteq> 0 then LOOKUP_BIT else 0), pp_hashId := hashID\<rparr> in
     case peer of None \<Rightarrow> Inl NullDeref
     | Some p \<Rightarrow> Inr (result\<lparr>pp_nodeId := peer_id p, pp_nodeIp := peer_ip p,
                           pp_nodePort := peer_port p\<rparr>))"

text \<open>The macro's operands are dereferenced in its order, the second only if the first
  comparison holds.\<close>

definition id_is_between :: "byte16 \<Rightarrow> Peer option \<Rightarrow> Peer option \<Rightarrow> fault + bool" where
  "id_is_between hash_id this prev =
     (case this of None \<Rightarrow> Inl NullDeref
      | Some t \<Rightarrow>
          if peer_id t > hash_id
          then (case prev of None \<Rightarrow> Inl NullDeref | Some p \<Rightarrow> Inr (peer_id p < hash_id))
          else Inr False)"

text \<open>The identifier computed in round \<open>i\<close> of the loop of \<^verbatim>\<open>check_chord_rules\<close>, and the
  function: the loop only assigns a local that is not used afterwards.\<close>

definition chord_check_id :: "byte16 \<Rightarrow> byte16 \<Rightarrow> nat \<Rightarrow> byte16" where
  "chord_check_id self count i =
     ucast ((ucast self :: byte32) + push_bit i 2 mod push_bit (unat count) 2)"

definition check_chord_rules ::
    "raw_fingertable \<Rightarrow> PeerInfo \<Rightarrow> fault + (raw_fingertable \<times> PeerInfo)" where
  "check_chord_rules raw_fingers current =
     (let raw = raw_fingers\<lparr>rf_count := 16\<rparr>; tmp = rf_fingers raw in
      case pi_this current of None \<Rightarrow> Inl NullDeref
      | Some t \<Rightarrow>
          let check_id = fold (\<lambda>i _. chord_check_id (peer_id t) (rf_count raw) i)
                           [0..<unat (rf_count raw)] 0
          in Inr (raw, current\<lparr>pi_this := Some (t\<lparr>peer_next_finger := tmp\<rparr>)\<rparr>))"

section \<open>The wire formats\<close>

text \<open>The contract of the two codecs: the bytes on the wire, in network byte order.\<close>

definition be16 :: "byte16 \<Rightarrow> bytes" where "be16 w = rev (le16 w)"
definition be32 :: "byte32 \<Rightarrow> bytes" where "be32 w = rev (le32 w)"

definition peer_wire :: "PeerProtocol \<Rightarrow> bytes" where
  "peer_wire p = peer_header p # be16 (pp_hashId p) @ be16 (pp_nodeId p) @ be32 (pp_nodeIp p)
     @ be16 (pp_nodePort p)"

definition client_wire :: "ClientProtocol \<Rightarrow> bytes \<Rightarrow> bytes \<Rightarrow> bytes" where
  "client_wire c k v = client_header c # be16 (cp_key_length c) @ be32 (cp_value_length c) @ k @ v"

text \<open>A flag field is well formed when it is zero or its own bit.\<close>

definition wf_PeerProtocol :: "PeerProtocol \<Rightarrow> bool" where
  "wf_PeerProtocol p \<longleftrightarrow>
     pp_control p \<in> {0, CONTROL_BIT} \<and> pp_finger p \<in> {0, FINGER_BIT} \<and>
     pp_fack p \<in> {0, FACK_BIT} \<and> pp_join p \<in> {0, JOIN_BIT} \<and>
     pp_notify p \<in> {0, NOTIFY_BIT} \<and> pp_stabilize p \<in> {0, STABILIZE_BIT} \<and>
     pp_reply p \<in> {0, REPLY_BIT} \<and> pp_lookup p \<in> {0, LOOKUP_BIT}"

definition wf_ClientProtocol :: "ClientProtocol \<Rightarrow> bool" where
  "wf_ClientProtocol c \<longleftrightarrow>
     cp_act c \<in> {0, ACK_BIT} \<and> cp_get c \<in> {0, GET_BIT} \<and>
     cp_set c \<in> {0, SET_BIT} \<and> cp_delete c \<in> {0, DELETE_BIT}"

text \<open>What a header byte means to the decoder.\<close>

definition with_header :: "byte8 \<Rightarrow> PeerProtocol \<Rightarrow> PeerProtocol" where
  "with_header h p = p\<lparr>pp_control := h AND CONTROL_BIT, pp_finger := h AND FINGER_BIT,
     pp_fack := h AND FACK_BIT, pp_join := h AND JOIN_BIT, pp_notify := h AND NOTIFY_BIT,
     pp_stabilize := h AND STABILIZE_BIT, pp_reply := h AND REPLY_BIT,
     pp_lookup := h AND LOOKUP_BIT\<rparr>"

lemma length_be [simp]: "length (be16 w) = 2" "length (be32 v) = 4"
  by (simp_all add: be16_def be32_def)

lemma be_le [mem_simps]: "le16 (htons w) = be16 w" "le32 (htonl v) = be32 v"
  by (simp_all add: be16_def be32_def le16_htons le32_htonl)

lemma le32_ucast [mem_simps]: "le32 (ucast (w :: byte16)) = le16 w @ [0, 0]"
  by (auto simp: le32_def le16_def bit_simps intro!: bit_word_eqI)

lemma load_be [mem_simps]:
  "load16 (Obj (be16 w @ r)) = Inr (htons w)"
  "load32 (Obj (be32 v @ r)) = Inr (htonl v)"
  using load_simps(2) [of "htons w" r] load_simps(3) [of "htonl v" r]
  by (simp_all add: be_le)

lemma length_peer_wire [simp]: "length (peer_wire p) = 11"
  by (simp add: peer_wire_def)

lemma store_append:
  "length xs = off \<Longrightarrow> length ys = length bs \<Longrightarrow> store off bs (xs @ ys @ zs) = Inr (xs @ bs @ zs)"
  by (simp add: store_def)

lemma calloc_peer: "calloc slack peerProtocolCalculateSize =
    [0] @ [0,0] @ [0,0] @ [0,0,0,0] @ [0,0] @ slack 11"
  by (simp add: calloc_def peerProtocolCalculateSize_def eval_nat_numeral)

lemma store_last:
  "store 9 (le16 w @ [0, 0]) (a # b @ c @ d @ [0, 0] @ s) =
     (if 2 \<le> length s then Inr (a # b @ c @ d @ le16 w @ [0, 0] @ drop 2 s) else Inl OutOfBounds)"
  if "length b = 2" "length c = 2" "length d = 4"
  using that by (simp add: store_def)

lemma encode_peerProtocol_eq:
  "encode_peerProtocol slack p =
     (if 2 \<le> length (slack 11) then Inr (peer_wire p @ [0, 0] @ drop 2 (slack 11))
      else Inl OutOfBounds)"
proof -
  let ?s = "slack 11" and ?z = "[0, 0] :: bytes"
  have 0: "store 0 [h] ([0] @ zs) = Inr ([h] @ zs)" for h zs
    using store_append [of "[]" 0 "[0]" "[h]" zs] by simp
  have 1: "store 1 (be16 w) ([h] @ ?z @ zs) = Inr ([h] @ be16 w @ zs)" for h w zs
    by (rule store_append) simp_all
  have 3: "store 3 (be16 w) (([h] @ be16 v) @ ?z @ zs) = Inr (([h] @ be16 v) @ be16 w @ zs)"
    for h v w zs by (rule store_append) simp_all
  have 5: "store 5 (be32 x) (([h] @ be16 v @ be16 w) @ [0,0,0,0] @ zs)
      = Inr (([h] @ be16 v @ be16 w) @ be32 x @ zs)" for h v w x zs
    by (rule store_append) simp_all
  show ?thesis
    using 0 1 3 5 store_last [of "be16 (pp_hashId p)" "be16 (pp_nodeId p)" "be32 (pp_nodeIp p)"
        "htons (pp_nodePort p)" "peer_header p" ?s]
    by (simp add: encode_peerProtocol_def calloc_peer mem_simps peer_wire_def del: One_nat_def)
qed

lemma two_le_length: "2 \<le> length r \<Longrightarrow> \<exists>x y s. r = x # y # s"
  by (cases r; cases "tl r") auto

lemma load_last:
  "load32 (Obj (be16 w @ r)) = (if 2 \<le> length r then Inr (of_le32 (be16 w @ r)) else Inl OutOfBounds)"
  by (auto simp: load32_def read_bytes.simps be16_def le16_def dest!: two_le_length)

lemma ucast_of_le32_be16: "2 \<le> length r \<Longrightarrow> ucast (of_le32 (be16 w @ r)) = htons w"
  by (auto simp: be16_def le16_def htons_def bit_simps intro!: bit_word_eqI dest!: two_le_length)

lemma decode_peer_wire:
  "decode_peerProtocol (Obj (peer_wire p @ r)) d =
     (if 2 \<le> length r then Inr (with_header (peer_header p) p) else Inl OutOfBounds)"
  by (simp add: decode_peerProtocol_def peer_wire_def mem_simps load_last
    ucast_of_le32_be16 with_header_def del: One_nat_def)

lemma decode_short_peer:
  assumes "length bs < 13" shows "decode_peerProtocol (Obj bs) d = Inl OutOfBounds"
  using assms 
  by (auto simp add: decode_peerProtocol_def load8_def load16_def load32_def read_bytes.simps bindr_def Let_def split: sum.splits)

lemma flag_ex: "f = 0 \<or> f = c \<Longrightarrow> \<exists>b. f = (if b then c else (0 :: byte8))"
  by auto

lemma if_AND: "(if b then x else y) AND c = (if b then x AND c else y AND (c :: byte8))"
  by simp

lemma wf_with_header:
  assumes "wf_PeerProtocol p" shows "with_header (peer_header p) p = p"
proof -
  have w: "pp_control p = 0 \<or> pp_control p = 1" "pp_finger p = 0 \<or> pp_finger p = 2"
    "pp_fack p = 0 \<or> pp_fack p = 4" "pp_join p = 0 \<or> pp_join p = 8"
    "pp_notify p = 0 \<or> pp_notify p = 16" "pp_stabilize p = 0 \<or> pp_stabilize p = 32"
    "pp_reply p = 0 \<or> pp_reply p = 64" "pp_lookup p = 0 \<or> pp_lookup p = 128"
    using assms by (simp_all add: wf_PeerProtocol_def peer_bits)
  obtain b0 b1 b2 b3 b4 b5 b6 b7 where f:
    "pp_control p = (if b0 then 1 else 0)" "pp_finger p = (if b1 then 2 else 0)"
    "pp_fack p = (if b2 then 4 else 0)" "pp_join p = (if b3 then 8 else 0)"
    "pp_notify p = (if b4 then 16 else 0)" "pp_stabilize p = (if b5 then 32 else 0)"
    "pp_reply p = (if b6 then 64 else 0)" "pp_lookup p = (if b7 then 128 else 0)"
    using w [THEN flag_ex] by (elim exE)
  have h: "peer_header p AND c = (if b0 then 1 AND c else 0) OR (if b1 then 2 AND c else 0)
     OR (if b2 then 4 AND c else 0) OR (if b3 then 8 AND c else 0) OR (if b4 then 16 AND c else 0)
     OR (if b5 then 32 AND c else 0) OR (if b6 then 64 AND c else 0)
     OR (if b7 then 128 AND c else 0)" for c
    by (simp only: peer_header_def f bit.conj_disj_distrib2 if_AND and_zero_eq bit.conj_zero_left)
  show ?thesis
    by (rule PeerProtocol.equality) (simp_all add: with_header_def h peer_bits f)
qed

section \<open>Client messages on the wire\<close>

lemma unat_clientProtocolCalculateSize:
  "unat (clientProtocolCalculateSize c) = 7 + unat (cp_key_length c) + unat (cp_value_length c)"
proof -
  have b: "unat (cp_key_length c) < 2 ^ 16" "unat (cp_value_length c) < 2 ^ 32"
    by (rule order_less_le_trans [OF unsigned_less], simp)+
  have k: "unat (ucast (cp_key_length c) :: size_t) = unat (cp_key_length c)"
    and v: "unat (ucast (cp_value_length c) :: size_t) = unat (cp_value_length c)"
    using b by (simp_all add: unsigned_ucast_eq take_bit_nat_eq_self)
  from b show ?thesis
    by (simp add: clientProtocolCalculateSize_def unat_word_ariths k v)
qed

lemma length_client_wire:
  "length (client_wire c k v) = 7 + length k + length v"
  by (simp add: client_wire_def)

lemma encode_clientProtocol_eq:
  assumes k: "read_bytes (cp_key c) (unat (cp_key_length c)) = Inr k"
    and v: "read_bytes (cp_value c) (unat (cp_value_length c)) = Inr v"
  shows "encode_clientProtocol slack c =
    Inr (client_wire c k v @ slack (unat (clientProtocolCalculateSize c)))"
proof -
  let ?kl = "unat (cp_key_length c)" and ?vl = "unat (cp_value_length c)"
  let ?s = "slack (unat (clientProtocolCalculateSize c))"
  have lk: "length k = ?kl" and lv: "length v = ?vl"
    using k v by (auto dest: read_bytes_length)
  have "replicate (7 + ?kl + ?vl) (0 :: byte8)
      = [0] @ [0,0] @ [0,0,0,0] @ replicate ?kl 0 @ replicate ?vl 0"
    by (simp add: replicate_add numeral_eq_Suc)
  then have z: "calloc slack (unat (clientProtocolCalculateSize c))
      = [0] @ [0,0] @ [0,0,0,0] @ replicate ?kl 0 @ replicate ?vl 0 @ ?s"
    by (simp add: calloc_def unat_clientProtocolCalculateSize)
  let ?h = "[client_header c]" and ?a = "be16 (cp_key_length c)" and ?b = "be32 (cp_value_length c)"
  let ?rk = "replicate ?kl (0 :: byte8)" and ?rv = "replicate ?vl (0 :: byte8)"
  have 0: "store 0 ?h ([0] @ zs) = Inr (?h @ zs)" for zs
    using store_append [of "[]" 0 "[0]" ?h zs] by simp
  have 1: "store 1 ?a (?h @ [0,0] @ zs) = Inr (?h @ ?a @ zs)" for zs
    by (rule store_append) simp_all
  have 3: "store 3 ?b ((?h @ ?a) @ [0,0,0,0] @ zs) = Inr ((?h @ ?a) @ ?b @ zs)" for zs
    by (rule store_append) simp_all
  have 7: "store 7 k ((?h @ ?a @ ?b) @ ?rk @ zs) = Inr ((?h @ ?a @ ?b) @ k @ zs)" for zs
    by (rule store_append) (simp_all add: lk)
  have 8: "store (7 + ?kl) v ((?h @ ?a @ ?b @ k) @ ?rv @ zs) = Inr ((?h @ ?a @ ?b @ k) @ v @ zs)"
    for zs by (rule store_append) (simp_all add: lk lv)
  show ?thesis
    using 0 1 3 7 8
    by (simp add: encode_clientProtocol_def z mem_simps memcpy_def k v client_wire_def del: One_nat_def)
qed

definition client_view :: "byte8 \<Rightarrow> ClientProtocol \<Rightarrow> ptr \<Rightarrow> ptr \<Rightarrow> ClientProtocol \<Rightarrow> ClientProtocol" where
  "client_view h c k v d = d\<lparr>cp_act := h AND ACK_BIT, cp_get := h AND GET_BIT,
     cp_set := h AND SET_BIT, cp_delete := h AND DELETE_BIT,
     cp_key_length := cp_key_length c, cp_value_length := cp_value_length c,
     cp_key := (if cp_key_length c = 0 then Null else k),
     cp_value := (if cp_value_length c = 0 then Null else v)\<rparr>"

lemma decode_client_wire:
  assumes "length k = unat (cp_key_length c)"
  shows "decode_clientProtocol (Obj (client_wire c k v @ r)) d =
    Inr (client_view (client_header c) c (Obj (k @ v @ r)) (Obj (v @ r)) d)"
proof -
  have 7: "ptr_add (Obj (client_wire c k v @ r)) 7 = Obj (k @ v @ r)"
    by (simp add: client_wire_def)
  have 8: "ptr_add (Obj (client_wire c k v @ r)) (7 + unat (cp_key_length c)) = Obj (v @ r)"
    using assms 7 by (metis append_eq_conv_conj ptr_add.simps(3) drop_drop add.commute ptr.inject)
  have 0: "load8 (Obj (client_wire c k v @ r)) = Inr (client_header c)"
    "load16 (ptr_add (Obj (client_wire c k v @ r)) 1) = Inr (htons (cp_key_length c))"
    "load32 (ptr_add (Obj (client_wire c k v @ r)) 3) = Inr (htonl (cp_value_length c))"
    by (simp_all add: client_wire_def mem_simps del: One_nat_def)
  show ?thesis
    by (simp add: decode_clientProtocol_def 0 7 8 client_view_def Let_def
        del: One_nat_def ptr_add.simps)
qed

lemma decode_client_obj:
  assumes "7 \<le> length bs"
  obtains c where "decode_clientProtocol (Obj bs) d = Inr c"
    "cp_key c = (if cp_key_length c = 0 then Null else Obj (drop 7 bs))"
    "cp_value c = (if cp_value_length c = 0 then Null
       else Obj (drop (7 + unat (cp_key_length c)) bs))"
  using assms
  by (simp add: decode_clientProtocol_def load8_def load16_def load32_def Let_def)

lemma decode_client_short:
  "length bs < 7 \<Longrightarrow> decode_clientProtocol (Obj bs) d = Inl OutOfBounds"
  by (auto simp: decode_clientProtocol_def load8_def load16_def load32_def read_bytes.simps Let_def)

lemma wf_client_view:
  assumes "wf_ClientProtocol c"
  shows "client_header c AND ACK_BIT = cp_act c" "client_header c AND GET_BIT = cp_get c"
    "client_header c AND SET_BIT = cp_set c" "client_header c AND DELETE_BIT = cp_delete c"
proof -
  have w: "cp_act c = 0 \<or> cp_act c = 16" "cp_get c = 0 \<or> cp_get c = 32"
    "cp_set c = 0 \<or> cp_set c = 64" "cp_delete c = 0 \<or> cp_delete c = 128"
    using assms by (simp_all add: wf_ClientProtocol_def client_bits)
  obtain b0 b1 b2 b3 where f: "cp_act c = (if b0 then 16 else 0)" "cp_get c = (if b1 then 32 else 0)"
    "cp_set c = (if b2 then 64 else 0)" "cp_delete c = (if b3 then 128 else 0)"
    using w [THEN flag_ex] by (elim exE)
  have h: "client_header c AND m = (if b0 then 16 AND m else 0) OR (if b1 then 32 AND m else 0)
     OR (if b2 then 64 AND m else 0) OR (if b3 then 128 AND m else 0)" for m
    by (simp only: client_header_def f bit.conj_disj_distrib2 if_AND and_zero_eq bit.conj_zero_left)
  show "client_header c AND ACK_BIT = cp_act c" "client_header c AND GET_BIT = cp_get c"
    "client_header c AND SET_BIT = cp_set c" "client_header c AND DELETE_BIT = cp_delete c"
    by (simp_all add: h client_bits f)
qed

section \<open>The codec interface\<close>

text \<open>
  What the rest of the program needs of a wire format: decoding a received object that starts
  with an encoded message gives the message's view, whatever follows it, as long as there is
  \<open>room\<close> for the decoder's loads.
\<close>

locale wire_codec =
  fixes wire :: "'m \<Rightarrow> bytes"
    and dec :: "bytes \<Rightarrow> fault + 'n"
    and view :: "'m \<Rightarrow> bytes \<Rightarrow> 'n"
    and content :: "'n \<Rightarrow> 'c"
    and meaning :: "'m \<Rightarrow> 'c"
    and wf :: "'m \<Rightarrow> bool"
    and room :: "bytes \<Rightarrow> bool"
  assumes dec_wire: "wf m \<Longrightarrow> room r \<Longrightarrow> dec (wire m @ r) = Inr (view m r)"
    and content_view: "wf m \<Longrightarrow> room r \<Longrightarrow> content (view m r) = meaning m"
    and room_ex: "\<exists>r. room r"
begin

lemma relay_same_content:
  assumes "wf m" "room r" "room r'"
  shows "\<exists>x y. dec (wire m @ r) = Inr x \<and> dec (wire m @ r') = Inr y \<and> content x = content y"
  using assms by (simp add: dec_wire content_view)

lemma wire_determines_meaning:
  assumes "wf m" "wf m'" "wire m = wire m'"
  shows "meaning m = meaning m'"
proof -
  obtain r where r: "room r" using room_ex by blast
  have "view m r = view m' r"
    using dec_wire [OF assms(1) r] dec_wire [OF assms(2) r] assms(3) by simp
  then show ?thesis
    using content_view [OF assms(1) r] content_view [OF assms(2) r] by simp
qed

end

interpretation peer_codec: wire_codec
  peer_wire "\<lambda>bs. decode_peerProtocol (Obj bs) zero_PeerProtocol" "\<lambda>p _. p" id id
  wf_PeerProtocol "\<lambda>r. 2 \<le> length r"
proof unfold_locales
  show "\<exists>r :: bytes. 2 \<le> length r" by (rule exI [of _ "[0, 0]"]) simp
qed (simp_all add: decode_peer_wire wf_with_header)

text \<open>A client message with its key and value bytes; its meaning is what the decoder lets the
  program read: the flags and the two byte strings.\<close>

type_synonym client_message = "ClientProtocol \<times> bytes \<times> bytes"

definition wf_client_message :: "client_message \<Rightarrow> bool" where
  "wf_client_message = (\<lambda>(c, k, v). wf_ClientProtocol c \<and>
     length k = unat (cp_key_length c) \<and> length v = unat (cp_value_length c))"

definition client_content :: "ClientProtocol \<Rightarrow>
    (byte8 \<times> byte8 \<times> byte8 \<times> byte8) \<times> (fault + bytes) \<times> (fault + bytes)" where
  "client_content c = ((cp_act c, cp_get c, cp_set c, cp_delete c),
     read_bytes (cp_key c) (unat (cp_key_length c)),
     read_bytes (cp_value c) (unat (cp_value_length c)))"

lemma client_content_view:
  assumes "wf_client_message (c, k, v)"
  shows "client_content (client_view (client_header c) c (Obj (k @ v @ r)) (Obj (v @ r)) d)
    = ((cp_act c, cp_get c, cp_set c, cp_delete c), Inr k, Inr v)"
  using assms
  by (auto simp: wf_client_message_def client_content_def client_view_def wf_client_view
      unat_eq_0)

interpretation client_codec: wire_codec
  "\<lambda>(c, k, v). client_wire c k v" "\<lambda>bs. decode_clientProtocol (Obj bs) zero_ClientProtocol"
  "\<lambda>(c, k, v) r. client_view (client_header c) c (Obj (k @ v @ r)) (Obj (v @ r)) zero_ClientProtocol"
  client_content "\<lambda>(c, k, v). ((cp_act c, cp_get c, cp_set c, cp_delete c), Inr k, Inr v)"
  wf_client_message "\<lambda>_. True"
proof unfold_locales
  fix m :: client_message and r
  assume wf: "wf_client_message m"
  obtain c k v where m: "m = (c, k, v)" by (cases m) auto
  show "decode_clientProtocol (Obj ((case m of (c, k, v) \<Rightarrow> client_wire c k v) @ r)) zero_ClientProtocol
      = Inr ((case m of (c, k, v) \<Rightarrow> \<lambda>r. client_view (client_header c) c (Obj (k @ v @ r)) (Obj (v @ r))
             zero_ClientProtocol) r)"
    using wf by (simp add: m wf_client_message_def decode_client_wire)
  show "client_content ((case m of (c, k, v) \<Rightarrow> \<lambda>r. client_view (client_header c) c (Obj (k @ v @ r))
        (Obj (v @ r)) zero_ClientProtocol) r)
      = (case m of (c, k, v) \<Rightarrow> ((cp_act c, cp_get c, cp_set c, cp_delete c), Inr k, Inr v))"
    using wf client_content_view by (simp add: m)
qed simp

section \<open>Properties of the codecs\<close>

text \<open>C24: the bytes of an encoded peer message: the eleven bytes that are sent are the header and
  the four fields in network order, provided the heap chunk has two bytes more than the eleven
  that were requested; otherwise the last store leaves the block.\<close>

theorem peer_message_layout:
  "bindr (encode_peerProtocol slack p) (\<lambda>m. read_bytes (Obj m) peerProtocolCalculateSize) =
     (if 2 \<le> length (slack 11) then Inr (peer_wire p) else Inl OutOfBounds)"
  by (simp add: encode_peerProtocol_eq peerProtocolCalculateSize_def)

text \<open>C22: decoding what the encoder produced gives back every field of a well-formed message.\<close>

theorem peer_message_roundtrip:
  assumes "wf_PeerProtocol p" and "2 \<le> length (slack 11)"
  shows "bindr (encode_peerProtocol slack p) (\<lambda>m. decode_peerProtocol (Obj m) d) = Inr p"
proof -
  have "encode_peerProtocol slack p = Inr (peer_wire p @ [0, 0] @ drop 2 (slack 11))"
    using assms(2) by (simp add: encode_peerProtocol_eq)
  moreover have "decode_peerProtocol (Obj (peer_wire p @ [0, 0] @ drop 2 (slack 11))) d = Inr p"
    by (simp add: decode_peer_wire wf_with_header assms(1) del: append_Cons)
  ultimately show ?thesis by simp
qed

theorem peer_message_roundtrip_witness:
  "bindr (encode_peerProtocol (\<lambda>_. [1, 2, 3])
       (zero_PeerProtocol\<lparr>pp_control := CONTROL_BIT, pp_lookup := LOOKUP_BIT, pp_hashId := 17\<rparr>))
     (\<lambda>m. decode_peerProtocol (Obj m) zero_PeerProtocol) =
   Inr (zero_PeerProtocol\<lparr>pp_control := CONTROL_BIT, pp_lookup := LOOKUP_BIT, pp_hashId := 17\<rparr>)"
  by (rule peer_message_roundtrip) (simp_all add: wf_PeerProtocol_def zero_PeerProtocol_def)

text \<open>
  The peer decoder needs thirteen readable bytes, two more than the encoder's message
  has: it succeeds on exactly the objects that are at least that long.\<close>

theorem peer_decode_needs_13_bytes:
  "(\<exists>p. decode_peerProtocol (Obj bs) d = Inr p) \<longleftrightarrow> 13 \<le> length bs"
proof
  assume "\<exists>p. decode_peerProtocol (Obj bs) d = Inr p"
  then show "13 \<le> length bs" using decode_short_peer [of bs d] by fastforce
next
  assume "13 \<le> length bs"
  then show "\<exists>p. decode_peerProtocol (Obj bs) d = Inr p"
    by (simp add: decode_peerProtocol_def load8_def load16_def load32_def Let_def)
qed

text \<open>C23: a client message whose key and value can be read survives encoding and decoding: the
  flags, the key bytes and the value bytes come back, and the message is as long as
  \<^verbatim>\<open>clientProtocolCalculateSize\<close> says.\<close>

theorem client_message_roundtrip:
  assumes wf: "wf_ClientProtocol c"
    and k: "read_bytes (cp_key c) (unat (cp_key_length c)) = Inr k"
    and v: "read_bytes (cp_value c) (unat (cp_value_length c)) = Inr v"
    and s: "slack (unat (clientProtocolCalculateSize c)) = []"
  shows "\<exists>m c'. encode_clientProtocol slack c = Inr m \<and>
    length m = unat (clientProtocolCalculateSize c) \<and>
    decode_clientProtocol (Obj m) zero_ClientProtocol = Inr c' \<and>
    client_content c' = client_content c"
proof -
  have len: "length k = unat (cp_key_length c)" "length v = unat (cp_value_length c)"
    using k v by (auto dest: read_bytes_length)
  then have wfm: "wf_client_message (c, k, v)"
    using wf by (simp add: wf_client_message_def)
  have enc: "encode_clientProtocol slack c = Inr (client_wire c k v)"
    using encode_clientProtocol_eq [OF k v] s by simp
  have "client_content c = ((cp_act c, cp_get c, cp_set c, cp_delete c), Inr k, Inr v)"
    by (simp add: client_content_def k v)
  with enc client_codec.dec_wire [OF wfm, of "[]"]
    client_codec.content_view [OF wfm, of "[]"] show ?thesis
    by (simp add: length_client_wire len unat_clientProtocolCalculateSize)
qed

theorem client_message_roundtrip_witness:
  "let c = zero_ClientProtocol\<lparr>cp_set := SET_BIT, cp_key_length := 1, cp_value_length := 2,
       cp_key := Obj [7], cp_value := Obj [8, 9]\<rparr>
   in \<exists>m c'. encode_clientProtocol (\<lambda>_. []) c = Inr m \<and>
     length m = unat (clientProtocolCalculateSize c) \<and>
     decode_clientProtocol (Obj m) zero_ClientProtocol = Inr c' \<and>
     client_content c' = client_content c"
  unfolding Let_def
  by (rule client_message_roundtrip [where k = "[7]" and v = "[8, 9]"])
    (simp_all add: wf_ClientProtocol_def zero_ClientProtocol_def)

text \<open>
  The client decoder trusts the length fields: it accepts every object of seven bytes,
  and reading the key it returns leaves the object exactly when the announced key is longer
  than what follows the header.\<close>

theorem client_key_length_unchecked:
  assumes "7 \<le> length bs"
  shows "\<exists>c. decode_clientProtocol (Obj bs) d = Inr c \<and>
    ((\<exists>k. read_bytes (cp_key c) (unat (cp_key_length c)) = Inr k) \<longleftrightarrow>
       7 + unat (cp_key_length c) \<le> length bs)"
proof -
  obtain c where c: "decode_clientProtocol (Obj bs) d = Inr c"
    "cp_key c = (if cp_key_length c = 0 then Null else Obj (drop 7 bs))"
    by (rule decode_client_obj [OF assms])
  have "(\<exists>k. read_bytes (cp_key c) (unat (cp_key_length c)) = Inr k) \<longleftrightarrow>
      7 + unat (cp_key_length c) \<le> length bs"
    using assms by (auto simp: c(2) unat_eq_0 read_bytes.simps)
  with c(1) show ?thesis by blast
qed

theorem client_key_length_unchecked_witness:
  "\<exists>c. decode_clientProtocol (Obj [0x20, 0, 9, 0, 0, 0, 0, 1]) zero_ClientProtocol = Inr c \<and>
    ((\<exists>k. read_bytes (cp_key c) (unat (cp_key_length c)) = Inr k) \<longleftrightarrow>
       7 + unat (cp_key_length c) \<le> length [0x20, 0, 9, 0, 0, 0, 0, 1 :: byte8])"
  by (rule client_key_length_unchecked) simp

section \<open>Responsibility\<close>

lemma id_is_between_peers:
  "id_is_between h (Some t) (Some p) = Inr (in_range h (peer_id t) (peer_id p))"
  by (simp add: id_is_between_def in_range_def)

text \<open>
  In a ring of two peers the one with the smaller identifier is never responsible, and
  the other one only for the identifiers strictly between the two: both end points and the
  arc through zero have no responsible peer.\<close>

theorem two_peer_responsibility:
  assumes "peer_id a < peer_id b"
  shows "id_is_between h (Some a) (Some b) = Inr False \<and>
    id_is_between h (Some b) (Some a) = Inr (peer_id a < h \<and> h < peer_id b)"
  using assms by (auto simp: id_is_between_peers in_range_def)

theorem two_peer_responsibility_witness:
  "let a = zero_Peer\<lparr>peer_id := 10\<rparr>; b = zero_Peer\<lparr>peer_id := 20\<rparr> in
   id_is_between 20 (Some a) (Some b) = Inr False \<and>
   id_is_between 20 (Some b) (Some a) = Inr (peer_id a < 20 \<and> 20 < peer_id b)"
  unfolding Let_def by (rule two_peer_responsibility) (simp add: zero_Peer_def)

lemma finger_distances: "list_all (\<lambda>i. (ucast (push_bit i 2 mod push_bit 16 (2 :: byte32)) :: byte16)
     = (if i < 15 then 2 ^ Suc i else 0)) [0..<16]"
  by code_simp

lemma take_bit_16_add_32:
  "take_bit 16 (take_bit 32 x + take_bit 32 y) = take_bit 16 (x + y :: int)"
proof -
  have "take_bit 16 (x + y) = take_bit 16 (take_bit 16 (take_bit 32 x) + take_bit 16 (take_bit 32 y))"
    by (simp add: take_bit_add)
  then show ?thesis by (simp only: take_bit_add)
qed

lemma ucast_add16: "(ucast (x + y :: byte32) :: byte16) = ucast x + ucast y"
  by transfer (simp add: take_bit_16_add_32)

lemma ucast_up_down16 [simp]: "(ucast (ucast (x :: byte16) :: byte32) :: byte16) = x"
  by (rule bit_word_eqI) (simp add: bit_simps)

text \<open>
  The identifiers of \<^verbatim>\<open>check_chord_rules\<close> (and of \<^verbatim>\<open>buildfinger\<close>) are at the
  distances 2, 4, ..., 32768 and, in the last round, at distance 0: the powers are shifted by
  one against the distances \<^verbatim>\<open>pow(2, i)\<close> of the comment.\<close>

theorem chord_check_id_distance:
  assumes "i < 16"
  shows "chord_check_id self 16 i = (if i < 15 then self + 2 ^ Suc i else self)"
proof -
  have "(ucast (push_bit i 2 mod push_bit 16 (2 :: byte32)) :: byte16)
      = (if i < 15 then 2 ^ Suc i else 0)"
    using finger_distances assms by (auto simp: list_all_iff simp del: power_Suc)
  then show ?thesis
    by (simp add: chord_check_id_def ucast_add16 del: power_Suc)
qed

theorem chord_check_id_distance_witness:
  "chord_check_id 65534 16 0 = (if 0 < (15 :: nat) then 65534 + 2 ^ Suc 0 else 65534)"
  by (rule chord_check_id_distance) simp
end
