(* ===== verification/Os.thy ===== *)
theory Os
  imports Data_Helper
begin

text \<open>
  The operating system the program runs on, as far as the program can see it: an oracle that
  answers each system call from the history of all calls made before, and the history itself,
  which is the state of the network code. No answer is fixed; what a property needs of the
  system is a hypothesis on the oracle. Sending on a closed connection (\<^verbatim>\<open>SIGPIPE\<close>) and
  running out of memory outside the hash table are not modelled.
\<close>

section \<open>Addresses\<close>

definition AF_UNSPEC :: nat where "AF_UNSPEC = 0"
definition AF_INET :: nat where "AF_INET = 2"
definition AF_INET6 :: nat where "AF_INET6 = 10"
definition SOCK_STREAM :: nat where "SOCK_STREAM = 1"
definition AI_PASSIVE :: nat where "AI_PASSIVE = 1"

text \<open>The input of \<^verbatim>\<open>getaddrinfo\<close> and one element of its result list; \<open>ai_addr\<close> is the
  memory of the \<^verbatim>\<open>sockaddr\<close>.\<close>

record hints =
  hint_flags :: nat
  hint_family :: nat
  hint_socktype :: nat

record AddressInfo =
  ai_family :: nat
  ai_socktype :: nat
  ai_protocol :: nat
  ai_addr :: bytes

text \<open>\<^verbatim>\<open>inet_ntop\<close> of the platform's C library, both families. The longest run of at least
  two zero groups, the first of the longest ones, becomes \<^verbatim>\<open>::\<close>.\<close>

definition hex_lower :: "nat \<Rightarrow> char" where
  "hex_lower d = (if d < 10 then char_of (48 + d) else char_of (87 + d))"

fun hex_group :: "nat \<Rightarrow> string" where
  "hex_group n = (if n < 16 then [hex_lower n] else hex_group (n div 16) @ [hex_lower (n mod 16)])"

declare hex_group.simps [simp del]

definition zero_run :: "nat list \<Rightarrow> nat \<Rightarrow> nat" where
  "zero_run ws i = length (takeWhile (\<lambda>w. w = 0) (drop i ws))"

definition best_run :: "nat list \<Rightarrow> nat \<times> nat" where
  "best_run ws = foldl (\<lambda>(b, l) i. if 2 \<le> zero_run ws i \<and> l < zero_run ws i
     then (i, zero_run ws i) else (b, l)) (length ws, 0) [0..<length ws]"

fun groups_text :: "nat list \<Rightarrow> nat \<Rightarrow> nat \<Rightarrow> string \<Rightarrow> nat list \<Rightarrow> string" where
  "groups_text ws b l v4 [] = (if 0 < l \<and> b + l = length ws then '':'' else [])"
| "groups_text ws b l v4 (i # is) =
     (if b \<le> i \<and> i < b + l then (if i = b then '':'' else []) @ groups_text ws b l v4 is
      else (if i = 0 then [] else '':'') @
        (if i = 6 \<and> b = 0 \<and> (l = 6 \<or> l = 5 \<and> ws ! 5 = 0xffff) then v4
         else hex_group (ws ! i) @ groups_text ws b l v4 is))"

fun words_of :: "bytes \<Rightarrow> nat list" where
  "words_of (h # l # bs) = (256 * unat h + unat l) # words_of bs"
| "words_of _ = []"

definition inet_ntop6 :: "bytes \<Rightarrow> string" where
  "inet_ntop6 src = (let ws = words_of src in
     case best_run ws of (b, l) \<Rightarrow>
       groups_text ws b l (inet_ntop4 (of_le32 (drop 12 src))) [0..<length ws])"

text \<open>The text, and \<^verbatim>\<open>None\<close> for another family or a buffer it does not fit in.\<close>

definition inet_ntop :: "nat \<Rightarrow> ptr \<Rightarrow> nat \<Rightarrow> fault + string option" where
  "inet_ntop family src room =
     (if family = AF_INET
      then bindr (read_bytes src 4) (\<lambda>bs. let s = inet_ntop4 (of_le32 bs) in
           Inr (if length s + 1 \<le> room then Some s else None))
      else if family = AF_INET6
      then bindr (read_bytes src 16) (\<lambda>bs. let s = inet_ntop6 bs in
           Inr (if length s + 1 \<le> room then Some s else None))
      else Inr None)"

section \<open>Calls and their history\<close>

datatype event =
    Ev_getaddrinfo "string option" "string option"
  | Ev_socket AddressInfo int
  | Ev_connect int AddressInfo int
  | Ev_setsockopt int int
  | Ev_bind int AddressInfo int
  | Ev_listen int int
  | Ev_sigaction int
  | Ev_accept int int
  | Ev_close int
  | Ev_recv int "bytes option"
  | Ev_send int bytes
  | Ev_send_efault int
  | Ev_realloc nat
  | Ev_sleep nat
  | Ev_stdout bytes

record os =
  os_getaddrinfo :: "event list \<Rightarrow> string option \<Rightarrow> string option \<Rightarrow> hints \<Rightarrow> int \<times> AddressInfo list"
  os_socket :: "event list \<Rightarrow> AddressInfo \<Rightarrow> int"
  os_connect :: "event list \<Rightarrow> int \<Rightarrow> AddressInfo \<Rightarrow> int"
  os_setsockopt :: "event list \<Rightarrow> int \<Rightarrow> int"
  os_bind :: "event list \<Rightarrow> int \<Rightarrow> AddressInfo \<Rightarrow> int"
  os_listen :: "event list \<Rightarrow> int \<Rightarrow> int"
  os_sigaction :: "event list \<Rightarrow> int"
  os_accept :: "event list \<Rightarrow> int \<Rightarrow> int \<times> bytes"
  os_recv :: "event list \<Rightarrow> int \<Rightarrow> bytes option"
  os_slack :: "event list \<Rightarrow> nat \<Rightarrow> bytes"
  os_realloc_moves :: "event list \<Rightarrow> bool"
  os_can_alloc :: "nat \<Rightarrow> bool"
  os_junk :: "event list \<Rightarrow> PeerProtocol"
  os_stack :: "event list \<Rightarrow> bytes"

text \<open>The state of the network code. The states of the programs extend it.\<close>

record net =
  trace :: "event list"

definition log_event :: "event \<Rightarrow> ('z net_scheme, unit) cmd" where
  "log_event e = modifyc (\<lambda>s. s\<lparr>trace := trace s @ [e]\<rparr>)"

definition sys :: "(event list \<Rightarrow> 'r) \<Rightarrow> ('r \<Rightarrow> event) \<Rightarrow> ('z net_scheme, 'r) cmd" where
  "sys answer ev =
     bindc getc (\<lambda>s. let r = answer (trace s) in seqc (log_event (ev r)) (ret r))"

lemma log_event_run [cmd_simps]: "log_event e s = (Inr (), s\<lparr>trace := trace s @ [e]\<rparr>)"
  by (simp add: log_event_def)

lemma sys_run [cmd_simps]:
  "sys answer ev s = (Inr (answer (trace s)), s\<lparr>trace := trace s @ [ev (answer (trace s))]\<rparr>)"
  by (simp add: sys_def cmd_simps Let_def)

text \<open>\<^verbatim>\<open>send\<close>, whose result the program never looks at. The kernel refuses a \<^verbatim>\<open>NULL\<close>
  buffer; a length that runs past the object is a read outside of it.\<close>

definition send :: "int \<Rightarrow> ptr \<Rightarrow> nat \<Rightarrow> ('z net_scheme, unit) cmd" where
  "send sock_fd p n =
     (if p = Null \<and> 0 < n then log_event (Ev_send_efault sock_fd)
      else bindc (liftr (read_bytes p n)) (\<lambda>bs. log_event (Ev_send sock_fd bs)))"

text \<open>A socket is listening after a successful \<^verbatim>\<open>listen\<close> until it is closed.\<close>

fun listening_rev :: "int \<Rightarrow> event list \<Rightarrow> bool" where
  "listening_rev fd [] = False"
| "listening_rev fd (Ev_listen d r # h) =
     (if d = fd \<and> r = 0 then True else listening_rev fd h)"
| "listening_rev fd (Ev_close d # h) = (if d = fd then False else listening_rev fd h)"
| "listening_rev fd (_ # h) = listening_rev fd h"

definition listening :: "event list \<Rightarrow> int \<Rightarrow> bool" where
  "listening h fd = listening_rev fd (rev h)"

lemma listening_snoc [simp]:
  "listening (h @ [e]) fd = (case e of
     Ev_listen d r \<Rightarrow> if d = fd \<and> r = 0 then True else listening h fd
   | Ev_close d \<Rightarrow> if d = fd then False else listening h fd
   | _ \<Rightarrow> listening h fd)"
  by (cases e) (simp_all add: listening_def)

text \<open>Documented behaviour of \<^verbatim>\<open>accept\<close>: it fails on a descriptor that is not listening.\<close>

definition accept_needs_listen :: "os \<Rightarrow> bool" where
  "accept_needs_listen os \<longleftrightarrow> (\<forall>h fd. \<not> listening h fd \<longrightarrow> fst (os_accept os h fd) = -1)"

section \<open>Commands that only make calls\<close>

text \<open>A command that changes nothing but the history, and only appends to it; what it does is the
  same whatever the program's state holds besides.\<close>

definition net_only :: "('z net_scheme, 'a) cmd \<Rightarrow> bool" where
  "net_only m \<longleftrightarrow> (\<forall>s. \<exists>h. snd (m s) = s\<lparr>trace := trace s @ h\<rparr>)"

lemma net_onlyD: "net_only m \<Longrightarrow> \<exists>h. snd (m s) = s\<lparr>trace := trace s @ h\<rparr>"
  by (simp add: net_only_def)

lemma net_append_self [simp]: "s\<lparr>trace := trace s @ []\<rparr> = s"
  by simp

named_theorems net_intros \<open>commands that only make calls\<close>

lemma net_only_basic [net_intros]:
  "net_only (ret x)" "net_only (failc f)" "net_only (liftr r)" "net_only (log_event e)"
  "net_only (sys a ev)" "net_only (Pair r)"
  by (auto simp: net_only_def cmd_simps intro: exI [of _ "[]"])

lemma net_only_bindc [net_intros]:
  assumes m: "net_only m" and k: "\<And>x. net_only (k x)"
  shows "net_only (bindc m k)"
  unfolding net_only_def
proof
  fix s
  obtain h where h: "snd (m s) = s\<lparr>trace := trace s @ h\<rparr>" using net_onlyD [OF m] by blast
  show "\<exists>h. snd (bindc m k s) = s\<lparr>trace := trace s @ h\<rparr>"
  proof (cases "fst (m s)")
    case (Inl f)
    with h show ?thesis by (cases "m s") (auto simp: cmd_simps)
  next
    case (Inr x)
    obtain h' where "snd (k x (snd (m s))) = (snd (m s))\<lparr>trace := trace (snd (m s)) @ h'\<rparr>"
      using net_onlyD [OF k] by blast
    with h Inr show ?thesis by (cases "m s") (auto simp: cmd_simps)
  qed
qed

lemma net_only_getc [net_intros]:
  assumes "\<And>x. net_only (k x)"
  shows "net_only (bindc getc k)"
  using assms by (simp add: net_only_def cmd_simps)

lemma net_only_seqc [net_intros]: "net_only m \<Longrightarrow> net_only n \<Longrightarrow> net_only (seqc m n)"
  by (simp add: seqc_def net_only_bindc)

lemma net_only_if [net_intros]: "net_only m \<Longrightarrow> net_only n \<Longrightarrow> net_only (if b then m else n)"
  by simp

lemma net_only_option [net_intros]:
  "net_only m \<Longrightarrow> (\<And>y. net_only (k y)) \<Longrightarrow> net_only (case x of None \<Rightarrow> m | Some y \<Rightarrow> k y)"
  by (cases x) simp_all

lemma net_only_prod [net_intros]: "(\<And>a b. net_only (k a b)) \<Longrightarrow> net_only (case x of (a, b) \<Rightarrow> k a b)"
  by (cases x) simp

lemma net_only_Let [net_intros]: "net_only (k x) \<Longrightarrow> net_only (let y = x in k y)"
  by simp

lemma net_only_send [net_intros]: "net_only (send fd p n)"
  unfolding send_def by (intro net_intros)

lemma net_only_keeps:
  assumes "net_only m" and "\<And>s h. I s \<Longrightarrow> I (s\<lparr>trace := h\<rparr>)"
  shows "keeps I m"
  using assms(2) net_onlyD [OF assms(1)] by (metis keepsI)

section \<open>Two concrete systems\<close>

text \<open>A system on which every call fails, and one on which each peer can be reached and a client
  is waiting; both give 24 bytes to a request of 11.\<close>

definition idle_os :: os where
  "idle_os = \<lparr>os_getaddrinfo = (\<lambda>_ _ _ _. (-2, [])), os_socket = (\<lambda>_ _. -1),
     os_connect = (\<lambda>_ _ _. -1), os_setsockopt = (\<lambda>_ _. -1), os_bind = (\<lambda>_ _ _. -1),
     os_listen = (\<lambda>_ _. -1), os_sigaction = (\<lambda>_. -1), os_accept = (\<lambda>_ _. (-1, [])),
     os_recv = (\<lambda>_ _. None), os_slack = (\<lambda>_ _. replicate 13 0),
     os_realloc_moves = (\<lambda>_. False), os_can_alloc = (\<lambda>n. n < 2 ^ 20),
     os_junk = (\<lambda>_. zero_PeerProtocol), os_stack = (\<lambda>_. replicate 64 0)\<rparr>"

definition loopback :: AddressInfo where
  "loopback = \<lparr>ai_family = AF_INET, ai_socktype = SOCK_STREAM, ai_protocol = 6,
     ai_addr = [2, 0, 0x0b, 0xb9, 127, 0, 0, 1] @ replicate 8 0\<rparr>"

definition lan_os :: os where
  "lan_os = idle_os\<lparr>os_getaddrinfo := (\<lambda>_ _ _ _. (0, [loopback])), os_socket := (\<lambda>_ _. 5),
     os_connect := (\<lambda>_ _ _. 0), os_setsockopt := (\<lambda>_ _. 0), os_bind := (\<lambda>_ _ _. 0),
     os_listen := (\<lambda>_ _. 0), os_sigaction := (\<lambda>_. 0),
     os_accept := (\<lambda>h fd. if listening h fd then (6, ai_addr loopback @ replicate 112 0) else (-1, []))\<rparr>"

lemma os_laws [simp]: "accept_needs_listen lan_os" "accept_needs_listen idle_os"
  by (simp_all add: accept_needs_listen_def lan_os_def idle_os_def)

end
