(* ===== verification/Hash_Helper.thy ===== *)
theory Hash_Helper
  imports Helpers Uthash
begin

text \<open>
  \<^verbatim>\<open>src/src/generic/hash_helper.c\<close>: the database of a peer, a table of elements on the
  heap. \<open>db_next\<close> is the address the next \<^verbatim>\<open>malloc\<close> of an element returns. The key pointer
  of an element is the caller's pointer, as in the source, not the copy made in
  \<^verbatim>\<open>s->key\<close>; it stays readable because receive buffers are never freed.
\<close>

section \<open>State and operations\<close>

record hash_db =
  db_heap :: heap
  db_next :: nat
  db_table :: "ut_table option"

definition empty_db :: hash_db where
  "empty_db = \<lparr>db_heap = (\<lambda>_. None), db_next = 0, db_table = None\<rparr>"

definition get_element :: "ptr \<Rightarrow> byte16 \<Rightarrow> (hash_db, nat option) cmd" where
  "get_element key key_len =
     bindc getc (\<lambda>db.
     let items_count = HASH_COUNT (db_table db) in
     bindc (liftr (HEX_VALUE_LOG key (unat key_len))) (\<lambda>_.
     liftr (HASH_FIND (db_heap db) (db_table db) key (ucast key_len))))"

text \<open>A new element: its value fields are set below before anything reads them.\<close>

definition new_element :: "ptr \<Rightarrow> hash_element" where
  "new_element key_copy = \<lparr>he_key = key_copy, he_value = Dangling, he_value_length = 0,
     hh_key = Dangling, hh_keylen = 0, hh_hashv = 0\<rparr>"

definition add_element :: "(nat \<Rightarrow> bool) \<Rightarrow> ptr \<Rightarrow> byte16 \<Rightarrow> (hash_db, nat) cmd" where
  "add_element can_alloc key key_len =
     bindc (liftr (read_bytes key (unat key_len))) (\<lambda>copy.
     bindc getc (\<lambda>db.
     let s = db_next db; hp = (db_heap db)(s \<mapsto> new_element (Obj copy)) in
     bindc (liftr (HASH_ADD_HEAD can_alloc hp (db_table db) key (ucast key_len) s)) (\<lambda>(hp, head).
     bindc (modifyc (\<lambda>db. db\<lparr>db_heap := hp, db_table := head, db_next := Suc s\<rparr>)) (\<lambda>_.
     ret s))))"

definition store_value :: "nat \<Rightarrow> ptr \<Rightarrow> byte32 \<Rightarrow> (hash_db, unit) cmd" where
  "store_value s val_ptr value_length =
     bindc getc (\<lambda>db.
     bindc (liftr (deref (db_heap db) s)) (\<lambda>e.
     bindc (liftr (read_bytes val_ptr (unat value_length))) (\<lambda>copy.
     modifyc (\<lambda>db. db\<lparr>db_heap := (db_heap db)
       (s \<mapsto> e\<lparr>he_value_length := value_length, he_value := Obj copy\<rparr>)\<rparr>))))"

definition set_element ::
    "(nat \<Rightarrow> bool) \<Rightarrow> ptr \<Rightarrow> byte16 \<Rightarrow> ptr \<Rightarrow> byte32 \<Rightarrow> (hash_db, unit) cmd" where
  "set_element can_alloc key key_len val_ptr value_length =
     bindc (get_element key key_len) (\<lambda>found.
     bindc (case found of None \<Rightarrow> add_element can_alloc key key_len | Some s \<Rightarrow> ret s) (\<lambda>s.
     store_value s val_ptr value_length))"

definition delete_element :: "ptr \<Rightarrow> byte16 \<Rightarrow> (hash_db, unit) cmd" where
  "delete_element key key_len =
     bindc (get_element key key_len) (\<lambda>element.
     bindc getc (\<lambda>db.
     bindc (liftr (HASH_DELETE (db_heap db) (db_table db) element)) (\<lambda>head.
     modifyc (\<lambda>db. db\<lparr>db_table := head,
       db_heap := (case element of None \<Rightarrow> db_heap db | Some a \<Rightarrow> (db_heap db)(a := None))\<rparr>))))"

definition get_hash_value :: "ptr \<Rightarrow> byte16 \<Rightarrow> fault + byte32" where
  "get_hash_value key key_len = HASH_VALUE key (unat key_len)"

section \<open>The database as a map\<close>

definition value_of :: "heap \<Rightarrow> nat \<Rightarrow> bytes" where
  "value_of hp a = (case hp a of None \<Rightarrow> []
     | Some e \<Rightarrow> (case read_bytes (he_value e) (unat (he_value_length e)) of Inl _ \<Rightarrow> [] | Inr v \<Rightarrow> v))"

definition value_ok :: "heap \<Rightarrow> nat \<Rightarrow> bool" where
  "value_ok hp a = (case hp a of None \<Rightarrow> False
     | Some e \<Rightarrow> (case read_bytes (he_value e) (unat (he_value_length e)) of Inl _ \<Rightarrow> False | Inr v \<Rightarrow> True))"

definition db_map :: "hash_db \<Rightarrow> bytes \<Rightarrow> bytes option" where
  "db_map db k = map_option (value_of (db_heap db))
     (find (\<lambda>a. key_of (db_heap db) a = k) (order_of (db_table db)))"

definition db_ok :: "hash_db \<Rightarrow> bool" where
  "db_ok db \<longleftrightarrow> head_ok (db_heap db) (db_table db) \<and>
     (\<forall>a\<in>set (order_of (db_table db)). a < db_next db \<and> value_ok (db_heap db) a)"

lemma read_bytes_hex [simp]:
  "read_bytes p n = Inr bs \<Longrightarrow> \<exists>s. HEX_VALUE_LOG p n = Inr s"
  by (auto simp: HEX_VALUE_LOG_def)

lemma unat_ucast_key_len [simp]: "unat (ucast (n :: byte16) :: byte32) = unat n"
  using unat_byte16_less [of n] by (simp add: unsigned_ucast_eq take_bit_nat_eq_self)

lemma unat_ucast_size [simp]: "unat (ucast (n :: byte16) :: size_t) = unat n"
  by (subst unsigned_ucast_eq, rule take_bit_nat_eq_self)
    (rule order_less_trans [OF unat_byte16_less], simp)

lemma unat_ucast_key_len2 [simp]:
  "unat (ucast (ucast (n :: byte16) :: size_t) :: byte32) = unat n"
proof -
  have "take_bit 32 (unat n) = unat n"
    by (rule take_bit_nat_eq_self) (rule order_less_trans [OF unat_byte16_less], simp)
  then show ?thesis by (simp add: unsigned_ucast_eq [where 'a = nat and 'b = 64 and 'c = 32])
qed

lemma key_of_value_upd [simp]:
  "hp a = Some e \<Longrightarrow> key_of (hp(a \<mapsto> e\<lparr>he_value_length := n, he_value := p\<rparr>)) b = key_of hp b"
  "hp a = Some e \<Longrightarrow> handle_ok (hp(a \<mapsto> e\<lparr>he_value_length := n, he_value := p\<rparr>)) b = handle_ok hp b"
  by (auto simp: key_of_def handle_ok_def split: sum.splits)

lemma value_of_value_upd:
  "length v = unat n \<Longrightarrow>
   value_of (hp(a \<mapsto> e\<lparr>he_value_length := n, he_value := Obj v\<rparr>)) b = (if b = a then v else value_of hp b)"
  "length v = unat n \<Longrightarrow>
   value_ok (hp(a \<mapsto> e\<lparr>he_value_length := n, he_value := Obj v\<rparr>)) b = (b = a \<or> value_ok hp b)"
  by (auto simp: value_of_def value_ok_def)

lemma get_element_run:
  assumes "db_ok db" "read_bytes key (unat key_len) = Inr k"
  shows "get_element key key_len db =
    (Inr (find (\<lambda>a. key_of (db_heap db) a = k) (order_of (db_table db))), db)"
proof -
  obtain s where "HEX_VALUE_LOG key (unat key_len) = Inr s"
    using read_bytes_hex [OF assms(2)] by blast
  moreover have "HASH_FIND (db_heap db) (db_table db) key (ucast key_len)
      = Inr (find (\<lambda>a. key_of (db_heap db) a = k) (order_of (db_table db)))"
    using assms by (intro ut.find_law) (simp_all add: db_ok_def)
  ultimately show ?thesis by (simp add: get_element_def cmd_simps Let_def)
qed

text \<open>The value is written to an element that is linked: everything else stays.\<close>

lemma store_value_run:
  assumes ok: "head_ok (db_heap db) (db_table db)"
    and a: "a \<in> set (order_of (db_table db))" "\<forall>b\<in>set (order_of (db_table db)). b < db_next db"
    and other: "\<forall>b\<in>set (order_of (db_table db)) - {a}. value_ok (db_heap db) b"
    and v: "read_bytes p (unat n) = Inr v"
  shows "\<exists>db'. store_value a p n db = (Inr (), db') \<and> db_ok db' \<and>
    db_map db' = (db_map db)(key_of (db_heap db) a \<mapsto> v)"
proof -
  obtain e where e: "db_heap db a = Some e"
    using ut.tok_handle [OF ok a(1)] by (auto elim: handle_okE)
  let ?hp = "(db_heap db)(a \<mapsto> e\<lparr>he_value_length := n, he_value := Obj v\<rparr>)"
  let ?db = "db\<lparr>db_heap := ?hp\<rparr>"
  have len: "length v = unat n" using v by (rule read_bytes_length)
  have "store_value a p n db = (Inr (), ?db)"
    by (simp add: store_value_def cmd_simps deref_def e v)
  moreover have "head_ok ?hp (db_table db)"
    by (rule ut.tok_frame [OF ok]) (simp add: e ut.tok_handle [OF ok])
  then have "db_ok ?db"
    using a other by (auto simp: db_ok_def value_of_value_upd len)
  moreover have "db_map ?db k = ((db_map db)(key_of (db_heap db) a \<mapsto> v)) k" for k
  proof (cases "k = key_of (db_heap db) a")
    case True
    have "find (\<lambda>b. key_of (db_heap db) b = k) (order_of (db_table db)) = Some a"
      using ut.find_Some [OF ok] a(1) True by simp
    then show ?thesis by (simp add: db_map_def e value_of_value_upd len True)
  next
    case False
    then show ?thesis
      by (auto simp: db_map_def e value_of_value_upd len dest: find_SomeD
          split: option.splits intro!: map_option_cong)
  qed
  ultimately show ?thesis by blast
qed

text \<open>Adding an element for a key that is not there: the map gains the key, with some value.\<close>

lemma add_element_run:
  assumes ok: "db_ok db" and mem: "memory_bound can_alloc"
    and k: "read_bytes key (unat key_len) = Inr k"
    and new: "\<forall>b\<in>set (order_of (db_table db)). key_of (db_heap db) b \<noteq> k"
  shows "(\<exists>db'. add_element can_alloc key key_len db = (Inl (ProgramExit (-1)), db')) \<or>
    (\<exists>db' s. add_element can_alloc key key_len db = (Inr s, db') \<and> head_ok (db_heap db') (db_table db') \<and>
       s \<in> set (order_of (db_table db')) \<and> (\<forall>a\<in>set (order_of (db_table db')). a < db_next db') \<and>
       (\<forall>a\<in>set (order_of (db_table db')) - {s}. value_ok (db_heap db') a) \<and>
       key_of (db_heap db') s = k \<and> (\<forall>j. j \<noteq> k \<longrightarrow> db_map db' j = db_map db j))"
proof -
  let ?hp = "db_heap db" and ?t = "db_table db"
  have hok: "head_ok ?hp ?t" using ok by (simp add: db_ok_def)
  let ?s = "db_next db" and ?e = "new_element (Obj k)"
  let ?h1 = "?hp(?s \<mapsto> ?e)"
  let ?h2 = "?hp(?s \<mapsto> ?e\<lparr>hh_hashv := HASH_JEN k, hh_key := key, hh_keylen := ucast (ucast key_len :: size_t)\<rparr>)"
  have fresh: "?s \<notin> set (order_of ?t)" using ok by (auto simp: db_ok_def)
  have other: "key_of ?h1 a = key_of ?hp a" "handle_ok ?h1 a = handle_ok ?hp a"
    "key_of ?h2 a = key_of ?hp a" "value_ok ?h2 a = value_ok ?hp a" "value_of ?h2 a = value_of ?hp a"
    if "a \<in> set (order_of ?t)" for a
  proof -
    have "a \<noteq> ?s" using that fresh by auto
    then show "key_of ?h1 a = key_of ?hp a" "handle_ok ?h1 a = handle_ok ?hp a"
      "key_of ?h2 a = key_of ?hp a" "value_ok ?h2 a = value_ok ?hp a" "value_of ?h2 a = value_of ?hp a"
      by (simp_all add: key_of_def handle_ok_def value_ok_def value_of_def)
  qed
  have h1: "head_ok ?h1 ?t"
    by (rule ut.tok_frame [OF hok]) (simp add: other ut.tok_handle [OF hok])
  have "HASH_ADD_HEAD can_alloc ?h1 ?t key (ucast key_len) ?s = Inl (ProgramExit (-1)) \<or>
    (\<exists>t'. HASH_ADD_HEAD can_alloc ?h1 ?t key (ucast key_len) ?s = Inr (?h2, t') \<and> head_ok ?h2 t' \<and>
       order_of t' = order_of ?t @ [?s])"
    by (rule ut.add_law [OF h1 mem, where k = k])
      (use fresh k new other unat_byte16_less [of key_len] in auto)
  then show ?thesis
  proof (elim disjE exE conjE)
    assume "HASH_ADD_HEAD can_alloc ?h1 ?t key (ucast key_len) ?s = Inl (ProgramExit (-1))"
    then show ?thesis by (simp add: add_element_def cmd_simps k Let_def)
  next
    fix t' assume add: "HASH_ADD_HEAD can_alloc ?h1 ?t key (ucast key_len) ?s = Inr (?h2, t')"
      and t': "head_ok ?h2 t'" "order_of t' = order_of ?t @ [?s]"
    let ?db = "db\<lparr>db_heap := ?h2, db_table := t', db_next := Suc ?s\<rparr>"
    have key: "key_of ?h2 ?s = k" by (simp add: key_of_def k)
    have "db_map ?db j = db_map db j" if "j \<noteq> k" for j
      using that key by (simp add: db_map_def t'(2) find_append_new del: fun_upd_apply)
        (rule map_find_cong, use other in blast)
    moreover have "add_element can_alloc key key_len db = (Inr ?s, ?db)"
      by (simp add: add_element_def cmd_simps k Let_def add)
    moreover have "value_ok ?h2 a" if "a \<in> set (order_of ?t)" for a
      using ok that other(4) [OF that] by (simp add: db_ok_def)
    ultimately show ?thesis
      using t' key ok by (intro disjI2 exI [of _ ?db] exI [of _ ?s])
        (auto simp: db_ok_def less_Suc_eq simp del: fun_upd_apply)
  qed
qed

lemma set_element_run:
  assumes ok: "db_ok db" and mem: "memory_bound can_alloc"
    and k: "read_bytes key (unat key_len) = Inr k" and v: "read_bytes p (unat n) = Inr v"
  shows "(\<exists>db'. set_element can_alloc key key_len p n db = (Inl (ProgramExit (-1)), db')) \<or>
    (\<exists>db'. set_element can_alloc key key_len p n db = (Inr (), db') \<and> db_ok db' \<and>
       db_map db' = (db_map db)(k \<mapsto> v))"
proof (cases "find (\<lambda>a. key_of (db_heap db) a = k) (order_of (db_table db))")
  case (Some a)
  let ?hp = "db_heap db" and ?t = "db_table db"
  have hok: "head_ok ?hp ?t" using ok by (simp add: db_ok_def)
  from Some have a: "a \<in> set (order_of ?t)" "key_of ?hp a = k" by (auto dest: find_SomeD)
  have "\<exists>db'. store_value a p n db = (Inr (), db') \<and> db_ok db' \<and>
      db_map db' = (db_map db)(key_of ?hp a \<mapsto> v)"
    by (rule store_value_run [OF hok a(1) _ _ v]) (use ok in \<open>auto simp: db_ok_def\<close>)
  then show ?thesis
    using a(2) by (auto simp: set_element_def cmd_simps get_element_run [OF ok k] Some)
next
  case None
  then have new: "\<forall>b\<in>set (order_of (db_table db)). key_of (db_heap db) b \<noteq> k"
    by (auto simp: find_None_iff)
  have set: "set_element can_alloc key key_len p n db =
      bindc (add_element can_alloc key key_len) (\<lambda>s. store_value s p n) db"
    by (simp add: set_element_def bindc_run get_element_run [OF ok k] None)
  from add_element_run [OF ok mem k new] show ?thesis
  proof (elim disjE exE conjE)
    fix db' s
    assume add: "add_element can_alloc key key_len db = (Inr s, db')" "key_of (db_heap db') s = k"
      "\<forall>j. j \<noteq> k \<longrightarrow> db_map db' j = db_map db j"
      and db': "head_ok (db_heap db') (db_table db')" "s \<in> set (order_of (db_table db'))"
        "\<forall>a\<in>set (order_of (db_table db')). a < db_next db'"
        "\<forall>a\<in>set (order_of (db_table db')) - {s}. value_ok (db_heap db') a"
    have "(db_map db')(k \<mapsto> v) = (db_map db)(k \<mapsto> v)" using add(3) by auto
    with store_value_run [OF db'(1,2) db'(3,4) v] add(1,2) show ?thesis
      by (auto simp: set bindc_run)
  qed (auto simp: set bindc_run)
qed

lemma delete_element_run:
  assumes ok: "db_ok db" and k: "read_bytes key (unat key_len) = Inr k"
  shows "db_map db k = None \<Longrightarrow> delete_element key key_len db = (Inl NullDeref, db)"
    and "db_map db k \<noteq> None \<Longrightarrow> \<exists>db'. delete_element key key_len db = (Inr (), db') \<and> db_ok db' \<and>
      db_map db' = (db_map db)(k := None)"
proof -
  let ?hp = "db_heap db" and ?t = "db_table db"
  have hok: "head_ok ?hp ?t" using ok by (simp add: db_ok_def)
  note get = get_element_run [OF ok k]
  show "delete_element key key_len db = (Inl NullDeref, db)" if "db_map db k = None"
    using that by (simp add: delete_element_def cmd_simps get db_map_def ut.del_null)
  assume "db_map db k \<noteq> None"
  then obtain a where f: "find (\<lambda>a. key_of ?hp a = k) (order_of ?t) = Some a"
    by (auto simp: db_map_def)
  then have a: "a \<in> set (order_of ?t)" "key_of ?hp a = k" by (auto dest: find_SomeD)
  obtain t' where t': "HASH_DELETE ?hp ?t (Some a) = Inr t'" "head_ok ?hp t'"
    "order_of t' = remove1 a (order_of ?t)"
    using ut.del_law [OF hok a(1)] by blast
  let ?db = "db\<lparr>db_table := t', db_heap := ?hp(a := None)\<rparr>"
  have "a \<notin> set (order_of t')"
    using t'(3) ut.tok_distinct [OF hok] by simp
  then have other: "key_of (?hp(a := None)) b = key_of ?hp b" "handle_ok (?hp(a := None)) b = handle_ok ?hp b"
    "value_ok (?hp(a := None)) b = value_ok ?hp b" "value_of (?hp(a := None)) b = value_of ?hp b"
    if "b \<in> set (order_of t')" for b
    using that by (auto simp: key_of_def handle_ok_def value_ok_def value_of_def)
  have "head_ok (?hp(a := None)) t'"
    by (rule ut.tok_frame [OF t'(2)]) (simp add: other ut.tok_handle [OF t'(2)])
  moreover have "set (order_of t') \<subseteq> set (order_of ?t)"
    by (simp add: t'(3) set_remove1_subset)
  ultimately have "db_ok ?db"
    using ok other by (auto simp: db_ok_def)
  moreover have "db_map ?db j = ((db_map db)(k := None)) j" for j
  proof -
    have "db_map ?db j = map_option (value_of ?hp) (find (\<lambda>b. key_of ?hp b = j) (order_of t'))"
      unfolding db_map_def by simp (rule map_find_cong, use other in blast)
    then show ?thesis
      using ut.find_remove [OF hok a(1), of j] a(2) by (simp add: t'(3) db_map_def)
  qed
  ultimately show "\<exists>db'. delete_element key key_len db = (Inr (), db') \<and> db_ok db' \<and>
      db_map db' = (db_map db)(k := None)"
    by (auto simp: delete_element_def cmd_simps get f t'(1))
qed

section \<open>The interface of the database\<close>

text \<open>What the peers rely on: a store of byte strings under byte strings. Lookup leaves it as it
  is; an update may end the program when memory runs out; removing a key that is absent follows
  a null pointer.\<close>

locale kv_store =
  fixes ok :: "'db \<Rightarrow> bool"
    and view :: "'db \<Rightarrow> bytes \<Rightarrow> bytes option"
    and content :: "'db \<Rightarrow> 'e \<Rightarrow> bytes"
    and lookup :: "ptr \<Rightarrow> byte16 \<Rightarrow> ('db, 'e option) cmd"
    and update :: "(nat \<Rightarrow> bool) \<Rightarrow> ptr \<Rightarrow> byte16 \<Rightarrow> ptr \<Rightarrow> byte32 \<Rightarrow> ('db, unit) cmd"
    and remove :: "ptr \<Rightarrow> byte16 \<Rightarrow> ('db, unit) cmd"
  assumes lookup_law: "ok db \<Longrightarrow> read_bytes key (unat n) = Inr k \<Longrightarrow>
      \<exists>r. lookup key n db = (Inr r, db) \<and> map_option (content db) r = view db k"
    and update_law: "ok db \<Longrightarrow> memory_bound can_alloc \<Longrightarrow> read_bytes key (unat n) = Inr k \<Longrightarrow>
      read_bytes p (unat m) = Inr v \<Longrightarrow>
      (\<exists>db'. update can_alloc key n p m db = (Inl (ProgramExit (-1)), db')) \<or>
      (\<exists>db'. update can_alloc key n p m db = (Inr (), db') \<and> ok db' \<and> view db' = (view db)(k \<mapsto> v))"
    and remove_law: "ok db \<Longrightarrow> read_bytes key (unat n) = Inr k \<Longrightarrow> view db k \<noteq> None \<Longrightarrow>
      \<exists>db'. remove key n db = (Inr (), db') \<and> ok db' \<and> view db' = (view db)(k := None)"
    and remove_missing: "ok db \<Longrightarrow> read_bytes key (unat n) = Inr k \<Longrightarrow> view db k = None \<Longrightarrow>
      remove key n db = (Inl NullDeref, db)"
begin

lemma lookup_None:
  assumes "ok db" "read_bytes key (unat n) = Inr k" "view db k = None"
  shows "lookup key n db = (Inr None, db)"
  using lookup_law [OF assms(1,2)] assms(3) by auto

lemma lookup_Some:
  assumes "ok db" "read_bytes key (unat n) = Inr k" "view db k = Some v"
  shows "\<exists>e. lookup key n db = (Inr (Some e), db) \<and> content db e = v"
  using lookup_law [OF assms(1,2)] assms(3) by auto

lemma lookup_after_update:
  assumes "ok db" "memory_bound can_alloc" "read_bytes key (unat n) = Inr k"
    "read_bytes p (unat m) = Inr v" "update can_alloc key n p m db = (Inr (), db')"
    "read_bytes key' (unat n') = Inr k'"
  shows "\<exists>r. lookup key' n' db' = (Inr r, db') \<and>
    map_option (content db') r = (if k' = k then Some v else view db k')"
proof -
  have db': "ok db'" "view db' = (view db)(k \<mapsto> v)"
    using update_law [OF assms(1-4)] assms(5) by auto
  show ?thesis using lookup_law [OF db'(1) assms(6)] db'(2) by simp
qed

end

interpretation kv: kv_store db_ok db_map "\<lambda>db. value_of (db_heap db)"
  get_element set_element delete_element
proof unfold_locales
  fix db key k and n :: byte16
  assume "db_ok db" "read_bytes key (unat n) = Inr k"
  then show "\<exists>r. get_element key n db = (Inr r, db) \<and>
      map_option (value_of (db_heap db)) r = db_map db k"
    by (simp add: get_element_run db_map_def)
next
  fix db can_alloc key k p v and n :: byte16 and m :: byte32
  assume "db_ok db" "memory_bound can_alloc" "read_bytes key (unat n) = Inr k"
    "read_bytes p (unat m) = Inr v"
  then show "(\<exists>db'. set_element can_alloc key n p m db = (Inl (ProgramExit (-1)), db')) \<or>
    (\<exists>db'. set_element can_alloc key n p m db = (Inr (), db') \<and> db_ok db' \<and>
       db_map db' = (db_map db)(k \<mapsto> v))"
    by (rule set_element_run)
qed (use delete_element_run in blast)+

lemma db_ok_empty [simp]: "db_ok empty_db" "db_map empty_db = (\<lambda>_. None)"
  by (simp_all add: db_ok_def empty_db_def db_map_def fun_eq_iff)

lemma get_element_stored:
  assumes ok: "db_ok db" and k: "read_bytes key (unat n) = Inr k" and v: "db_map db k = Some v"
  shows "\<exists>a e. get_element key n db = (Inr (Some a), db) \<and> db_heap db a = Some e \<and>
    read_bytes (he_value e) (unat (he_value_length e)) = Inr v"
proof -
  let ?f = "find (\<lambda>a. key_of (db_heap db) a = k) (order_of (db_table db))"
  from v obtain a where a: "?f = Some a" "value_of (db_heap db) a = v"
    by (auto simp: db_map_def)
  then have "value_ok (db_heap db) a"
    using ok find_SomeD [OF a(1)] by (auto simp: db_ok_def)
  with a(2) obtain e where "db_heap db a = Some e"
    "read_bytes (he_value e) (unat (he_value_length e)) = Inr v"
    by (auto simp: value_ok_def value_of_def split: option.splits sum.splits)
  then show ?thesis using get_element_run [OF ok k] a(1) by auto
qed

section \<open>Runs of operations\<close>

datatype db_op = DbSet bytes bytes | DbDelete bytes

fun op_fits :: "db_op \<Rightarrow> bool" where
  "op_fits (DbSet k v) \<longleftrightarrow> length k < 2 ^ 16 \<and> length v < 2 ^ 32"
| "op_fits (DbDelete k) \<longleftrightarrow> length k < 2 ^ 16"

fun db_op_cmd :: "(nat \<Rightarrow> bool) \<Rightarrow> db_op \<Rightarrow> (hash_db, unit) cmd" where
  "db_op_cmd can_alloc (DbSet k v) =
     set_element can_alloc (Obj k) (of_nat (length k)) (Obj v) (of_nat (length v))"
| "db_op_cmd can_alloc (DbDelete k) = delete_element (Obj k) (of_nat (length k))"

fun run_db :: "(nat \<Rightarrow> bool) \<Rightarrow> db_op list \<Rightarrow> (hash_db, unit) cmd" where
  "run_db can_alloc [] = ret ()"
| "run_db can_alloc (x # xs) = seqc (db_op_cmd can_alloc x) (run_db can_alloc xs)"

text \<open>The specification: the same operations on a finite map.\<close>

fun spec_op :: "db_op \<Rightarrow> (bytes \<Rightarrow> bytes option) \<Rightarrow> fault + (bytes \<Rightarrow> bytes option)" where
  "spec_op (DbSet k v) m = Inr (m(k \<mapsto> v))"
| "spec_op (DbDelete k) m = (if m k = None then Inl NullDeref else Inr (m(k := None)))"

fun spec_ops :: "db_op list \<Rightarrow> (bytes \<Rightarrow> bytes option) \<Rightarrow> fault + (bytes \<Rightarrow> bytes option)" where
  "spec_ops [] m = Inr m"
| "spec_ops (x # xs) m = bindr (spec_op x m) (spec_ops xs)"

lemma read_bytes_obj16: "length k < 2 ^ 16 \<Longrightarrow> read_bytes (Obj k) (unat (of_nat (length k) :: byte16)) = Inr k"
  by (simp add: unat_of_nat)

lemma read_bytes_obj32: "length k < 2 ^ 32 \<Longrightarrow> read_bytes (Obj k) (unat (of_nat (length k) :: byte32)) = Inr k"
  by (simp add: unat_of_nat)

text \<open>How the result of a run is related to the map the specification gives.\<close>

definition refines :: "(fault + unit) \<times> hash_db \<Rightarrow> fault + (bytes \<Rightarrow> bytes option) \<Rightarrow> bool" where
  "refines r s \<longleftrightarrow> fst r = Inl (ProgramExit (-1)) \<or>
     (case s of Inl f \<Rightarrow> fst r = Inl f
      | Inr m \<Rightarrow> fst r = Inr () \<and> db_ok (snd r) \<and> db_map (snd r) = m)"

lemma db_op_refines:
  assumes ok: "db_ok db" and mem: "memory_bound can_alloc" and fits: "op_fits x"
  shows "refines (db_op_cmd can_alloc x db) (spec_op x (db_map db))"
proof (cases x)
  case (DbSet k v)
  have k: "read_bytes (Obj k) (unat (of_nat (length k) :: byte16)) = Inr k"
    and v: "read_bytes (Obj v) (unat (of_nat (length v) :: byte32)) = Inr v"
    using fits DbSet read_bytes_obj16 read_bytes_obj32 by simp_all
  from kv.update_law [OF ok mem k v] show ?thesis
    by (auto simp: DbSet refines_def)
next
  case (DbDelete k)
  have k: "read_bytes (Obj k) (unat (of_nat (length k) :: byte16)) = Inr k"
    using fits DbDelete read_bytes_obj16 by simp
  show ?thesis
  proof (cases "db_map db k = None")
    case True
    then show ?thesis using kv.remove_missing [OF ok k] by (simp add: DbDelete refines_def)
  next
    case False
    then show ?thesis using kv.remove_law [OF ok k] by (auto simp: DbDelete refines_def)
  qed
qed

lemma run_db_refines_from:
  assumes "db_ok db" "memory_bound can_alloc" "list_all op_fits xs"
  shows "refines (run_db can_alloc xs db) (spec_ops xs (db_map db))"
  using assms
proof (induction xs arbitrary: db)
  case Nil
  then show ?case by (simp add: refines_def)
next
  case (Cons x xs)
  have "refines (db_op_cmd can_alloc x db) (spec_op x (db_map db))"
    using Cons.prems db_op_refines by simp
  then consider (exit) db' where "db_op_cmd can_alloc x db = (Inl (ProgramExit (-1)), db')"
    | (fault) f db' where "spec_op x (db_map db) = Inl f" "db_op_cmd can_alloc x db = (Inl f, db')"
    | (ok) db' where "spec_op x (db_map db) = Inr (db_map db')" "db_op_cmd can_alloc x db = (Inr (), db')"
        "db_ok db'"
    by (cases "db_op_cmd can_alloc x db") (auto simp: refines_def split: sum.splits)
  then show ?case
  proof cases
    case ok
    then show ?thesis using Cons.IH [OF ok(3)] Cons.prems by (simp add: cmd_simps)
  qed (auto simp: refines_def cmd_simps)
qed

text \<open>The first insertion never expands and so succeeds whenever the table can be allocated.\<close>

lemma set_element_first:
  assumes alloc: "can_alloc 64" "can_alloc 512"
    and k: "read_bytes key (unat n) = Inr k" and v: "read_bytes p (unat m) = Inr v"
  shows "\<exists>db'. set_element can_alloc key n p m empty_db = (Inr (), db')"
proof -
  have i: "HASH_TO_BKT (HASH_JEN k) 32 < 32"
    using HASH_TO_BKT_less [of 32 "HASH_JEN k"] by simp
  have get: "get_element key n empty_db = (Inr None, empty_db)"
    using kv.lookup_None [OF _ k, of empty_db] by simp
  have le: "\<not> (10 :: byte32) \<le> 1" by (simp add: word_le_nat_alt)
  have "\<exists>hp t. HASH_ADD_HEAD can_alloc ((\<lambda>_. None)(0 \<mapsto> new_element (Obj k))) None key (ucast n) 0
      = Inr (hp(0 \<mapsto> new_element (Obj k)\<lparr>hh_hashv := HASH_JEN k, hh_key := key,
          hh_keylen := ucast (ucast n :: size_t)\<rparr>), t)"
    using alloc i k le
    by (auto simp: HASH_ADD_HEAD_def HASH_ADD_KEYPTR_def HASH_VALUE_def deref_def HASH_MAKE_TABLE_def
        HASH_ADD_TO_TABLE_def HASH_ADD_TO_BKT_def bucket_at_def Let_def empty_bucket_def
        HASH_INITIAL_NUM_BUCKETS_def HASH_BKT_CAPACITY_THRESH_def)
  moreover have "db_heap empty_db = (\<lambda>_. None)" "db_table empty_db = None" "db_next empty_db = 0"
    by (simp_all add: empty_db_def)
  ultimately show ?thesis
    by (auto simp: set_element_def add_element_def store_value_def cmd_simps get k v Let_def
        deref_def)
qed
section \<open>Properties of the database\<close>

text \<open>C3: any sequence of set and delete operations on the empty database behaves as on a finite
  map: it ends in a database whose content is that map, or in the null pointer dereference of
  the first deletion of an absent key, unless memory runs out and the program exits.\<close>

theorem db_refines_map:
  assumes "memory_bound can_alloc" and "list_all op_fits xs"
  shows "refines (run_db can_alloc xs empty_db) (spec_ops xs (\<lambda>_. None))"
  using run_db_refines_from [of empty_db can_alloc xs] assms by simp

theorem db_refines_map_witness:
  "refines (run_db (\<lambda>n. n < 2 ^ 20) [DbSet [1] [2, 3], DbSet [] [4], DbDelete [1]] empty_db)
     (spec_ops [DbSet [1] [2, 3], DbSet [] [4], DbDelete [1]] (\<lambda>_. None))"
  by (rule db_refines_map) (simp_all add: memory_bound_def)

text \<open>
  After a successful \<^verbatim>\<open>set\<close>, \<^verbatim>\<open>get\<close> returns an element with the new value for
  that key and the old content for every other key.\<close>

theorem set_then_get:
  assumes "db_ok db" "memory_bound can_alloc" "read_bytes key (unat n) = Inr k"
    "read_bytes p (unat m) = Inr v" "set_element can_alloc key n p m db = (Inr (), db')"
    "read_bytes key' (unat n') = Inr k'"
  shows "\<exists>r. get_element key' n' db' = (Inr r, db') \<and>
    map_option (value_of (db_heap db')) r = (if k' = k then Some v else db_map db k')"
  using assms by (rule kv.lookup_after_update)

theorem set_then_get_witness:
  "\<exists>db' r. set_element (\<lambda>n. n < 1000) (Obj [7]) 1 (Obj [8, 9]) 2 empty_db = (Inr (), db') \<and>
     get_element (Obj [7]) 1 db' = (Inr r, db') \<and>
     map_option (value_of (db_heap db')) r = (if [7 :: byte8] = [7] then Some [8, 9] else db_map empty_db [7])"
proof -
  obtain db' where db': "set_element (\<lambda>n. n < 1000) (Obj [7]) 1 (Obj [8, 9]) 2 empty_db = (Inr (), db')"
    using set_element_first [of "\<lambda>n. n < 1000" "Obj [7]" 1 "[7]" "Obj [8, 9]" 2 "[8, 9]"] by auto
  have "memory_bound (\<lambda>n. n < 1000)" by (simp add: memory_bound_def)
  from set_then_get [OF db_ok_empty(1) this _ _ db', of "[7]" "[8, 9]" "Obj [7]" 1 "[7]"] db'
  show ?thesis by auto
qed

text \<open>
  \<^verbatim>\<open>delete_element\<close> removes a present key and nothing else; for an absent key it follows
  the null pointer that \<^verbatim>\<open>get\<close> returned, although its comment says it can be called
  safely.\<close>

theorem delete_element_cases:
  assumes "db_ok db" and "read_bytes key (unat n) = Inr k"
  shows "if db_map db k = None then delete_element key n db = (Inl NullDeref, db)
    else (\<exists>db'. delete_element key n db = (Inr (), db') \<and> db_ok db' \<and>
            db_map db' = (db_map db)(k := None))"
  using kv.remove_missing [OF assms] kv.remove_law [OF assms] by simp

theorem delete_element_cases_witness:
  "if db_map empty_db [5] = None then delete_element (Obj [5]) 1 empty_db = (Inl NullDeref, empty_db)
   else (\<exists>db'. delete_element (Obj [5]) 1 empty_db = (Inr (), db') \<and> db_ok db' \<and>
           db_map db' = (db_map empty_db)([5] := None))"
  by (rule delete_element_cases) simp_all

text \<open>
  The item counter of the table is the number of keys of the database.\<close>

theorem hash_count_is_card:
  assumes "db_ok db"
  shows "HASH_COUNT (db_table db) = of_nat (card (dom (db_map db)))"
proof -
  let ?hp = "db_heap db" and ?t = "db_table db"
  have hok: "head_ok ?hp ?t" using assms by (simp add: db_ok_def)
  have "dom (db_map db) = key_of ?hp ` set (order_of ?t)"
    by (auto simp: db_map_def dom_def find_None_iff image_iff)
  then have "card (dom (db_map db)) = length (order_of ?t)"
    using ut.tok_distinct [OF hok] by (simp add: card_image distinct_card)
  moreover have "HASH_COUNT ?t = of_nat (length (order_of ?t))"
    using hok by (cases ?t) (simp_all add: HASH_COUNT_def table_ok_def)
  ultimately show ?thesis by simp
qed

theorem hash_count_is_card_witness:
  "HASH_COUNT (db_table empty_db) = of_nat (card (dom (db_map empty_db)))"
  by (rule hash_count_is_card) simp
end
