(* ===== verification/Network.thy ===== *)
theory Network
  imports Os Hash_Helper
begin

text \<open>
  \<^verbatim>\<open>src/src/generic/network.c\<close> and the two functions of
  \<^verbatim>\<open>src/src/generic/data_helper.c\<close> that use it: setting up sockets, receiving, relaying
  and sending, and the senders of the peer messages. The commands run on any state that has the
  history of system calls. Descriptors are C \<^verbatim>\<open>int\<close>s; a \<^verbatim>\<open>Peer*\<close> argument is an option.
\<close>

section \<open>Setting up sockets\<close>

definition client_hints :: hints where
  "client_hints = \<lparr>hint_flags = 0, hint_family = AF_UNSPEC, hint_socktype = SOCK_STREAM\<rparr>"

definition server_hints :: hints where
  "server_hints = \<lparr>hint_flags = AI_PASSIVE, hint_family = AF_UNSPEC, hint_socktype = SOCK_STREAM\<rparr>"

text \<open>Where the address bytes of a \<^verbatim>\<open>sockaddr\<close> start, by the family in its first two bytes.\<close>

definition get_in_addr :: "bytes \<Rightarrow> ptr" where
  "get_in_addr sa =
     (if unat (of_le16 sa) = AF_INET then ptr_add (Obj sa) 4 else ptr_add (Obj sa) 8)"

text \<open>The loop over the results: \<open>None\<close> when none could be connected. The address text the
  function computes afterwards is not used.\<close>

fun connect_first :: "os \<Rightarrow> AddressInfo list \<Rightarrow> ('z net_scheme, int option) cmd" where
  "connect_first os [] = ret None"
| "connect_first os (p # ps) =
     bindc (sys (\<lambda>h. os_socket os h p) (Ev_socket p)) (\<lambda>sock_fd.
     if sock_fd = -1 then connect_first os ps
     else bindc (sys (\<lambda>h. os_connect os h sock_fd p) (Ev_connect sock_fd p)) (\<lambda>r.
       if r = -1 then seqc (log_event (Ev_close sock_fd)) (connect_first os ps)
       else ret (Some sock_fd)))"

definition setup_as_client :: "os \<Rightarrow> string option \<Rightarrow> string option \<Rightarrow> ('z net_scheme, int) cmd" where
  "setup_as_client os addr port =
     bindc (sys (\<lambda>h. os_getaddrinfo os h addr port client_hints) (\<lambda>_. Ev_getaddrinfo addr port))
       (\<lambda>(rv, server_info).
     if rv \<noteq> 0 then ret (-1)
     else bindc (connect_first os server_info) (\<lambda>p.
       case p of None \<Rightarrow> ret (-1) | Some sock_fd \<Rightarrow> ret sock_fd))"

text \<open>The loop of the server: \<open>None\<close> when the function returns \<open>-1\<close> from inside it,
  \<open>Some None\<close> when the list is exhausted.\<close>

fun bind_first :: "os \<Rightarrow> AddressInfo list \<Rightarrow> ('z net_scheme, int option option) cmd" where
  "bind_first os [] = ret (Some None)"
| "bind_first os (p # ps) =
     bindc (sys (\<lambda>h. os_socket os h p) (Ev_socket p)) (\<lambda>sock_fd.
     if sock_fd = -1 then bind_first os ps
     else bindc (sys (\<lambda>h. os_setsockopt os h sock_fd) (Ev_setsockopt sock_fd)) (\<lambda>r.
     if r = -1 then ret None
     else bindc (sys (\<lambda>h. os_bind os h sock_fd p) (Ev_bind sock_fd p)) (\<lambda>r.
     if r = -1 then seqc (log_event (Ev_close sock_fd)) (bind_first os ps)
     else ret (Some (Some sock_fd)))))"

definition setup_as_server :: "os \<Rightarrow> string option \<Rightarrow> ('z net_scheme, int) cmd" where
  "setup_as_server os port =
     (case port of None \<Rightarrow> failc NullDeref
      | Some s \<Rightarrow>
     if atoi s < 0 \<or> atoi s > 65535 then ret (-1)
     else bindc (sys (\<lambda>h. os_getaddrinfo os h None port server_hints) (\<lambda>_. Ev_getaddrinfo None port))
       (\<lambda>(rv, server_info).
     if rv \<noteq> 0 then ret (-1)
     else bindc (bind_first os server_info) (\<lambda>p.
     case p of None \<Rightarrow> ret (-1) | Some None \<Rightarrow> ret (-1)
     | Some (Some sock_fd) \<Rightarrow>
         bindc (sys (\<lambda>h. os_listen os h sock_fd) (Ev_listen sock_fd)) (\<lambda>r.
         if r = -1 then ret (-1)
         else bindc (sys (os_sigaction os) Ev_sigaction) (\<lambda>r.
         if r = -1 then ret (-1) else ret sock_fd)))))"

section \<open>Accepting a connection\<close>

text \<open>\<open>fuel\<close> bounds the rounds of \<^verbatim>\<open>while (accept(...) == -1) {}\<close>.\<close>

fun accept_loop :: "os \<Rightarrow> nat \<Rightarrow> int \<Rightarrow> ('z net_scheme, int \<times> bytes) cmd" where
  "accept_loop os 0 sock_fd = failc OutOfFuel"
| "accept_loop os (Suc fuel) sock_fd =
     bindc (sys (\<lambda>h. os_accept os h sock_fd) (\<lambda>(fd, _). Ev_accept sock_fd fd)) (\<lambda>(new_fd, their_addr).
     if new_fd = -1 then accept_loop os fuel sock_fd else ret (new_fd, their_addr))"

text \<open>\<open>s\<close> is an uninitialised \<^verbatim>\<open>char*\<close>, whose size is 8: a text of at most 7 characters is
  written to where it happens to point.\<close>

definition get_new_connection :: "os \<Rightarrow> nat \<Rightarrow> int \<Rightarrow> ('z net_scheme, int) cmd" where
  "get_new_connection os fuel sock_fd =
     bindc (accept_loop os fuel sock_fd) (\<lambda>(new_fd, their_addr).
     bindc (liftr (inet_ntop (unat (of_le16 their_addr)) (get_in_addr their_addr) 8)) (\<lambda>s.
     bindc (case s of None \<Rightarrow> ret () | Some _ \<Rightarrow> failc WildPointer) (\<lambda>_.
     seqc (log_event (Ev_close sock_fd)) (ret new_fd))))"

section \<open>Receiving\<close>

text \<open>The status is \<open>None\<close> while it is uninitialised. The field \<^verbatim>\<open>addr\<close>, which is never
  written or read, is left out.\<close>

record Response =
  rs_data_length :: size_t
  rs_data :: ptr
  rs_status_code :: "int option"

definition BUFFER_SIZE :: nat where "BUFFER_SIZE = 65535"
definition STATUS_OK :: int where "STATUS_OK = 200"
definition STATUS_SOCKET_CLOSED :: int where "STATUS_SOCKET_CLOSED = 404"

text \<open>The \<^verbatim>\<open>ssize_t\<close> result of \<^verbatim>\<open>recv\<close>, stored in a \<^verbatim>\<open>size_t\<close>: an error becomes the
  largest value.\<close>

definition recv_result :: "bytes option \<Rightarrow> size_t" where
  "recv_result r = (case r of None \<Rightarrow> -1 | Some bs \<Rightarrow> of_nat (length bs))"

text \<open>\<^verbatim>\<open>realloc\<close> to a smaller size; to size 0 it frees the block and returns \<^verbatim>\<open>NULL\<close>.\<close>

definition shrink :: "os \<Rightarrow> event list \<Rightarrow> bytes \<Rightarrow> ptr" where
  "shrink os h bs = (if bs = [] then Null else Obj (bs @ os_slack os h (length bs)))"

text \<open>\<^verbatim>\<open>fuel\<close> bounds the depth of the recursion, which happens once for every full buffer. When
  the buffer is full, the grown block is not stored back: if \<^verbatim>\<open>realloc\<close> moved it, the next
  line already copies from the freed block.\<close>

fun direct_receive :: "os \<Rightarrow> nat \<Rightarrow> int \<Rightarrow> bool \<Rightarrow> ('z net_scheme, Response) cmd" where
  "direct_receive os 0 sock_fd status = failc OutOfFuel"
| "direct_receive os (Suc fuel) sock_fd status =
     bindc (sys (\<lambda>h. map_option (take BUFFER_SIZE) (os_recv os h sock_fd)) (Ev_recv sock_fd)) (\<lambda>r.
     bindc getc (\<lambda>s.
     let len = recv_result r; buf = (case r of None \<Rightarrow> [] | Some bs \<Rightarrow> bs) in
     bindc
       (if len < of_nat BUFFER_SIZE then
          ret \<lparr>rs_data_length = len, rs_data = shrink os (trace s) buf, rs_status_code = None\<rparr>
        else if len = of_nat BUFFER_SIZE then
          bindc (direct_receive os fuel sock_fd False) (\<lambda>conc.
          bindc (sys (os_realloc_moves os)
                  (\<lambda>_. Ev_realloc (unat (rs_data_length conc + len)))) (\<lambda>moved.
          if moved then failc UseAfterFree
          else bindc (liftr (read_bytes (rs_data conc) (unat (rs_data_length conc)))) (\<lambda>more.
          bindc getc (\<lambda>s.
          let response =
            \<lparr>rs_data_length = len + rs_data_length conc,
             rs_data = Obj (buf @ more @ os_slack os (trace s) (length (buf @ more))),
             rs_status_code = None\<rparr> in
          ret response))))
        else ret \<lparr>rs_data_length = len, rs_data = Dangling, rs_status_code = None\<rparr>)
     (\<lambda>response.
     if status then ret (response\<lparr>rs_status_code := Some STATUS_OK\<rparr>) else ret response)))"

definition receive :: "os \<Rightarrow> nat \<Rightarrow> int \<Rightarrow> (Response \<Rightarrow> int \<Rightarrow> ('z net_scheme, unit) cmd)
    \<Rightarrow> ('z net_scheme, int option) cmd" where
  "receive os fuel sock_fd callback =
     bindc (direct_receive os fuel sock_fd True) (\<lambda>response.
     seqc (callback response sock_fd) (ret (rs_status_code response)))"

definition redirect :: "os \<Rightarrow> nat \<Rightarrow> int \<Rightarrow> int \<Rightarrow> ('z net_scheme, int option) cmd" where
  "redirect os fuel sock_from sock_to =
     bindc (direct_receive os fuel sock_from True) (\<lambda>response.
     seqc (send sock_to (rs_data response) (unat (rs_data_length response)))
     (ret (rs_status_code response)))"

section \<open>Sending\<close>

definition direct_send ::
    "os \<Rightarrow> string option \<Rightarrow> string option \<Rightarrow> ptr \<Rightarrow> nat \<Rightarrow> ('z net_scheme, int) cmd" where
  "direct_send os addr port data data_size =
     bindc (setup_as_client os addr port) (\<lambda>sock_fd.
     seqc (send sock_fd data data_size) (ret sock_fd))"

definition deref_peer :: "Peer option \<Rightarrow> ('s, Peer) cmd" where
  "deref_peer p = (case p of None \<Rightarrow> failc NullDeref | Some x \<Rightarrow> ret x)"

text \<open>Encoding allocates: the bytes behind the block are the oracle's.\<close>

definition encode_peer :: "os \<Rightarrow> PeerProtocol \<Rightarrow> ('z net_scheme, ptr) cmd" where
  "encode_peer os data = bindc getc (\<lambda>s.
     bindc (liftr (encode_peerProtocol (os_slack os (trace s)) data)) (\<lambda>m. ret (Obj m)))"

definition encode_client :: "os \<Rightarrow> ClientProtocol \<Rightarrow> ('z net_scheme, ptr) cmd" where
  "encode_client os data = bindc getc (\<lambda>s.
     bindc (liftr (encode_clientProtocol (os_slack os (trace s)) data)) (\<lambda>m. ret (Obj m)))"

text \<open>The local struct of each sender starts with what the stack holds.\<close>

definition local_message :: "os \<Rightarrow> ('z net_scheme, PeerProtocol) cmd" where
  "local_message os = bindc getc (\<lambda>s. ret (os_junk os (trace s)))"

definition join :: "os \<Rightarrow> string option \<Rightarrow> string option \<Rightarrow> Peer option \<Rightarrow> ('z net_scheme, unit) cmd" where
  "join os joinAddrInt joinPortInt new_peer_info =
     bindc (local_message os) (\<lambda>join_request.
     bindc (deref_peer new_peer_info) (\<lambda>p.
     bindc (encode_peer os (join_request\<lparr>pp_join := JOIN_BIT, pp_control := CONTROL_BIT,
              pp_nodeId := peer_id p, pp_nodeIp := peer_ip p, pp_nodePort := peer_port p\<rparr>))
       (\<lambda>encoded_request.
     bindc (direct_send os joinAddrInt joinPortInt encoded_request peerProtocolCalculateSize) (\<lambda>_.
     ret ()))))"

text \<open>The two dumps of the encoded message read it in full and its first four bytes.\<close>

definition notify :: "os \<Rightarrow> byte32 \<Rightarrow> byte16 \<Rightarrow> Peer option \<Rightarrow> ('z net_scheme, unit) cmd" where
  "notify os target_node_IP target_node_Port next_peer_info =
     bindc (local_message os) (\<lambda>notify_request.
     bindc (deref_peer next_peer_info) (\<lambda>p.
     bindc (liftr (int_addr_to_str target_node_IP)) (\<lambda>notifyaddr_str.
     bindc (liftr (int_port_to_str target_node_Port)) (\<lambda>notifyport_str.
     bindc (encode_peer os (notify_request\<lparr>pp_control := CONTROL_BIT, pp_notify := NOTIFY_BIT,
              pp_nodeId := peer_id p, pp_nodeIp := peer_ip p, pp_nodePort := peer_port p\<rparr>))
       (\<lambda>encoded_request.
     bindc (liftr (HEX_VALUE_LOG encoded_request peerProtocolCalculateSize)) (\<lambda>_.
     bindc (liftr (load32 encoded_request)) (\<lambda>_.
     bindc (direct_send os (Some notifyaddr_str) (Some notifyport_str) encoded_request
              peerProtocolCalculateSize) (\<lambda>_.
     ret ()))))))))"

definition stabilize :: "os \<Rightarrow> byte32 \<Rightarrow> byte16 \<Rightarrow> Peer option \<Rightarrow> ('z net_scheme, unit) cmd" where
  "stabilize os next_node_IP next_node_Port this_peer_info =
     bindc (local_message os) (\<lambda>stabilize_request.
     bindc (deref_peer this_peer_info) (\<lambda>p.
     bindc (liftr (int_addr_to_str next_node_IP)) (\<lambda>nextaddr_str.
     bindc (liftr (int_port_to_str next_node_Port)) (\<lambda>nextport_str.
     bindc (encode_peer os (stabilize_request\<lparr>pp_stabilize := STABILIZE_BIT,
              pp_control := CONTROL_BIT,
              pp_nodeId := peer_id p, pp_nodeIp := peer_ip p, pp_nodePort := peer_port p\<rparr>))
       (\<lambda>encoded_request.
     bindc (direct_send os (Some nextaddr_str) (Some nextport_str) encoded_request
              peerProtocolCalculateSize) (\<lambda>_.
     ret ()))))))"

text \<open>The rounds of the loop of \<^verbatim>\<open>buildfinger\<close>.\<close>

definition finger_id :: "byte16 \<Rightarrow> nat \<Rightarrow> byte16" where
  "finger_id self i = ucast ((ucast self :: byte32) + push_bit i 2 mod 65536)"

fun buildfinger_loop ::
    "os \<Rightarrow> byte32 \<Rightarrow> byte16 \<Rightarrow> Peer \<Rightarrow> PeerProtocol \<Rightarrow> nat list \<Rightarrow> ('z net_scheme, unit) cmd" where
  "buildfinger_loop os ip port p finger_request [] = ret ()"
| "buildfinger_loop os ip port p finger_request (i # is) =
     (if peer_next_finger p \<noteq> None then
        (let finger_request = finger_request\<lparr>pp_nodeId := finger_id (peer_id p) i\<rparr> in
        bindc (liftr (int_addr_to_str ip)) (\<lambda>nextaddr_str.
        bindc (liftr (int_port_to_str port)) (\<lambda>nextport_str.
        bindc (encode_peer os finger_request) (\<lambda>encoded_request.
        bindc (direct_send os (Some nextaddr_str) (Some nextport_str) encoded_request
                 peerProtocolCalculateSize) (\<lambda>_.
        buildfinger_loop os ip port p finger_request is)))))
      else buildfinger_loop os ip port p finger_request is)"

definition buildfinger :: "os \<Rightarrow> byte32 \<Rightarrow> byte16 \<Rightarrow> Peer option \<Rightarrow> ('z net_scheme, unit) cmd" where
  "buildfinger os next_node_IP next_node_Port this_peer_info =
     bindc (local_message os) (\<lambda>finger_request.
     bindc (deref_peer this_peer_info) (\<lambda>p.
     buildfinger_loop os next_node_IP next_node_Port p
       (finger_request\<lparr>pp_lookup := LOOKUP_BIT, pp_control := CONTROL_BIT, pp_finger := 0,
          pp_nodeIp := peer_ip p, pp_nodePort := peer_port p\<rparr>) [0..<16]))"

section \<open>Lookups\<close>

text \<open>The message's node fields are overwritten before they are used as the destination.\<close>

definition send_found_lookup ::
    "os \<Rightarrow> PeerProtocol \<Rightarrow> Peer option \<Rightarrow> ('z net_scheme, PeerProtocol) cmd" where
  "send_found_lookup os data next =
     (let data = data\<lparr>pp_control := CONTROL_BIT, pp_reply := REPLY_BIT, pp_lookup := 0\<rparr> in
     bindc (deref_peer next) (\<lambda>n.
     let data = data\<lparr>pp_nodePort := peer_port n, pp_nodeIp := peer_ip n, pp_nodeId := peer_id n\<rparr> in
     bindc (liftr (int_addr_to_str (pp_nodeIp data))) (\<lambda>nodeIp.
     bindc (liftr (int_port_to_str (pp_nodePort data))) (\<lambda>nodePort.
     bindc (encode_peer os data) (\<lambda>encodedData.
     bindc (direct_send os (Some nodeIp) (Some nodePort) encodedData peerProtocolCalculateSize) (\<lambda>_.
     ret data))))))"

definition peerProtocol_from_clientProtocol ::
    "PeerProtocol \<Rightarrow> ClientProtocol \<Rightarrow> Peer option \<Rightarrow> fault + PeerProtocol" where
  "peerProtocol_from_clientProtocol junk clientProtocol peer =
     bindr (get_hash_value (cp_key clientProtocol) (cp_key_length clientProtocol)) (\<lambda>h.
     make_peerProtocol junk 0 1 (ucast h) peer)"

section \<open>Everything here only makes calls\<close>

lemma net_only_connect_first [net_intros]: "net_only (connect_first os ps)"
  by (induction ps) (auto intro!: net_intros)

lemma net_only_setup_as_client [net_intros]: "net_only (setup_as_client os a p)"
  unfolding setup_as_client_def by (intro net_intros)

lemma net_only_bind_first [net_intros]: "net_only (bind_first os ps)"
  by (induction ps) (auto intro!: net_intros)

lemma net_only_setup_as_server [net_intros]: "net_only (setup_as_server os p)"
  unfolding setup_as_server_def by (intro net_intros)

lemma net_only_accept_loop [net_intros]: "net_only (accept_loop os fuel fd)"
  by (induction fuel) (auto intro!: net_intros)

lemma net_only_get_new_connection [net_intros]: "net_only (get_new_connection os fuel fd)"
  unfolding get_new_connection_def by (intro net_intros)

lemma net_only_direct_receive [net_intros]: "net_only (direct_receive os fuel fd status)"
  by (induction fuel arbitrary: status) (auto intro!: net_intros)

lemma net_only_redirect [net_intros]: "net_only (redirect os fuel a b)"
  unfolding redirect_def by (intro net_intros)

lemma net_only_direct_send [net_intros]: "net_only (direct_send os a p d n)"
  unfolding direct_send_def by (intro net_intros)

lemma net_only_messages [net_intros]:
  "net_only (deref_peer q)" "net_only (encode_peer os m)" "net_only (encode_client os c)"
  "net_only (local_message os)"
  unfolding deref_peer_def encode_peer_def encode_client_def local_message_def
  by (intro net_intros)+

lemma net_only_senders [net_intros]:
  "net_only (join os a p q)" "net_only (notify os ip port q)" "net_only (stabilize os ip port q)"
  "net_only (send_found_lookup os m q)"
  unfolding join_def notify_def stabilize_def send_found_lookup_def by (intro net_intros)+

lemma net_only_buildfinger [net_intros]: "net_only (buildfinger os ip port q)"
proof -
  have "net_only (buildfinger_loop os ip port p m is)" for p m "is"
    by (induction "is" arbitrary: m) (auto intro!: net_intros)
  then show ?thesis unfolding buildfinger_def by (intro net_intros)
qed

section \<open>Posting a message\<close>

text \<open>The specification of all senders: connect and hand the bytes over.\<close>

definition post :: "os \<Rightarrow> string option \<Rightarrow> string option \<Rightarrow> bytes \<Rightarrow> ('z net_scheme, int) cmd" where
  "post os addr port bs =
     bindc (setup_as_client os addr port) (\<lambda>fd. seqc (log_event (Ev_send fd bs)) (ret fd))"

lemma net_only_post [net_intros]: "net_only (post os a p bs)"
  unfolding post_def by (intro net_intros)

lemma send_obj: "n = length bs \<Longrightarrow> send fd (Obj (bs @ r)) n = log_event (Ev_send fd bs)"
  by (auto simp: send_def fun_eq_iff cmd_simps)

lemma direct_send_post: "n = length bs \<Longrightarrow> direct_send os a p (Obj (bs @ r)) n = post os a p bs"
  by (simp add: direct_send_def post_def send_obj)

text \<open>The allocator gives at least thirteen bytes to a request of eleven (glibc gives 24). The
  encoder of peer messages writes, and the decoder reads, the two bytes on top.\<close>

definition room :: "os \<Rightarrow> bool" where
  "room os \<longleftrightarrow> (\<forall>h. 2 \<le> length (os_slack os h 11))"

lemma encode_peer_run:
  assumes "room os"
  shows "encode_peer os m s =
    (Inr (Obj (peer_wire m @ [0, 0] @ drop 2 (os_slack os (trace s) 11))), s)"
  using assms by (simp add: encode_peer_def cmd_simps encode_peerProtocol_eq room_def)

lemma direct_send_peer:
  "direct_send os a p (Obj (peer_wire m @ r)) peerProtocolCalculateSize = post os a p (peer_wire m)"
  by (rule direct_send_post) (simp add: peerProtocolCalculateSize_def)

text \<open>A message as the next peer sees it: the flags are the bits of the header, to which the
  uninitialised flag fields of the sender contribute.\<close>

definition with_node :: "Peer \<Rightarrow> PeerProtocol \<Rightarrow> PeerProtocol" where
  "with_node p m = m\<lparr>pp_nodeId := peer_id p, pp_nodeIp := peer_ip p, pp_nodePort := peer_port p\<rparr>"

text \<open>The interface of the functions that send one message about a peer to another peer.\<close>

locale peer_sender =
  fixes snd_msg :: "os \<Rightarrow> byte32 \<Rightarrow> byte16 \<Rightarrow> Peer option \<Rightarrow> ('z net_scheme, unit) cmd"
    and mark :: "PeerProtocol \<Rightarrow> PeerProtocol"
    and bit :: byte8
  assumes snd_none: "snd_msg os ip port None s = (Inl NullDeref, s)"
    and snd_port: "\<not> port < 10000 \<Longrightarrow> snd_msg os ip port (Some p) s = (Inl OutOfBounds, s)"
    and snd_posts: "port < 10000 \<Longrightarrow> room os \<Longrightarrow> snd_msg os ip port (Some p) s =
      bindc (post os (Some (inet_ntop4 ip)) (Some (dec_string (unat port)))
        (peer_wire (with_node p (mark (os_junk os (trace s)))))) (\<lambda>_. ret ()) s"
    and mark_bits: "peer_header (with_node p (mark m)) AND CONTROL_BIT = CONTROL_BIT"
      "peer_header (with_node p (mark m)) AND bit = bit"
begin

lemma receiver_sees:
  assumes "2 \<le> length r"
  shows "\<exists>d. decode_peerProtocol (Obj (peer_wire (with_node p (mark m)) @ r)) z = Inr d \<and>
    pp_control d = CONTROL_BIT \<and> pp_nodeId d = peer_id p \<and> pp_nodeIp d = peer_ip p \<and>
    pp_nodePort d = peer_port p"
  using assms mark_bits(1) [of p m] by (simp add: decode_peer_wire with_header_def with_node_def)

lemma no_reply_without_message:
  assumes "fst (snd_msg os ip port q s) = Inr ()"
  shows "q \<noteq> None \<and> port < 10000"
  using assms snd_none snd_port by (cases q) (auto, metis fst_conv sum.distinct(1))

end

lemma local_message_run [cmd_simps]: "local_message os s = (Inr (os_junk os (trace s)), s)"
  by (simp add: local_message_def cmd_simps)

lemma deref_peer_run [simp]: "deref_peer None = failc NullDeref" "deref_peer (Some p) = ret p"
  by (simp_all add: deref_peer_def)

lemma OR_AND_absorb: "(a OR b) AND b = (b :: byte8)" "(b OR a) AND b = b"
  by (rule bit_eqI; auto simp: bit_simps)+

lemma peer_header_bits:
  "peer_header m AND pp_control m = pp_control m" "peer_header m AND pp_notify m = pp_notify m"
  "peer_header m AND pp_stabilize m = pp_stabilize m" "peer_header m AND pp_reply m = pp_reply m"
  "peer_header m AND pp_join m = pp_join m" "peer_header m AND pp_lookup m = pp_lookup m"
  by (rule bit_eqI; auto simp: peer_header_def bit_simps)+

lemma dumps_ok:
  "\<exists>t. HEX_VALUE_LOG (Obj (peer_wire m @ r)) peerProtocolCalculateSize = Inr t"
  "\<exists>w. load32 (Obj (peer_wire m @ r)) = Inr w"
  by (simp_all add: HEX_VALUE_LOG_def peerProtocolCalculateSize_def load32_def)

lemma notify_run:
  "notify os ip port None s = (Inl NullDeref, s)"
  "\<not> port < 10000 \<Longrightarrow> notify os ip port (Some p) s = (Inl OutOfBounds, s)"
  "port < 10000 \<Longrightarrow> room os \<Longrightarrow> notify os ip port (Some p) s =
      bindc (post os (Some (inet_ntop4 ip)) (Some (dec_string (unat port)))
        (peer_wire (with_node p ((os_junk os (trace s))\<lparr>pp_control := CONTROL_BIT,
           pp_notify := NOTIFY_BIT\<rparr>)))) (\<lambda>_. ret ()) s"
proof -
  show "notify os ip port None s = (Inl NullDeref, s)"
    by (simp add: notify_def cmd_simps)
  show "\<not> port < 10000 \<Longrightarrow> notify os ip port (Some p) s = (Inl OutOfBounds, s)"
    by (simp add: notify_def cmd_simps int_port_to_str_cases)
  assume a: "port < 10000" "room os"
  let ?m = "with_node p ((os_junk os (trace s))\<lparr>pp_control := CONTROL_BIT, pp_notify := NOTIFY_BIT\<rparr>)"
  obtain t w where d: "HEX_VALUE_LOG (Obj (peer_wire ?m @ [0, 0] @ drop 2 (os_slack os (trace s) 11)))
      peerProtocolCalculateSize = Inr t"
    "load32 (Obj (peer_wire ?m @ [0, 0] @ drop 2 (os_slack os (trace s) 11))) = Inr w"
    using dumps_ok by metis
  show "notify os ip port (Some p) s = bindc (post os (Some (inet_ntop4 ip)) (Some (dec_string (unat port)))
        (peer_wire ?m)) (\<lambda>_. ret ()) s"
    using d a by (simp add: notify_def cmd_simps int_port_to_str_cases encode_peer_run direct_send_peer
      with_node_def del: append_Cons append_Nil append.simps)
qed

lemma stabilize_run:
  "stabilize os ip port None s = (Inl NullDeref, s)"
  "\<not> port < 10000 \<Longrightarrow> stabilize os ip port (Some p) s = (Inl OutOfBounds, s)"
  "port < 10000 \<Longrightarrow> room os \<Longrightarrow> stabilize os ip port (Some p) s =
      bindc (post os (Some (inet_ntop4 ip)) (Some (dec_string (unat port)))
        (peer_wire (with_node p ((os_junk os (trace s))\<lparr>pp_stabilize := STABILIZE_BIT,
           pp_control := CONTROL_BIT\<rparr>)))) (\<lambda>_. ret ()) s"
  by (simp_all add: stabilize_def cmd_simps int_port_to_str_cases encode_peer_run direct_send_peer
      with_node_def del: append_Cons append_Nil append.simps)

interpretation notify_msg: peer_sender notify
  "\<lambda>m. m\<lparr>pp_control := CONTROL_BIT, pp_notify := NOTIFY_BIT\<rparr>" NOTIFY_BIT
proof unfold_locales
  fix p m
  let ?m = "with_node p (m\<lparr>pp_control := CONTROL_BIT, pp_notify := NOTIFY_BIT\<rparr>)"
  show "peer_header ?m AND CONTROL_BIT = CONTROL_BIT" "peer_header ?m AND NOTIFY_BIT = NOTIFY_BIT"
    using peer_header_bits(1,2) [of ?m] by (simp_all add: with_node_def)
qed (simp_all add: notify_run)

interpretation stabilize_msg: peer_sender stabilize
  "\<lambda>m. m\<lparr>pp_stabilize := STABILIZE_BIT, pp_control := CONTROL_BIT\<rparr>" STABILIZE_BIT
proof unfold_locales
  fix p m
  let ?m = "with_node p (m\<lparr>pp_stabilize := STABILIZE_BIT, pp_control := CONTROL_BIT\<rparr>)"
  show "peer_header ?m AND CONTROL_BIT = CONTROL_BIT" "peer_header ?m AND STABILIZE_BIT = STABILIZE_BIT"
    using peer_header_bits(1,3) [of ?m] by (simp_all add: with_node_def)
qed (simp_all add: stabilize_run)

lemma join_run:
  "join os a q None s = (Inl NullDeref, s)"
  "room os \<Longrightarrow> join os a q (Some p) s =
      bindc (post os a q (peer_wire (with_node p ((os_junk os (trace s))\<lparr>pp_join := JOIN_BIT,
           pp_control := CONTROL_BIT\<rparr>)))) (\<lambda>_. ret ()) s"
  by (simp_all add: join_def cmd_simps encode_peer_run direct_send_peer
      with_node_def del: append_Cons append_Nil append.simps)

lemma node_order: "m\<lparr>pp_nodePort := a, pp_nodeIp := b, pp_nodeId := c\<rparr> =
    m\<lparr>pp_nodeId := c, pp_nodeIp := b, pp_nodePort := (a :: byte16)\<rparr>" for m :: PeerProtocol
  by (cases m) simp

lemma send_found_lookup_run:
  "send_found_lookup os m None s = (Inl NullDeref, s)"
  "\<not> peer_port n < 10000 \<Longrightarrow> send_found_lookup os m (Some n) s = (Inl OutOfBounds, s)"
  "peer_port n < 10000 \<Longrightarrow> room os \<Longrightarrow> send_found_lookup os m (Some n) s =
     (let d = with_node n (m\<lparr>pp_control := CONTROL_BIT, pp_reply := REPLY_BIT, pp_lookup := 0\<rparr>) in
      bindc (post os (Some (inet_ntop4 (peer_ip n))) (Some (dec_string (unat (peer_port n))))
        (peer_wire d)) (\<lambda>_. ret d) s)"
  by (simp_all add: send_found_lookup_def cmd_simps int_port_to_str_cases encode_peer_run
      direct_send_peer with_node_def node_order Let_def del: append_Cons append_Nil append.simps)

section \<open>Receiving: what is assembled\<close>

text \<open>\<open>recv_script os fd h cs\<close>: from history \<open>h\<close> on, the calls of \<^verbatim>\<open>recv\<close> that
  \<^verbatim>\<open>direct_receive\<close> makes are answered by \<open>cs\<close>.\<close>

fun recv_script :: "os \<Rightarrow> int \<Rightarrow> event list \<Rightarrow> bytes option list \<Rightarrow> bool" where
  "recv_script os fd h [] = True"
| "recv_script os fd h (c # cs) \<longleftrightarrow>
     os_recv os h fd = c \<and> recv_script os fd (h @ [Ev_recv fd c]) cs"

definition realloc_in_place :: "os \<Rightarrow> bool" where
  "realloc_in_place os \<longleftrightarrow> (\<forall>h. \<not> os_realloc_moves os h)"

lemma unat_of_nat_size: "n < 2 ^ 64 \<Longrightarrow> unat (of_nat n :: size_t) = n"
  by (simp add: unat_of_nat take_bit_nat_eq_self)

lemma recv_result_simps [simp]:
  "recv_result None = -1"
  "recv_result (Some bs) = of_nat (length bs)"
  by (simp_all add: recv_result_def)

lemma size_max: "\<not> (-1 :: size_t) < of_nat BUFFER_SIZE" "(-1 :: size_t) \<noteq> of_nat BUFFER_SIZE"
  by (simp_all add: BUFFER_SIZE_def)

lemma of_nat_less_size: "m < 2 ^ 64 \<Longrightarrow> n < 2 ^ 64 \<Longrightarrow> (of_nat m :: size_t) < of_nat n \<longleftrightarrow> m < n"
  by (simp add: word_less_nat_alt unat_of_nat_size)

lemma direct_receive_error:
  assumes "os_recv os (trace s) fd = None"
  shows "direct_receive os (Suc fuel) fd status s =
    (Inr \<lparr>rs_data_length = -1, rs_data = Dangling,
          rs_status_code = (if status then Some STATUS_OK else None)\<rparr>,
     s\<lparr>trace := trace s @ [Ev_recv fd None]\<rparr>)"
  using size_max by (simp add: cmd_simps assms Let_def)

lemma direct_receive_short:
  assumes "os_recv os (trace s) fd = Some bs" "length bs < BUFFER_SIZE"
  shows "direct_receive os (Suc fuel) fd status s =
    (let h = trace s @ [Ev_recv fd (Some bs)] in
     (Inr \<lparr>rs_data_length = of_nat (length bs), rs_data = shrink os h bs,
          rs_status_code = (if status then Some STATUS_OK else None)\<rparr>, s\<lparr>trace := h\<rparr>))"
proof -
  have "(of_nat (length bs) :: size_t) < of_nat BUFFER_SIZE"
    using assms(2) by (subst of_nat_less_size) (simp_all add: BUFFER_SIZE_def)
  moreover have "take BUFFER_SIZE bs = bs" using assms(2) by simp
  ultimately show ?thesis by (simp add: cmd_simps assms(1) Let_def)
qed

definition readable :: "Response \<Rightarrow> bytes \<Rightarrow> bool" where
  "readable r bs \<longleftrightarrow> rs_data_length r = of_nat (length bs) \<and>
     read_bytes (rs_data r) (length bs) = Inr bs"

lemma readable_shrink: "readable \<lparr>rs_data_length = of_nat (length bs), rs_data = shrink os h bs,
    rs_status_code = c\<rparr> bs"
  by (auto simp: readable_def shrink_def)

lemma direct_receive_script:
  assumes "realloc_in_place os"
    and "recv_script os fd (trace s) (map Some (cs @ [c]))"
    and "list_all (\<lambda>b. length b = BUFFER_SIZE) cs" "length c < BUFFER_SIZE"
    and "length cs < fuel" "length (concat cs @ c) < 2 ^ 64"
  shows "\<exists>r t. direct_receive os fuel fd status s = (Inr r, t) \<and> readable r (concat cs @ c) \<and>
    rs_status_code r = (if status then Some STATUS_OK else None)"
  using assms
proof (induction cs arbitrary: fuel status s)
  case Nil
  then obtain n where n: "fuel = Suc n" by (cases fuel) auto
  have rec: "os_recv os (trace s) fd = Some c" using Nil by simp
  show ?case
    using direct_receive_short [OF rec Nil.prems(4), of n status] readable_shrink
    by (simp add: n Let_def)
next
  case (Cons b bs)
  then obtain n where n: "fuel = Suc n" by (cases fuel) auto
  let ?s = "s\<lparr>trace := trace s @ [Ev_recv fd (Some b)]\<rparr>"
  have b: "os_recv os (trace s) fd = Some b" "length b = BUFFER_SIZE" "take BUFFER_SIZE b = b"
    using Cons.prems(2,3) by simp_all
  obtain r t where r: "direct_receive os n fd False ?s = (Inr r, t)" "readable r (concat bs @ c)"
    using Cons.IH [of ?s n False] Cons.prems n by auto
  have len: "rs_data_length r = of_nat (length (concat bs @ c))"
    "read_bytes (rs_data r) (length (concat bs @ c)) = Inr (concat bs @ c)"
    using r(2) by (simp_all add: readable_def)
  have u: "unat (rs_data_length r) = length (concat bs @ c)"
    unfolding len(1) by (rule unat_of_nat_size) (use Cons.prems(6) in simp)
  have m: "\<not> os_realloc_moves os h" for h using Cons.prems(1) by (simp add: realloc_in_place_def)
  let ?d = "b @ concat bs @ c"
  have "direct_receive os fuel fd status s = (Inr
      \<lparr>rs_data_length = of_nat BUFFER_SIZE + rs_data_length r,
       rs_data = Obj (?d @ os_slack os (trace t @ [Ev_realloc (unat (rs_data_length r + of_nat BUFFER_SIZE))])
          (length ?d)),
       rs_status_code = (if status then Some STATUS_OK else None)\<rparr>,
      t\<lparr>trace := trace t @ [Ev_realloc (unat (rs_data_length r + of_nat BUFFER_SIZE))]\<rparr>)"
    using b m r(1) len(2) by (simp add: n cmd_simps Let_def u del: of_nat_add)
  moreover have "of_nat BUFFER_SIZE + rs_data_length r = of_nat (length ?d)"
    by (simp only: len(1) length_append of_nat_add b(2))
  ultimately show ?case
    by (auto simp: readable_def simp del: append_assoc)
qed

lemma direct_receive_status:
  assumes "direct_receive os fuel fd status s = (Inr r, t)"
  shows "rs_status_code r = (if status then Some STATUS_OK else None)"
proof (cases fuel)
  case 0
  with assms show ?thesis by (simp add: cmd_simps)
next
  case (Suc n)
  show ?thesis
    using assms unfolding Suc direct_receive.simps
    by (auto elim!: bindc_eqD simp: sys_run Let_def split: if_splits)
qed

text \<open>More fuel changes nothing once a run did not run out of it.\<close>

lemma direct_receive_more_fuel:
  assumes "fst (direct_receive os n fd status s) \<noteq> Inl OutOfFuel" "n \<le> m"
  shows "direct_receive os m fd status s = direct_receive os n fd status s"
  using assms
proof (induction n arbitrary: m status s)
  case (Suc n)
  then obtain k where m: "m = Suc k" "n \<le> k" by (cases m) auto
  show ?case
  proof (cases "os_recv os (trace s) fd")
    case None
    then show ?thesis by (simp add: m direct_receive_error del: direct_receive.simps)
  next
    case (Some bs)
    let ?b = "take BUFFER_SIZE bs"
    let ?s = "s\<lparr>trace := trace s @ [Ev_recv fd (Some ?b)]\<rparr>"
    show ?thesis
    proof (cases "length ?b = BUFFER_SIZE")
      case True
      have "fst (direct_receive os n fd False ?s) \<noteq> Inl OutOfFuel"
      proof
        assume "fst (direct_receive os n fd False ?s) = Inl OutOfFuel"
        then obtain t where "direct_receive os n fd False ?s = (Inl OutOfFuel, t)"
          by (metis prod.collapse)
        with Suc.prems(1) Some True show False by (simp add: cmd_simps Let_def)
      qed
      from Suc.IH [OF this m(2)] show ?thesis
        using Some True by (simp add: m cmd_simps Let_def)
    next
      case False
      then have l: "length bs < BUFFER_SIZE" by auto
      show ?thesis
        by (simp add: m direct_receive_short [OF Some l] del: direct_receive.simps)
    qed
  qed
qed (simp add: cmd_simps)

section \<open>Accepting: what happens to the listener\<close>

lemma accept_loop_run:
  assumes "accept_loop os n fd s = (Inr (c, a), t)"
  shows "\<exists>h. t = s\<lparr>trace := trace s @ h @ [Ev_accept fd c]\<rparr> \<and> c \<noteq> -1"
  using assms
proof (induction n arbitrary: s)
  case (Suc n)
  let ?r = "os_accept os (trace s) fd"
  show ?case
  proof (cases "fst ?r = -1")
    case True
    let ?s = "s\<lparr>trace := trace s @ [Ev_accept fd (-1)]\<rparr>"
    have "accept_loop os n fd ?s = (Inr (c, a), t)"
      using Suc.prems True by (simp add: cmd_simps split: prod.splits)
    from Suc.IH [OF this] show ?thesis
      by (auto intro: exI [of _ "Ev_accept fd (-1) # h" for h])
  next
    case False
    then show ?thesis
      using Suc.prems by (auto simp: cmd_simps split: prod.splits intro: exI [of _ "[]"])
  qed
qed (simp add: cmd_simps)

lemma accept_loop_deaf:
  assumes "accept_needs_listen os" "\<not> listening (trace s) fd"
  shows "fst (accept_loop os n fd s) = Inl OutOfFuel"
  using assms(2)
proof (induction n arbitrary: s)
  case (Suc n)
  obtain c a where r: "os_accept os (trace s) fd = (c, a)" by fastforce
  with assms(1) Suc.prems have "c = -1" by (metis fst_conv accept_needs_listen_def)
  with r Suc.IH [of "s\<lparr>trace := trace s @ [Ev_accept fd (-1)]\<rparr>"] Suc.prems show ?case
    by (simp add: cmd_simps)
qed (simp add: cmd_simps)

lemma get_new_connection_run:
  assumes "get_new_connection os n fd s = (Inr c, t)"
  shows "\<exists>h. t = s\<lparr>trace := trace s @ h @ [Ev_accept fd c, Ev_close fd]\<rparr> \<and> c \<noteq> -1"
proof -
  from assms obtain a u where a: "accept_loop os n fd s = (Inr (c, a), u)"
    and t: "t = u\<lparr>trace := trace u @ [Ev_close fd]\<rparr>"
    unfolding get_new_connection_def
    by (auto elim!: bindc_eqD simp: seqc_run log_event_run split: option.splits)
  from accept_loop_run [OF a] t show ?thesis by auto
qed

lemma get_new_connection_deaf:
  assumes "accept_needs_listen os" "\<not> listening (trace s) fd"
  shows "fst (get_new_connection os n fd s) = Inl OutOfFuel"
proof -
  obtain t where "accept_loop os n fd s = (Inl OutOfFuel, t)"
    using accept_loop_deaf [OF assms, of n] by (metis prod.collapse)
  then show ?thesis by (simp add: get_new_connection_def cmd_simps)
qed

section \<open>Descriptors\<close>

text \<open>The descriptors a stretch of history has opened with \<^verbatim>\<open>socket\<close> and not closed.\<close>

fun open_fds :: "event list \<Rightarrow> int list \<Rightarrow> int list" where
  "open_fds [] fds = fds"
| "open_fds (Ev_socket p fd # h) fds = open_fds h (if fd = -1 then fds else fd # fds)"
| "open_fds (Ev_close fd # h) fds = open_fds h (remove1 fd fds)"
| "open_fds (_ # h) fds = open_fds h fds"

lemma open_fds_append: "open_fds (h @ h') fds = open_fds h' (open_fds h fds)"
  by (induction h fds rule: open_fds.induct) auto

lemma connect_first_fds:
  "\<exists>h. snd (connect_first os ps s) = s\<lparr>trace := trace s @ h\<rparr> \<and>
     (case fst (connect_first os ps s) of Inl _ \<Rightarrow> False
      | Inr None \<Rightarrow> open_fds h fds = fds
      | Inr (Some fd) \<Rightarrow> open_fds h fds = fd # fds \<and> fd \<noteq> -1 \<and>
          (\<exists>p\<in>set ps. \<exists>r. r \<noteq> -1 \<and> last h = Ev_connect fd p r \<and> h \<noteq> []))"
proof (induction ps arbitrary: s)
  case Nil
  show ?case by (auto intro: exI [of _ "[]"])
next
  case (Cons p ps)
  let ?fd = "os_socket os (trace s) p"
  let ?s1 = "s\<lparr>trace := trace s @ [Ev_socket p ?fd]\<rparr>"
  let ?r = "os_connect os (trace ?s1) ?fd p"
  let ?s2 = "s\<lparr>trace := trace s @ [Ev_socket p ?fd, Ev_connect ?fd p ?r, Ev_close ?fd]\<rparr>"
  consider (bad) "?fd = -1" | (refused) "?fd \<noteq> -1" "?r = -1" | (good) "?fd \<noteq> -1" "?r \<noteq> -1" by blast
  then show ?case
  proof cases
    case bad
    obtain h where h: "snd (connect_first os ps ?s1) = ?s1\<lparr>trace := trace ?s1 @ h\<rparr>"
      "case fst (connect_first os ps ?s1) of Inl _ \<Rightarrow> False
      | Inr None \<Rightarrow> open_fds h fds = fds
      | Inr (Some fd) \<Rightarrow> open_fds h fds = fd # fds \<and> fd \<noteq> -1 \<and>
          (\<exists>p\<in>set ps. \<exists>r. r \<noteq> -1 \<and> last h = Ev_connect fd p r \<and> h \<noteq> [])"
      using Cons.IH [of ?s1] by blast
    have e: "connect_first os (p # ps) s = connect_first os ps ?s1"
      using bad by (simp add: cmd_simps)
    from h bad show ?thesis unfolding e
      by (intro exI [of _ "Ev_socket p ?fd # h"]) (auto split: sum.splits option.splits)
  next
    case refused
    obtain h where h: "snd (connect_first os ps ?s2) = ?s2\<lparr>trace := trace ?s2 @ h\<rparr>"
      "case fst (connect_first os ps ?s2) of Inl _ \<Rightarrow> False
      | Inr None \<Rightarrow> open_fds h fds = fds
      | Inr (Some fd) \<Rightarrow> open_fds h fds = fd # fds \<and> fd \<noteq> -1 \<and>
          (\<exists>p\<in>set ps. \<exists>r. r \<noteq> -1 \<and> last h = Ev_connect fd p r \<and> h \<noteq> [])"
      using Cons.IH [of ?s2] by blast
    have e: "connect_first os (p # ps) s = connect_first os ps ?s2"
      using refused by (simp add: cmd_simps)
    from h refused show ?thesis unfolding e
      by (intro exI [of _ "Ev_socket p ?fd # Ev_connect ?fd p ?r # Ev_close ?fd # h"])
        (auto split: sum.splits option.splits)
  next
    case good
    then show ?thesis
      by (intro exI [of _ "[Ev_socket p ?fd, Ev_connect ?fd p ?r]"]) (auto simp: cmd_simps)
  qed
qed

lemma setup_as_client_fds:
  "\<exists>h r. setup_as_client os a q s = (Inr r, s\<lparr>trace := trace s @ h\<rparr>) \<and>
     (r = -1 \<and> open_fds h fds = fds \<or>
      open_fds h fds = r # fds \<and> r \<noteq> -1 \<and> (\<exists>p x. x \<noteq> -1 \<and> last h = Ev_connect r p x \<and> h \<noteq> []))"
proof -
  let ?g = "os_getaddrinfo os (trace s) a q client_hints"
  let ?s = "s\<lparr>trace := trace s @ [Ev_getaddrinfo a q]\<rparr>"
  show ?thesis
  proof (cases "fst ?g = 0")
    case False
    then show ?thesis
      by (intro exI [of _ "[Ev_getaddrinfo a q]"] exI [of _ "-1"])
        (auto simp: setup_as_client_def cmd_simps split: prod.splits)
  next
    case True
    obtain h where h: "snd (connect_first os (snd ?g) ?s) = ?s\<lparr>trace := trace ?s @ h\<rparr>"
      "case fst (connect_first os (snd ?g) ?s) of Inl _ \<Rightarrow> False
      | Inr None \<Rightarrow> open_fds h fds = fds
      | Inr (Some fd) \<Rightarrow> open_fds h fds = fd # fds \<and> fd \<noteq> -1 \<and>
          (\<exists>p\<in>set (snd ?g). \<exists>r. r \<noteq> -1 \<and> last h = Ev_connect fd p r \<and> h \<noteq> [])"
      using connect_first_fds [of os "snd ?g" ?s fds] by blast
    have e: "setup_as_client os a q s = bindc (connect_first os (snd ?g))
        (\<lambda>p. case p of None \<Rightarrow> ret (-1) | Some fd \<Rightarrow> ret fd) ?s"
    proof -
      obtain ps where "?g = (0, ps)" using True by (metis prod.collapse)
      then show ?thesis by (simp add: setup_as_client_def sys_run bindc_run)
    qed
    obtain r t where r: "connect_first os (snd ?g) ?s = (r, t)" by fastforce
    show ?thesis
    proof (cases r)
      case (Inl f)
      then show ?thesis using h(2) r by simp
    next
      case (Inr x)
      show ?thesis
        using h r Inr unfolding e
        by (intro exI [of _ "Ev_getaddrinfo a q # h"]) (cases x; auto simp: bindc_run)
    qed
  qed
qed

section \<open>Properties of the network code\<close>

text \<open>C12: a message that arrives in any number of full buffers and a last shorter piece is
  assembled completely and in order, whatever the buffers hold, as long as growing the block
  never moves it; the recursion needs one level per buffer.\<close>

theorem receive_assembles:
  assumes "realloc_in_place os"
    and "recv_script os fd (trace s) (map Some (cs @ [c]))"
    and "list_all (\<lambda>b. length b = BUFFER_SIZE) cs" "length c < BUFFER_SIZE"
    and "length cs < fuel" "length (concat cs @ c) < 2 ^ 64"
  shows "\<exists>r t. direct_receive os fuel fd True s = (Inr r, t) \<and> rs_status_code r = Some STATUS_OK \<and>
    rs_data_length r = of_nat (length (concat cs @ c)) \<and>
    read_bytes (rs_data r) (length (concat cs @ c)) = Inr (concat cs @ c)"
  using direct_receive_script [OF assms, of True] by (auto simp: readable_def)

theorem receive_assembles_witness:
  "let os = idle_os\<lparr>os_recv := (\<lambda>h _. if h = [] then Some (replicate BUFFER_SIZE 7) else Some [8])\<rparr>;
       cs = [replicate BUFFER_SIZE 7] in
   \<exists>r t. direct_receive os 2 4 True \<lparr>trace = []\<rparr> = (Inr r, t) \<and> rs_status_code r = Some STATUS_OK \<and>
     rs_data_length r = of_nat (length (concat cs @ [8])) \<and>
     read_bytes (rs_data r) (length (concat cs @ [8])) = Inr (concat cs @ [8])"
  unfolding Let_def
  by (rule receive_assembles) (simp_all add: realloc_in_place_def idle_os_def BUFFER_SIZE_def)

text \<open>C13: neither an error nor the end of the connection is noticed: after an error the caller
  gets the status of success, a length of \<open>2\<^sup>6\<^sup>4 - 1\<close> and a pointer to freed memory, after the end
  the same status, length 0 and \<^verbatim>\<open>NULL\<close>; and whenever the function returns to its caller the
  status is that of success.\<close>

theorem receive_never_reports_failure:
  "(os_recv os (trace s) fd = None \<longrightarrow> fst (direct_receive os (Suc n) fd True s) =
      Inr \<lparr>rs_data_length = -1, rs_data = Dangling, rs_status_code = Some STATUS_OK\<rparr>) \<and>
   (os_recv os (trace s) fd = Some [] \<longrightarrow> fst (direct_receive os (Suc n) fd True s) =
      Inr \<lparr>rs_data_length = 0, rs_data = Null, rs_status_code = Some STATUS_OK\<rparr>) \<and>
   (\<forall>r t. direct_receive os m fd True s = (Inr r, t) \<longrightarrow> rs_status_code r \<noteq> Some STATUS_SOCKET_CLOSED)"
proof (intro conjI impI allI)
  assume "os_recv os (trace s) fd = None"
  then show "fst (direct_receive os (Suc n) fd True s) =
      Inr \<lparr>rs_data_length = -1, rs_data = Dangling, rs_status_code = Some STATUS_OK\<rparr>"
    by (simp add: direct_receive_error del: direct_receive.simps)
next
  assume a: "os_recv os (trace s) fd = Some []"
  show "fst (direct_receive os (Suc n) fd True s) =
      Inr \<lparr>rs_data_length = 0, rs_data = Null, rs_status_code = Some STATUS_OK\<rparr>"
    using direct_receive_short [OF a, of n True]
    by (simp add: BUFFER_SIZE_def Let_def shrink_def del: direct_receive.simps)
next
  fix r t assume "direct_receive os m fd True s = (Inr r, t)"
  from direct_receive_status [OF this] show "rs_status_code r \<noteq> Some STATUS_SOCKET_CLOSED"
    by (simp add: STATUS_OK_def STATUS_SOCKET_CLOSED_def)
qed

theorem receive_never_reports_failure_witness:
  "fst (direct_receive idle_os 1 4 True \<lparr>trace = []\<rparr>) =
     Inr \<lparr>rs_data_length = -1, rs_data = Dangling, rs_status_code = Some STATUS_OK\<rparr>"
  using receive_never_reports_failure [of idle_os "\<lparr>trace = []\<rparr>" 4 0 0]
  by (simp add: idle_os_def del: direct_receive.simps)

text \<open>
  The result of a receive does not depend on the fuel once there is enough of it.\<close>

theorem receive_fuel_irrelevant:
  assumes "fst (direct_receive os n fd status s) \<noteq> Inl OutOfFuel" and "n \<le> m"
  shows "direct_receive os m fd status s = direct_receive os n fd status s"
  using assms by (rule direct_receive_more_fuel)

theorem receive_fuel_irrelevant_witness:
  "direct_receive idle_os 9 4 True \<lparr>trace = []\<rparr> = direct_receive idle_os 1 4 True \<lparr>trace = []\<rparr>"
proof (rule receive_fuel_irrelevant)
  have "os_recv idle_os (trace \<lparr>trace = []\<rparr>) 4 = None" by (simp add: idle_os_def)
  from direct_receive_error [OF this, of 0 True]
  show "fst (direct_receive idle_os 1 4 True \<lparr>trace = []\<rparr>) \<noteq> Inl OutOfFuel"
    by (simp del: direct_receive.simps)
qed simp

text \<open>
  Accepting one connection closes the listening socket, so that the next call on it
  never returns: no number of attempts is enough.\<close>

theorem listener_closed_after_accept:
  assumes "accept_needs_listen os" and "get_new_connection os n fd s = (Inr c, t)"
  shows "\<not> listening (trace t) fd \<and> (\<forall>m. fst (get_new_connection os m fd t) = Inl OutOfFuel)"
proof -
  obtain h where "t = s\<lparr>trace := trace s @ h @ [Ev_accept fd c, Ev_close fd]\<rparr>"
    using get_new_connection_run [OF assms(2)] by blast
  moreover have "listening (h @ [Ev_accept fd c, Ev_close fd]) fd = False" for h
    using listening_snoc [of "h @ [Ev_accept fd c]" "Ev_close fd" fd] by simp
  ultimately have "\<not> listening (trace t) fd" by (simp flip: append_assoc)
  then show ?thesis using get_new_connection_deaf [OF assms(1)] by blast
qed

theorem listener_closed_after_accept_witness:
  "let s = \<lparr>trace = [Ev_listen 5 0]\<rparr>; t = \<lparr>trace = [Ev_listen 5 0, Ev_accept 5 6, Ev_close 5]\<rparr> in
   get_new_connection lan_os 1 5 s = (Inr 6, t) \<and>
   \<not> listening (trace t) 5 \<and> (\<forall>m. fst (get_new_connection lan_os m 5 t) = Inl OutOfFuel)"
proof -
  let ?s = "\<lparr>trace = [Ev_listen 5 0]\<rparr>" and ?t = "\<lparr>trace = [Ev_listen 5 0, Ev_accept 5 6, Ev_close 5]\<rparr>"
  let ?a = "ai_addr loopback @ replicate 112 0"
  have t: "inet_ntop (unat (of_le16 ?a)) (get_in_addr ?a) 8 = Inr None" by code_simp
  have "os_accept lan_os (trace ?s) 5 = (6, ?a)" by (simp add: lan_os_def listening_def)
  with t have g: "get_new_connection lan_os 1 5 ?s = (Inr 6, ?t)"
    by (simp add: get_new_connection_def cmd_simps)
  show ?thesis using listener_closed_after_accept [OF _ g] g by simp
qed

text \<open>C26: connecting leaks no descriptor: when \<^verbatim>\<open>setup_as_client\<close> fails, every socket it
  opened is closed again, and otherwise exactly the one it returns is open and connected. It
  never ends in a fault.\<close>

theorem setup_as_client_no_leak:
  "\<exists>h r. setup_as_client os addr port s = (Inr r, s\<lparr>trace := trace s @ h\<rparr>) \<and>
     (if r = -1 then open_fds h [] = []
      else open_fds h [] = [r] \<and> (\<exists>p x. x \<noteq> -1 \<and> last h = Ev_connect r p x))"
  using setup_as_client_fds [of os addr port s "[]"] by auto

lemma post_fds:
  "\<exists>h r. post os a q bs s = (Inr r, s\<lparr>trace := trace s @ h @ [Ev_send r bs]\<rparr>) \<and>
     (if r = -1 then open_fds h [] = [] else open_fds h [] = [r])"
proof -
  obtain h r where h: "setup_as_client os a q s = (Inr r, s\<lparr>trace := trace s @ h\<rparr>)"
    "r = -1 \<and> open_fds h [] = [] \<or> open_fds h [] = [r] \<and> r \<noteq> -1"
    using setup_as_client_fds [of os a q s "[]"] by auto
  then show ?thesis
    by (intro exI [of _ h] exI [of _ r]) (auto simp: post_def cmd_simps)
qed

text \<open>
  Nothing closes the socket of a peer message: every notification that is sent leaves
  the descriptor it was sent on open, unless no connection could be made, in which case the
  message is handed to descriptor -1.\<close>

theorem notify_leaks_descriptor:
  assumes "room os" and "port < 10000"
  shows "\<exists>h r. notify os ip port (Some p) s = (Inr (), s\<lparr>trace := trace s @ h\<rparr>) \<and>
    (\<exists>bs. last h = Ev_send r bs) \<and> open_fds h [] = (if r = -1 then [] else [r])"
proof -
  obtain h r where h: "post os (Some (inet_ntop4 ip)) (Some (dec_string (unat port)))
        (peer_wire (with_node p ((os_junk os (trace s))\<lparr>pp_control := CONTROL_BIT, pp_notify := NOTIFY_BIT\<rparr>))) s
      = (Inr r, s\<lparr>trace := trace s @ h @ [Ev_send r (peer_wire (with_node p
          ((os_junk os (trace s))\<lparr>pp_control := CONTROL_BIT, pp_notify := NOTIFY_BIT\<rparr>)))]\<rparr>)"
    "if r = -1 then open_fds h [] = [] else open_fds h [] = [r]"
    using post_fds by blast
  let ?h = "h @ [Ev_send r (peer_wire (with_node p
          ((os_junk os (trace s))\<lparr>pp_control := CONTROL_BIT, pp_notify := NOTIFY_BIT\<rparr>)))]"
  from h(1) have "notify os ip port (Some p) s = (Inr (), s\<lparr>trace := trace s @ ?h\<rparr>)"
    using notify_msg.snd_posts [OF assms(2,1), of ip p s] by (simp add: cmd_simps)
  with h(2) show ?thesis by (intro exI [of _ ?h] exI [of _ r]) (auto simp: open_fds_append)
qed

theorem notify_leaks_descriptor_witness:
  "\<exists>h r. notify lan_os 1 3001 (Some zero_Peer) \<lparr>trace = []\<rparr> =
      (Inr (), \<lparr>trace = []\<rparr>\<lparr>trace := trace \<lparr>trace = []\<rparr> @ h\<rparr>) \<and>
    (\<exists>bs. last h = Ev_send r bs) \<and> open_fds h [] = (if r = -1 then [] else [r])"
  by (rule notify_leaks_descriptor) (simp_all add: room_def lan_os_def idle_os_def)



text \<open>
  The answer to a lookup is connected to the peer that was found, not to the peer that
  asked: whatever address the request carried, the reply goes to the next peer and describes
  that peer.\<close>

theorem lookup_reply_goes_to_next:
  assumes "room os" and "peer_port n < 10000"
  shows "bindc (send_found_lookup os m (Some n)) (\<lambda>_. ret ()) s =
    bindc (post os (Some (inet_ntop4 (peer_ip n))) (Some (dec_string (unat (peer_port n))))
      (peer_wire (m\<lparr>pp_control := CONTROL_BIT, pp_reply := REPLY_BIT, pp_lookup := 0,
         pp_nodeId := peer_id n, pp_nodeIp := peer_ip n, pp_nodePort := peer_port n\<rparr>)))
      (\<lambda>_. ret ()) s"
  using send_found_lookup_run(3) [OF assms(2,1), of m s]
  by (simp add: cmd_simps with_node_def Let_def split: prod.splits sum.splits)

theorem lookup_reply_goes_to_next_witness:
  "let n = zero_Peer\<lparr>peer_id := 9, peer_port := 3001\<rparr>;
       m = zero_PeerProtocol\<lparr>pp_lookup := LOOKUP_BIT, pp_nodePort := 4000\<rparr>; s = \<lparr>trace = []\<rparr> in
   bindc (send_found_lookup lan_os m (Some n)) (\<lambda>_. ret ()) s =
    bindc (post lan_os (Some (inet_ntop4 (peer_ip n))) (Some (dec_string (unat (peer_port n))))
      (peer_wire (m\<lparr>pp_control := CONTROL_BIT, pp_reply := REPLY_BIT, pp_lookup := 0,
         pp_nodeId := peer_id n, pp_nodeIp := peer_ip n, pp_nodePort := peer_port n\<rparr>)))
      (\<lambda>_. ret ()) s"
  unfolding Let_def
  by (rule lookup_reply_goes_to_next) (simp_all add: room_def lan_os_def idle_os_def)

subsection \<open>Fingers\<close>

fun posts :: "os \<Rightarrow> string option \<Rightarrow> string option \<Rightarrow> bytes list \<Rightarrow> ('z net_scheme, unit) cmd" where
  "posts os a q [] = ret ()"
| "posts os a q (bs # bss) = bindc (post os a q bs) (\<lambda>_. posts os a q bss)"

lemma finger_id_words: "list_all (\<lambda>i. (ucast (push_bit i 2 mod 65536 :: byte32) :: byte16)
     = (if i < 15 then 2 ^ Suc i else 0)) [0..<16]"
  by code_simp

lemma finger_id_distance: "i < 16 \<Longrightarrow> finger_id self i = (if i < 15 then self + 2 ^ Suc i else self)"
  using finger_id_words
  by (auto simp: list_all_iff finger_id_def ucast_add16 simp del: power_Suc)

lemma buildfinger_loop_run:
  assumes "room os" "port < 10000" "peer_next_finger p \<noteq> None"
  shows "buildfinger_loop os ip port p m is s =
    posts os (Some (inet_ntop4 ip)) (Some (dec_string (unat port)))
      (map (\<lambda>i. peer_wire (m\<lparr>pp_nodeId := finger_id (peer_id p) i\<rparr>)) is) s"
proof (induction "is" arbitrary: m s)
  case (Cons i "is")
  show ?case
    using assms Cons.IH [of "m\<lparr>pp_nodeId := finger_id (peer_id p) i\<rparr>"]
    by (simp add: cmd_simps int_port_to_str_cases encode_peer_run direct_send_peer Let_def
        split: prod.splits sum.splits del: append_Cons append_Nil append.simps)
qed simp

lemma buildfinger_loop_none:
  "peer_next_finger p = None \<Longrightarrow> buildfinger_loop os ip port p m is s = (Inr (), s)"
  by (induction "is" arbitrary: m) (simp_all add: cmd_simps)

text \<open>
  A peer without a finger table sends nothing when it builds fingers; one that has an
  entry sends sixteen lookups to its next peer, with the node identifiers at distances 2, 4,
  ..., 32768 and, in the last, its own.\<close>

theorem buildfinger_messages:
  assumes "room os" and "port < 10000"
  shows "buildfinger os ip port (Some p) s =
    (if peer_next_finger p = None then (Inr (), s)
     else posts os (Some (inet_ntop4 ip)) (Some (dec_string (unat port)))
       (map (\<lambda>i. peer_wire ((os_junk os (trace s))\<lparr>pp_lookup := LOOKUP_BIT,
            pp_control := CONTROL_BIT, pp_finger := 0, pp_nodeIp := peer_ip p,
            pp_nodePort := peer_port p,
            pp_nodeId := (if i < 15 then peer_id p + 2 ^ Suc i else peer_id p)\<rparr>)) [0..<16]) s)"
proof (cases "peer_next_finger p = None")
  case True
  then show ?thesis by (simp add: buildfinger_def cmd_simps buildfinger_loop_none)
next
  case False
  let ?m = "(os_junk os (trace s))\<lparr>pp_lookup := LOOKUP_BIT, pp_control := CONTROL_BIT, pp_finger := 0,
    pp_nodeIp := peer_ip p, pp_nodePort := peer_port p\<rparr>"
  have "buildfinger os ip port (Some p) s = posts os (Some (inet_ntop4 ip)) (Some (dec_string (unat port)))
      (map (\<lambda>i. peer_wire (?m\<lparr>pp_nodeId := finger_id (peer_id p) i\<rparr>)) [0..<16]) s"
    by (simp only: buildfinger_def bindc_run local_message_run deref_peer_run cmd_run prod.case sum.case
        buildfinger_loop_run [OF assms False])
  also have "map (\<lambda>i. peer_wire (?m\<lparr>pp_nodeId := finger_id (peer_id p) i\<rparr>)) [0..<16] =
      map (\<lambda>i. peer_wire (?m\<lparr>pp_nodeId := (if i < 15 then peer_id p + 2 ^ Suc i else peer_id p)\<rparr>)) [0..<16]"
    by (rule map_cong) (simp_all only: refl set_upt atLeastLessThan_iff finger_id_distance)
  finally show ?thesis using False by (simp only: if_False)
qed

theorem buildfinger_messages_witness:
  "buildfinger lan_os 1 3001 (Some zero_Peer) \<lparr>trace = []\<rparr> =
    (if peer_next_finger zero_Peer = None then (Inr (), \<lparr>trace = []\<rparr>)
     else posts lan_os (Some (inet_ntop4 1)) (Some (dec_string (unat (3001 :: byte16))))
       (map (\<lambda>i. peer_wire ((os_junk lan_os (trace \<lparr>trace = []\<rparr>))\<lparr>pp_lookup := LOOKUP_BIT,
            pp_control := CONTROL_BIT, pp_finger := 0, pp_nodeIp := peer_ip zero_Peer,
            pp_nodePort := peer_port zero_Peer,
            pp_nodeId := (if i < 15 then peer_id zero_Peer + 2 ^ Suc i else peer_id zero_Peer)\<rparr>)) [0..<16])
       \<lparr>trace = []\<rparr>)"
  by (rule buildfinger_messages) (simp_all add: room_def lan_os_def idle_os_def)

lemma ntop4_short:
  "length (inet_ntop4 (of_le32 [a, b, c, d])) \<le> 7 \<longleftrightarrow> a < 10 \<and> b < 10 \<and> c < 10 \<and> d < 10"
proof -
  have l: "length (dec_string (unat x)) \<le> 1 \<longleftrightarrow> x < 10" "0 < length (dec_string (unat x))" for x :: byte8
    using dec_string_length_le [of "unat x" 0] by (simp_all add: word_less_nat_alt)
  have "length (inet_ntop4 (of_le32 [a, b, c, d])) = length (dec_string (unat a)) +
      length (dec_string (unat b)) + length (dec_string (unat c)) + length (dec_string (unat d)) + 3"
    by (simp add: inet_ntop4_def le32_of_le32 del: of_le32.simps)
  with l [of a] l [of b] l [of c] l [of d] show ?thesis by linarith
qed

text \<open>
  Accepting an IPv4 connection writes through an uninitialised pointer exactly when the
  address of the other side has four one-digit octets; every other address is too long for the
  size that is passed, and the connection is accepted.\<close>

theorem accept_short_address:
  assumes "os_accept os (trace s) fd = (new_fd, [2, 0, p1, p2, a, b, c, d] @ pad)" and "new_fd \<noteq> -1"
  shows "fst (get_new_connection os (Suc n) fd s) =
    (if a < 10 \<and> b < 10 \<and> c < 10 \<and> d < 10 then Inl WildPointer else Inr new_fd)"
proof -
  define sa where "sa = [2, 0, p1, p2, a, b, c, d] @ pad"
  have f: "unat (of_le16 sa) = AF_INET" by (simp add: AF_INET_def sa_def)
  have "inet_ntop AF_INET (get_in_addr sa) 8 =
      Inr (if a < 10 \<and> b < 10 \<and> c < 10 \<and> d < 10
        then Some (inet_ntop4 (of_le32 [a, b, c, d])) else None)"
    unfolding get_in_addr_def f using ntop4_short [of a b c d]
    by (simp add: inet_ntop_def Let_def Suc_le_eq [symmetric] sa_def)
  moreover have "os_accept os (trace s) fd = (new_fd, sa)" using assms(1) by (simp only: sa_def)
  ultimately show ?thesis
    using assms(2) f by (simp add: get_new_connection_def cmd_simps)
qed

theorem accept_short_address_witness:
  "fst (get_new_connection (idle_os\<lparr>os_accept := (\<lambda>_ _. (6, [2, 0, 9, 9, 1, 2, 3, 4] @ replicate 120 0))\<rparr>)
      (Suc 0) 5 \<lparr>trace = []\<rparr>) =
   (if (1 :: byte8) < 10 \<and> (2 :: byte8) < 10 \<and> (3 :: byte8) < 10 \<and> (4 :: byte8) < 10
    then Inl WildPointer else Inr 6)"
  by (rule accept_short_address) simp_all

end
