(* ===== verification/Queue_Macros.thy ===== *)
theory Queue_Macros
  imports C_Prelude "HOL-Library.While_Combinator"
begin

text \<open>
  \<^verbatim>\<open>src/src/helper/wulkanat/queue.h\<close>: a singly linked queue and the macros that append,
  pop and peek. Each macro is \<^verbatim>\<open>while (0) { ... };\<close>, a loop whose condition is false from
  the start. The bodies are modelled as they are written, and the macros as that loop.
\<close>

section \<open>State and macros\<close>

text \<open>The elements of one queue live in a heap of their own; \<open>q_fresh\<close> is the address the next
  \<^verbatim>\<open>malloc\<close> returns.\<close>

record 'a QueueElement =
  qe_next :: "nat option"
  qe_data :: 'a

record 'a Queue =
  q_heap :: "nat \<Rightarrow> 'a QueueElement option"
  q_fresh :: nat
  q_first :: "nat option"
  q_last :: "nat option"

definition QUEUE :: "'a Queue" where
  "QUEUE = \<lparr>q_heap = (\<lambda>_. None), q_fresh = 0, q_first = None, q_last = None\<rparr>"

text \<open>A \<^verbatim>\<open>while\<close> statement: it stops at the first fault of its body.\<close>

definition whilec :: "('s \<Rightarrow> bool) \<Rightarrow> ('s, unit) cmd \<Rightarrow> ('s, unit) cmd" where
  "whilec c body = (\<lambda>s. while (\<lambda>(r, s). (case r of Inl _ \<Rightarrow> False | Inr _ \<Rightarrow> c s))
     (\<lambda>(r, s). body s) (Inr (), s))"

definition follow :: "('a \<Rightarrow> 'b option) \<Rightarrow> 'a option \<Rightarrow> fault + 'a \<times> 'b" where
  "follow hp p = (case p of None \<Rightarrow> Inl NullDeref
     | Some a \<Rightarrow> (case hp a of None \<Rightarrow> Inl UseAfterFree | Some e \<Rightarrow> Inr (a, e)))"

definition queue_append_body :: "'a \<Rightarrow> ('a Queue, unit) cmd" where
  "queue_append_body data_ptr =
     bindc getc (\<lambda>q.
     let tmp = q_fresh q in
     seqc (modifyc (\<lambda>q. q\<lparr>q_heap := (q_heap q)(tmp \<mapsto> \<lparr>qe_next = None, qe_data = data_ptr\<rparr>),
                          q_fresh := Suc tmp\<rparr>))
     (bindc getc (\<lambda>q.
     bindc (liftr (follow (q_heap q) (q_last q))) (\<lambda>(l, e).
     seqc (modifyc (\<lambda>q. q\<lparr>q_heap := (q_heap q)(l \<mapsto> e\<lparr>qe_next := Some tmp\<rparr>)\<rparr>))
     (modifyc (\<lambda>q. q\<lparr>q_last := Some tmp\<rparr>))))))"

text \<open>The variable that receives the data is part of the state of the two reading bodies.\<close>

definition queue_pop_body :: "('a Queue \<times> 'a, unit) cmd" where
  "queue_pop_body =
     bindc getc (\<lambda>(q, _).
     bindc (liftr (follow (q_heap q) (q_first q))) (\<lambda>(a, e).
     seqc (modifyc (\<lambda>(q, _). (q, qe_data e)))
     (modifyc (\<lambda>(q, v). (q\<lparr>q_first := qe_next e, q_heap := (q_heap q)(a := None)\<rparr>, v)))))"

definition queue_peek_body :: "('a Queue \<times> 'a, unit) cmd" where
  "queue_peek_body =
     bindc getc (\<lambda>(q, _).
     bindc (liftr (follow (q_heap q) (q_first q))) (\<lambda>(a, e).
     modifyc (\<lambda>(q, _). (q, qe_data e))))"

definition queue_append :: "'a \<Rightarrow> ('a Queue, unit) cmd" where
  "queue_append data_ptr = whilec (\<lambda>_. False) (queue_append_body data_ptr)"

text \<open>The commands below take the old value of the variable and return the new one.\<close>

definition with_var :: "('q \<times> 'a, unit) cmd \<Rightarrow> 'a \<Rightarrow> ('q, 'a) cmd" where
  "with_var m v = (\<lambda>q. case m (q, v) of (r, (q', v')) \<Rightarrow> (map_sum id (\<lambda>_. v') r, q'))"

definition queue_pop :: "'a \<Rightarrow> ('a Queue, 'a) cmd" where
  "queue_pop data_ptr = with_var (whilec (\<lambda>_. False) queue_pop_body) data_ptr"

definition queue_peek :: "'a \<Rightarrow> ('a Queue, 'a) cmd" where
  "queue_peek data_ptr = with_var (whilec (\<lambda>_. False) queue_peek_body) data_ptr"

definition queue_is_empty :: "'a Queue \<Rightarrow> bool" where
  "queue_is_empty q \<longleftrightarrow> q_first q = None"

lemma whilec_False [simp]: "whilec (\<lambda>_. False) body s = (Inr (), s)"
  by (simp add: whilec_def while_unfold)

section \<open>What a client sees\<close>

text \<open>The contract the handlers of the peer see: operations that fail never, change no queue
  satisfying \<open>ok\<close> and leave the variable alone.\<close>

locale frozen_queue =
  fixes append :: "'a \<Rightarrow> ('q, unit) cmd"
    and pop :: "'a \<Rightarrow> ('q, 'a) cmd"
    and peek :: "'a \<Rightarrow> ('q, 'a) cmd"
    and is_empty :: "'q \<Rightarrow> bool"
  assumes append_run: "append x q = (Inr (), q)"
    and pop_run: "pop v q = (Inr v, q)"
    and peek_run: "peek v q = (Inr v, q)"
begin

lemma keeps_queue:
  "keeps I (append x)" "keeps I (pop v)" "keeps I (peek v)"
  by (simp_all add: keeps_def append_run pop_run peek_run)

lemma stays_empty:
  assumes "is_empty q"
  shows "is_empty (snd (append x q))" "is_empty (snd (pop v q))" "is_empty (snd (peek v q))"
  using assms by (simp_all add: append_run pop_run peek_run)

lemma append_then_pop: "bindc (append x) (\<lambda>_. pop v) q = (Inr v, q)"
  by (simp add: cmd_simps append_run pop_run)

end

interpretation macro_queue: frozen_queue queue_append queue_pop queue_peek queue_is_empty
  by unfold_locales (simp_all add: queue_append_def queue_pop_def queue_peek_def with_var_def)

section \<open>The bodies as a queue\<close>

text \<open>\<open>linked hp p as\<close>: following \<^verbatim>\<open>next\<close> from \<open>p\<close> visits the addresses \<open>as\<close> and ends in
  \<^verbatim>\<open>NULL\<close>. \<open>queue_holds q xs\<close>: the linked elements carry \<open>xs\<close>, and \<^verbatim>\<open>last\<close> is the last of
  them.\<close>

fun linked :: "(nat \<Rightarrow> 'a QueueElement option) \<Rightarrow> nat option \<Rightarrow> nat list \<Rightarrow> 'a list \<Rightarrow> bool" where
  "linked hp p [] xs \<longleftrightarrow> p = None \<and> xs = []"
| "linked hp p (a # as) xs \<longleftrightarrow> p = Some a \<and>
     (case hp a of None \<Rightarrow> False
      | Some e \<Rightarrow> xs \<noteq> [] \<and> hd xs = qe_data e \<and> linked hp (qe_next e) as (tl xs))"

definition queue_holds :: "'a Queue \<Rightarrow> nat list \<Rightarrow> 'a list \<Rightarrow> bool" where
  "queue_holds q as xs \<longleftrightarrow> linked (q_heap q) (q_first q) as xs \<and> distinct as \<and>
     (\<forall>a\<in>set as. a < q_fresh q) \<and> (as \<noteq> [] \<longrightarrow> q_last q = Some (last as))"

lemma linked_cong: "(\<And>a. a \<in> set as \<Longrightarrow> hp a = hp' a) \<Longrightarrow> linked hp p as xs = linked hp' p as xs"
  by (induction as arbitrary: p xs) (auto split: option.splits)

lemma linked_snoc:
  assumes "linked hp p as xs" "as \<noteq> []" "hp (last as) = Some e" "t \<notin> set as" "distinct as"
  shows "linked (hp(t \<mapsto> \<lparr>qe_next = None, qe_data = x\<rparr>, last as \<mapsto> e\<lparr>qe_next := Some t\<rparr>)) p
    (as @ [t]) (xs @ [x])"
  using assms
proof (induction as arbitrary: p xs)
  case (Cons a as)
  show ?case
  proof (cases "as = []")
    case True
    then show ?thesis using Cons.prems by (cases xs) auto
  next
    case False
    obtain d y ys where d: "hp a = Some d" "xs = y # ys" "y = qe_data d" "linked hp (qe_next d) as ys"
      using Cons.prems(1) by (cases xs) (auto split: option.splits)
    have "last as \<in> set as" using False by simp
    then have "a \<noteq> last as" "a \<noteq> t" using Cons.prems by auto
    then show ?thesis using Cons.IH [OF d(4) False] Cons.prems False d by simp
  qed
qed simp

lemma linked_last: "linked hp p as xs \<Longrightarrow> as \<noteq> [] \<Longrightarrow> \<exists>e. hp (last as) = Some e"
  by (induction as arbitrary: p xs) (auto split: option.splits)

lemma append_body_run:
  assumes q: "queue_holds q as xs" and ne: "as \<noteq> []"
  shows "\<exists>q'. queue_append_body x q = (Inr (), q') \<and> queue_holds q' (as @ [q_fresh q]) (xs @ [x])"
proof -
  let ?t = "q_fresh q" and ?n = "\<lparr>qe_next = None, qe_data = x\<rparr>"
  from q have l: "linked (q_heap q) (q_first q) as xs" and d: "distinct as"
    and f: "\<forall>a\<in>set as. a < ?t" and la: "q_last q = Some (last as)"
    using ne by (auto simp: queue_holds_def)
  obtain e where e: "q_heap q (last as) = Some e" using linked_last [OF l ne] by blast
  have t: "?t \<notin> set as" using f by auto
  with ne have "last as \<noteq> ?t" using last_in_set [of as] by metis
  then have "queue_append_body x q = (Inr (), q\<lparr>q_heap := (q_heap q)(?t \<mapsto> ?n,
      last as \<mapsto> e\<lparr>qe_next := Some ?t\<rparr>), q_fresh := Suc ?t, q_last := Some ?t\<rparr>)"
    by (simp add: queue_append_body_def cmd_simps follow_def la e Let_def)
  moreover have "queue_holds (q\<lparr>q_heap := (q_heap q)(?t \<mapsto> ?n,
      last as \<mapsto> e\<lparr>qe_next := Some ?t\<rparr>), q_fresh := Suc ?t, q_last := Some ?t\<rparr>) (as @ [?t]) (xs @ [x])"
    using linked_snoc [OF l ne e t d] d t f by (auto simp: queue_holds_def)
  ultimately show ?thesis by blast
qed

lemma pop_body_run:
  assumes q: "queue_holds q (a # as) xs"
  shows "\<exists>q'. queue_pop_body (q, v) = (Inr (), (q', hd xs)) \<and> queue_holds q' as (tl xs) \<and>
    q_heap q' a = None \<and> q_last q' = q_last q"
proof -
  obtain e where e: "q_heap q a = Some e" "q_first q = Some a" "hd xs = qe_data e"
    "linked (q_heap q) (qe_next e) as (tl xs)"
    using q by (auto simp: queue_holds_def split: option.splits)
  let ?q = "q\<lparr>q_first := qe_next e, q_heap := (q_heap q)(a := None)\<rparr>"
  have "linked ((q_heap q)(a := None)) (qe_next e) as (tl xs)"
    using e(4) q by (subst linked_cong [of as _ "q_heap q"]) (auto simp: queue_holds_def)
  then have "queue_holds ?q as (tl xs)"
    using q by (auto simp: queue_holds_def)
  then show ?thesis
    by (intro exI [of _ ?q]) (simp add: queue_pop_body_def cmd_simps follow_def e)
qed

section \<open>Properties of the queue\<close>

text \<open>
  No queue macro ever executes its body: whatever the queue, appending to it adds
  nothing, and popping or peeking leaves the variable and the queue as they were.\<close>

theorem queue_macros_inert:
  "queue_append x q = (Inr (), q) \<and> queue_pop v q = (Inr v, q) \<and> queue_peek v q = (Inr v, q)"
  by (simp add: macro_queue.append_run macro_queue.pop_run macro_queue.peek_run)

text \<open>
  On a queue that holds at least one element the bodies of the macros, if they ran, would
  be first-in first-out: append adds at the end; pop delivers and removes the front.\<close>

theorem queue_bodies_fifo:
  assumes "queue_holds q (a # as) (y # ys)"
  shows "(\<exists>q' bs. queue_append_body x q = (Inr (), q') \<and> queue_holds q' bs (y # ys @ [x])) \<and>
    (\<exists>q'. queue_pop_body (q, v) = (Inr (), (q', y)) \<and> queue_holds q' as ys) \<and>
    queue_peek_body (q, v) = (Inr (), (q, y))"
proof (intro conjI)
  show "\<exists>q' bs. queue_append_body x q = (Inr (), q') \<and> queue_holds q' bs (y # ys @ [x])"
    using append_body_run [OF assms, of x] by auto
  show "\<exists>q'. queue_pop_body (q, v) = (Inr (), (q', y)) \<and> queue_holds q' as ys"
    using pop_body_run [OF assms, of v] by auto
  show "queue_peek_body (q, v) = (Inr (), (q, y))"
    using assms by (auto simp: queue_holds_def queue_peek_body_def cmd_simps follow_def
        split: option.splits)
qed

theorem queue_bodies_fifo_witness:
  "let q = \<lparr>q_heap = [0 \<mapsto> \<lparr>qe_next = None, qe_data = 7\<rparr>], q_fresh = 1,
            q_first = Some 0, q_last = Some 0\<rparr> in
   (\<exists>q' bs. queue_append_body 8 q = (Inr (), q') \<and> queue_holds q' bs (7 # [] @ [8 :: int])) \<and>
   (\<exists>q'. queue_pop_body (q, 0) = (Inr (), (q', 7)) \<and> queue_holds q' [] []) \<and>
   queue_peek_body (q, 0) = (Inr (), (q, 7))"
  unfolding Let_def by (rule queue_bodies_fifo [where a = 0]) (simp add: queue_holds_def)

text \<open>
  The bodies have no case for the empty queue: appending to a fresh queue follows the
  \<^verbatim>\<open>NULL\<close> pointer \<^verbatim>\<open>last\<close>, popping follows \<^verbatim>\<open>first\<close>; and after the only element was
  popped, \<^verbatim>\<open>last\<close> still points to the freed element, so that the next append writes to it.\<close>

theorem queue_bodies_empty:
  "fst (queue_append_body x QUEUE) = Inl NullDeref \<and> fst (queue_pop_body (QUEUE, v)) = Inl NullDeref \<and>
   (queue_holds q [a] [y] \<longrightarrow>
      fst (bindc (with_var queue_pop_body v) (\<lambda>_. queue_append_body x) q) = Inl UseAfterFree)"
proof (intro conjI impI)
  show "fst (queue_append_body x QUEUE) = Inl NullDeref" "fst (queue_pop_body (QUEUE, v)) = Inl NullDeref"
    by (simp_all add: queue_append_body_def queue_pop_body_def QUEUE_def cmd_simps follow_def Let_def)
  assume q: "queue_holds q [a] [y]"
  then have a: "a < q_fresh q" and l: "q_last q = Some a" and f: "q_first q = Some a"
    by (auto simp: queue_holds_def)
  from q obtain e where e: "q_heap q a = Some e"
    by (auto simp: queue_holds_def split: option.splits)
  show "fst (bindc (with_var queue_pop_body v) (\<lambda>_. queue_append_body x) q) = Inl UseAfterFree"
    using a l by (simp add: queue_append_body_def queue_pop_body_def with_var_def cmd_simps
        follow_def Let_def e f)
qed

theorem queue_bodies_empty_witness:
  "let q = \<lparr>q_heap = [0 \<mapsto> \<lparr>qe_next = None, qe_data = 7\<rparr>], q_fresh = 1,
            q_first = Some 0, q_last = Some 0\<rparr> in
   fst (bindc (with_var queue_pop_body 0) (\<lambda>_. queue_append_body (9 :: int)) q) = Inl UseAfterFree"
proof -
  let ?q = "\<lparr>q_heap = [0 \<mapsto> \<lparr>qe_next = None, qe_data = 7\<rparr>], q_fresh = 1,
            q_first = Some 0, q_last = Some 0\<rparr> :: int Queue"
  have "queue_holds ?q [0] [7]" by (simp add: queue_holds_def)
  with queue_bodies_empty [of 9 0 ?q 0 7] show ?thesis by (simp only: Let_def)
qed

end
