(* ===== verification/Peer.thy ===== *)
theory Peer
  imports Network Queue_Macros
begin

text \<open>
  \<^verbatim>\<open>src/src/peer.c\<close>: the process state, the answers to clients, the handler of peer and
  client messages, and the main program. Each branch of the handler is a definition; the handler
  composes them in the order of the code.
\<close>

section \<open>State\<close>

text \<open>The globals of \<^verbatim>\<open>peer.c\<close> and \<^verbatim>\<open>hash_helper.c\<close>, on top of the history of calls.\<close>

record peer_state = net +
  peer_info :: PeerInfo
  raw_fingers :: raw_fingertable
  peer_db :: hash_db
  client_requests :: "ptr Queue"
  sockets :: "int Queue"

definition start_state :: peer_state where
  "start_state = \<lparr>trace = [], peer_info = zero_PeerInfo, raw_fingers = zero_raw_fingertable,
     peer_db = empty_db, client_requests = QUEUE, sockets = QUEUE\<rparr>"

definition in_db :: "(hash_db, 'a) cmd \<Rightarrow> (peer_state, 'a) cmd" where
  "in_db = zoomc peer_db (\<lambda>db s. s\<lparr>peer_db := db\<rparr>)"

definition in_requests :: "(ptr Queue, 'a) cmd \<Rightarrow> (peer_state, 'a) cmd" where
  "in_requests = zoomc client_requests (\<lambda>q s. s\<lparr>client_requests := q\<rparr>)"

definition in_sockets :: "(int Queue, 'a) cmd \<Rightarrow> (peer_state, 'a) cmd" where
  "in_sockets = zoomc sockets (\<lambda>q s. s\<lparr>sockets := q\<rparr>)"

definition info :: "(peer_state, PeerInfo) cmd" where
  "info = bindc getc (\<lambda>s. ret (peer_info s))"

definition set_info :: "(PeerInfo \<Rightarrow> PeerInfo) \<Rightarrow> (peer_state, unit) cmd" where
  "set_info f = modifyc (\<lambda>s. s\<lparr>peer_info := f (peer_info s)\<rparr>)"

section \<open>Answering a client\<close>

text \<open>The seven-byte answer without content: the two lengths are zero.\<close>

definition ack_response :: "byte8 \<Rightarrow> bytes" where
  "ack_response flag = (ACK_BIT OR flag) # le16 0 @ le32 0"

definition send_ack :: "byte8 \<Rightarrow> int \<Rightarrow> (peer_state, unit) cmd" where
  "send_ack flag sock_fd = send sock_fd (Obj (ack_response flag)) (1 + 2 + 4)"

text \<open>The \<^verbatim>\<open>[GET]\<close> part: \<open>None\<close> when the function returns from it, otherwise the local
  struct, in which the value has been replaced by the stored one.\<close>

definition respond_get :: "os \<Rightarrow> ClientProtocol \<Rightarrow> int \<Rightarrow> (peer_state, ClientProtocol option) cmd" where
  "respond_get os decodedData sock_fd =
     bindc (liftr (HEX_VALUE_LOG (cp_key decodedData) (unat (cp_key_length decodedData)))) (\<lambda>_.
     bindc (in_db (get_element (cp_key decodedData) (cp_key_length decodedData))) (\<lambda>element.
     case element of
       None \<Rightarrow> seqc (send_ack GET_BIT sock_fd) (ret None)
     | Some a \<Rightarrow>
         bindc (in_db (bindc getc (\<lambda>db. liftr (deref (db_heap db) a)))) (\<lambda>e.
         let decodedData = decodedData\<lparr>cp_value := he_value e,
               cp_value_length := he_value_length e, cp_act := ACK_BIT\<rparr>;
             len = clientProtocolCalculateSize decodedData in
         bindc (encode_client os decodedData) (\<lambda>m.
         seqc (send sock_fd m (unat len)) (ret (Some decodedData))))))"

definition respond_set :: "os \<Rightarrow> ClientProtocol \<Rightarrow> int \<Rightarrow> (peer_state, unit) cmd" where
  "respond_set os decodedData sock_fd =
     seqc (in_db (set_element (os_can_alloc os) (cp_key decodedData) (cp_key_length decodedData)
             (cp_value decodedData) (cp_value_length decodedData)))
     (bindc (liftr (HEX_VALUE_LOG (cp_value decodedData) (unat (cp_value_length decodedData)))) (\<lambda>_.
      send_ack SET_BIT sock_fd))"

definition respond_delete :: "ClientProtocol \<Rightarrow> int \<Rightarrow> (peer_state, unit) cmd" where
  "respond_delete decodedData sock_fd =
     seqc (in_db (delete_element (cp_key decodedData) (cp_key_length decodedData)))
          (send_ack DELETE_BIT sock_fd)"

definition respond_as_responsible_peer :: "os \<Rightarrow> ClientProtocol \<Rightarrow> int \<Rightarrow> (peer_state, unit) cmd" where
  "respond_as_responsible_peer os decodedData sock_fd =
     bindc (if cp_get decodedData \<noteq> 0 then respond_get os decodedData sock_fd
            else ret (Some decodedData)) (\<lambda>r.
     case r of None \<Rightarrow> ret ()
     | Some decodedData \<Rightarrow>
         seqc (if cp_set decodedData \<noteq> 0 then respond_set os decodedData sock_fd else ret ())
              (if cp_delete decodedData \<noteq> 0 then respond_delete decodedData sock_fd else ret ()))"

section \<open>The queue of client requests\<close>

definition next_job_in_queue :: "os \<Rightarrow> (peer_state, unit) cmd" where
  "next_job_in_queue os =
     bindc getc (\<lambda>s.
     if queue_is_empty (client_requests s) then ret ()
     else
       bindc (in_requests (queue_peek Null)) (\<lambda>next_client_job.
       bindc (liftr (decode_clientProtocol next_client_job zero_ClientProtocol)) (\<lambda>decodedData.
       bindc (liftr (get_hash_value (cp_key decodedData) (cp_key_length decodedData))) (\<lambda>hash.
       bindc info (\<lambda>pi.
       bindc (liftr (make_peerProtocol (os_junk os (trace s)) 0 1 (ucast hash) (pi_this pi)))
         (\<lambda>peer_request.
       bindc (encode_peer os peer_request) (\<lambda>encoded_response.
       bindc (deref_peer (pi_next pi)) (\<lambda>next.
       bindc (liftr (int_addr_to_str (peer_ip next))) (\<lambda>next_addr.
       bindc (liftr (int_port_to_str (peer_port next))) (\<lambda>next_port.
       bindc (setup_as_client os (Some next_addr) (Some next_port)) (\<lambda>next_peer.
       send next_peer encoded_response (unat (clientProtocolCalculateSize decodedData)))))))))))))"

section \<open>Peer messages\<close>

text \<open>\<^verbatim>\<open>rec->data\<close> is relayed as it was received.\<close>

definition relay_to_next :: "os \<Rightarrow> Response \<Rightarrow> (peer_state, unit) cmd" where
  "relay_to_next os rec =
     bindc info (\<lambda>pi.
     bindc (deref_peer (pi_next pi)) (\<lambda>next.
     bindc (liftr (int_addr_to_str (peer_ip next))) (\<lambda>nodeIp.
     bindc (liftr (int_port_to_str (peer_port next))) (\<lambda>nodePort.
     bindc (direct_send os (Some nodeIp) (Some nodePort) (rs_data rec) (unat (rs_data_length rec))) (\<lambda>_.
     ret ())))))"

text \<open>The three assignments from a message to a peer struct.\<close>

definition assign_node :: "PeerProtocol \<Rightarrow> Peer \<Rightarrow> Peer" where
  "assign_node d p = p\<lparr>peer_ip := pp_nodeIp d, peer_port := pp_nodePort d, peer_id := pp_nodeId d\<rparr>"

definition handle_finger :: "os \<Rightarrow> PeerProtocol \<Rightarrow> (peer_state, unit) cmd" where
  "handle_finger os d =
     (if pp_lookup d = 0 then
        bindc info (\<lambda>pi.
        bindc (deref_peer (pi_next pi)) (\<lambda>next.
        buildfinger os (peer_ip next) (peer_port next) (pi_this pi)))
      else ret ())"

definition handle_join :: "os \<Rightarrow> Response \<Rightarrow> PeerProtocol \<Rightarrow> (peer_state, unit) cmd" where
  "handle_join os rec d =
     bindc info (\<lambda>pi.
     if pi_next pi = None then
       seqc (set_info (\<lambda>i. i\<lparr>pi_next := Some (assign_node d zero_Peer)\<rparr>))
       (seqc (set_info (\<lambda>i. i\<lparr>pi_prev := Some (assign_node d zero_Peer)\<rparr>))
       (bindc info (\<lambda>pi. notify os (pp_nodeIp d) (pp_nodePort d) (pi_this pi))))
     else
       bindc (liftr (id_is_between (pp_hashId d) (pi_this pi) (pi_prev pi))) (\<lambda>here.
       if here then
         bindc (deref_peer (pi_prev pi)) (\<lambda>prev.
         seqc (set_info (\<lambda>i. i\<lparr>pi_prev := Some (assign_node d prev)\<rparr>))
         (notify os (pp_nodeIp d) (pp_nodePort d) (pi_this pi)))
       else relay_to_next os rec))"

definition handle_notify :: "PeerProtocol \<Rightarrow> (peer_state, unit) cmd" where
  "handle_notify d =
     bindc info (\<lambda>pi.
     bindc (deref_peer (pi_next pi)) (\<lambda>next.
     set_info (\<lambda>i. i\<lparr>pi_next := Some (assign_node d next)\<rparr>)))"

definition handle_stabilize :: "os \<Rightarrow> PeerProtocol \<Rightarrow> (peer_state, unit) cmd" where
  "handle_stabilize os d =
     bindc info (\<lambda>pi.
     case pi_prev pi of
       None \<Rightarrow> set_info (\<lambda>i. i\<lparr>pi_prev := Some (assign_node d zero_Peer)\<rparr>)
     | Some prev \<Rightarrow>
         bindc (if pp_nodeId d = peer_id prev
                then bindc (deref_peer (pi_this pi)) (\<lambda>this. ret (peer_is_base this = 0))
                else ret False) (\<lambda>forward.
         if forward then
           bindc (deref_peer (pi_next pi)) (\<lambda>next.
           stabilize os (peer_ip next) (peer_port next) (pi_this pi))
         else notify os (pp_nodeIp d) (pp_nodePort d) (pi_prev pi)))"

definition handle_reply :: "os \<Rightarrow> nat \<Rightarrow> PeerProtocol \<Rightarrow> (peer_state, unit) cmd" where
  "handle_reply os fuel d =
     bindc (in_requests (queue_pop Null)) (\<lambda>current_request.
     bindc (liftr (decode_clientProtocol current_request zero_ClientProtocol)) (\<lambda>current.
     bindc (liftr (int_addr_to_str (pp_nodeIp d))) (\<lambda>nodeIp.
     bindc (liftr (int_port_to_str (pp_nodePort d))) (\<lambda>nodePort.
     bindc (direct_send os (Some nodeIp) (Some nodePort) current_request
              (unat (clientProtocolCalculateSize current))) (\<lambda>next_node_sock.
     bindc (in_sockets (queue_pop 0)) (\<lambda>client_sock.
     bindc (redirect os fuel next_node_sock client_sock) (\<lambda>_.
     next_job_in_queue os)))))))"

definition handle_lookup :: "os \<Rightarrow> Response \<Rightarrow> PeerProtocol \<Rightarrow> (peer_state, unit) cmd" where
  "handle_lookup os rec d =
     bindc info (\<lambda>pi.
     bindc (deref_peer (pi_this pi)) (\<lambda>this.
     bindc (liftr (id_is_between (pp_hashId d) (pi_next pi) (pi_this pi))) (\<lambda>found.
     if found then bindc (send_found_lookup os d (pi_next pi)) (\<lambda>_. ret ())
     else relay_to_next os rec)))"

definition handle_peer :: "os \<Rightarrow> nat \<Rightarrow> Response \<Rightarrow> (peer_state, unit) cmd" where
  "handle_peer os fuel rec =
     bindc (liftr (decode_peerProtocol (rs_data rec) zero_PeerProtocol)) (\<lambda>d.
     if pp_finger d \<noteq> 0 then handle_finger os d
     else if pp_fack d \<noteq> 0 then ret ()
     else if pp_join d \<noteq> 0 then handle_join os rec d
     else if pp_notify d \<noteq> 0 then handle_notify d
     else if pp_stabilize d \<noteq> 0 then handle_stabilize os d
     else if pp_reply d \<noteq> 0 then handle_reply os fuel d
     else if pp_lookup d \<noteq> 0 then handle_lookup os rec d
     else ret ())"

section \<open>Client messages\<close>

text \<open>The request is forwarded to the next peer and the answer handed back.\<close>

definition forward_to_next :: "os \<Rightarrow> nat \<Rightarrow> Response \<Rightarrow> int \<Rightarrow> (peer_state, unit) cmd" where
  "forward_to_next os fuel rec sock_fd =
     bindc info (\<lambda>pi.
     bindc (deref_peer (pi_next pi)) (\<lambda>next.
     bindc (liftr (int_addr_to_str (peer_ip next))) (\<lambda>next_addr.
     bindc (liftr (int_port_to_str (peer_port next))) (\<lambda>next_port.
     bindc (setup_as_client os (Some next_addr) (Some next_port)) (\<lambda>next_peer.
     seqc (send next_peer (rs_data rec) (unat (rs_data_length rec)))
     (bindc (redirect os fuel next_peer sock_fd) (\<lambda>_. ret ())))))))"

text \<open>\<^verbatim>\<open>memcpy(data, rec, data_size)\<close> copies from the \<^verbatim>\<open>Response\<close> struct on the caller's
  stack, not from the message it points to.\<close>

definition queue_request :: "os \<Rightarrow> ClientProtocol \<Rightarrow> int \<Rightarrow> (peer_state, unit) cmd" where
  "queue_request os decodedData sock_fd =
     seqc (in_sockets (queue_append sock_fd))
     (let data_size = clientProtocolCalculateSize decodedData in
     bindc getc (\<lambda>s.
     bindc (liftr (read_bytes (Obj (os_stack os (trace s))) (unat data_size))) (\<lambda>bs.
     seqc (in_requests (queue_append (Obj (bs @ os_slack os (trace s) (unat data_size)))))
     (bindc getc (\<lambda>s.
     if queue_is_empty (client_requests s) then next_job_in_queue os else ret ())))))"

definition handle_client :: "os \<Rightarrow> nat \<Rightarrow> Response \<Rightarrow> int \<Rightarrow> (peer_state, unit) cmd" where
  "handle_client os fuel rec sock_fd =
     bindc (liftr (decode_clientProtocol (rs_data rec) zero_ClientProtocol)) (\<lambda>decodedData.
     bindc (liftr (get_hash_value (cp_key decodedData) (cp_key_length decodedData))) (\<lambda>hash.
     let hashId = ucast hash :: byte16 in
     bindc info (\<lambda>pi.
     bindc (deref_peer (pi_this pi)) (\<lambda>_.
     bindc (liftr (id_is_between hashId (pi_this pi) (pi_prev pi))) (\<lambda>mine.
     if mine then respond_as_responsible_peer os decodedData sock_fd
     else bindc (liftr (id_is_between hashId (pi_next pi) (pi_this pi))) (\<lambda>nexts.
       if nexts then forward_to_next os fuel rec sock_fd
       else queue_request os decodedData sock_fd))))))"

definition receive_handler :: "os \<Rightarrow> nat \<Rightarrow> Response \<Rightarrow> int \<Rightarrow> (peer_state, unit) cmd" where
  "receive_handler os fuel rec sock_fd =
     bindc (liftr (isPeerProtocol (rs_data rec))) (\<lambda>b.
     if b \<noteq> 0 then handle_peer os fuel rec else handle_client os fuel rec sock_fd)"

section \<open>The main program\<close>

text \<open>The peer's own struct from the arguments; the result is the text of the port.\<close>

definition peer_self :: "string list \<Rightarrow> (peer_state, string option) cmd" where
  "peer_self argv =
     bindc (liftr (STR_ARG argv 0)) (\<lambda>myIP.
     bindc (liftr (STR_ARG argv 1)) (\<lambda>myPORT.
     let myID = DEFAULT_STR_ARG argv 2 ''0'' in
     bindc (liftr (str_addr_to_int myIP)) (\<lambda>myAddrInt.
     bindc (liftr (str_port_to_int myPORT)) (\<lambda>myPortInt.
     bindc (liftr (str_port_to_int myID)) (\<lambda>myIdInt.
     seqc (set_info (\<lambda>i. i\<lparr>pi_this := Some (zero_Peer\<lparr>peer_ip := myAddrInt,
             peer_port := myPortInt, peer_id := myIdInt\<rparr>)\<rparr>))
     (ret myPORT))))))"

definition peer_join :: "os \<Rightarrow> string list \<Rightarrow> (peer_state, unit) cmd" where
  "peer_join os argv =
     bindc (liftr (STR_ARG argv 3)) (\<lambda>joinIP.
     bindc (liftr (STR_ARG argv 4)) (\<lambda>joinPORT.
     bindc (liftr (str_addr_to_int joinIP)) (\<lambda>joinAddrInt.
     bindc (liftr (str_port_to_int joinPORT)) (\<lambda>joinPortInt.
     seqc (set_info (\<lambda>i. i\<lparr>pi_join := Some (zero_Peer\<lparr>peer_ip := joinAddrInt,
             peer_port := joinPortInt\<rparr>)\<rparr>))
     (bindc info (\<lambda>pi. join os joinIP joinPORT (pi_this pi)))))))"

definition peer_init :: "os \<Rightarrow> string list \<Rightarrow> (peer_state, int) cmd" where
  "peer_init os argv =
     bindc (peer_self argv) (\<lambda>myPORT.
     bindc (setup_as_server os myPORT) (\<lambda>sock_fd.
     if length argv \<le> 4 then ret sock_fd
     else seqc (peer_join os argv) (ret sock_fd)))"

text \<open>One round of the endless loop, and \<open>n\<close> rounds of it: the loop has no exit.\<close>

definition serve_round :: "os \<Rightarrow> nat \<Rightarrow> int \<Rightarrow> (peer_state, int option) cmd" where
  "serve_round os fuel sock_fd =
     bindc (get_new_connection os fuel sock_fd) (\<lambda>new_sock.
     receive os fuel new_sock (receive_handler os fuel))"

fun serve :: "os \<Rightarrow> nat \<Rightarrow> nat \<Rightarrow> int \<Rightarrow> (peer_state, unit) cmd" where
  "serve os fuel 0 sock_fd = failc OutOfFuel"
| "serve os fuel (Suc n) sock_fd = bindc (serve_round os fuel sock_fd) (\<lambda>_. serve os fuel n sock_fd)"

definition peer_main :: "os \<Rightarrow> nat \<Rightarrow> nat \<Rightarrow> string list \<Rightarrow> (peer_state, unit) cmd" where
  "peer_main os fuel rounds argv =
     bindc (peer_init os argv) (\<lambda>sock_fd. serve os fuel rounds sock_fd)"

end
