(* ===== verification/Peer_Clients.thy ===== *)
theory Peer_Clients
  imports Peer
begin

text \<open>
  What \<^verbatim>\<open>peer.c\<close> does with the requests of clients: the answers of the responsible peer
  against a specification on finite maps, and the fate of a request by the position of its key
  on the ring.
\<close>

section \<open>Running on the parts of the state\<close>

lemma in_db_run: "in_db m s = (fst (m (peer_db s)), s\<lparr>peer_db := snd (m (peer_db s))\<rparr>)"
  by (simp add: in_db_def zoomc_run)

lemma in_requests_run:
  "in_requests m s = (fst (m (client_requests s)), s\<lparr>client_requests := snd (m (client_requests s))\<rparr>)"
  by (simp add: in_requests_def zoomc_run)

lemma in_sockets_run: "in_sockets m s = (fst (m (sockets s)), s\<lparr>sockets := snd (m (sockets s))\<rparr>)"
  by (simp add: in_sockets_def zoomc_run)

lemma info_run: "info s = (Inr (peer_info s), s)"
  by (simp add: info_def cmd_simps)

lemma set_info_run: "set_info f s = (Inr (), s\<lparr>peer_info := f (peer_info s)\<rparr>)"
  by (simp add: set_info_def)

lemmas peer_runs = in_db_run in_requests_run in_sockets_run info_run set_info_run

declare peer_runs [cmd_simps]

lemma length_ack_response [simp]: "length (ack_response flag) = 7"
  by (simp add: ack_response_def)

lemma send_ack_run [cmd_simps]:
  "send_ack flag fd s = (Inr (), s\<lparr>trace := trace s @ [Ev_send fd (ack_response flag)]\<rparr>)"
  by (simp add: send_ack_def send_def cmd_simps)

section \<open>The responsible peer\<close>

text \<open>The answer that carries a value, and the specification: what a request does to the map and
  the messages that are sent back, in order. A request with \<^verbatim>\<open>GET\<close> and \<^verbatim>\<open>SET\<close> stores the
  value that \<^verbatim>\<open>GET\<close> has just read.\<close>

definition client_answer :: "ClientProtocol \<Rightarrow> bytes \<Rightarrow> bytes \<Rightarrow> bytes" where
  "client_answer c k v =
     client_wire (c\<lparr>cp_act := ACK_BIT, cp_value_length := of_nat (length v)\<rparr>) k v"

definition get_spec :: "ClientProtocol \<Rightarrow> bytes \<Rightarrow> bytes \<Rightarrow> (bytes \<Rightarrow> bytes option)
    \<Rightarrow> bytes option \<times> bytes list" where
  "get_spec c k v m =
     (if cp_get c = 0 then (Some v, [])
      else case m k of None \<Rightarrow> (None, [ack_response GET_BIT])
           | Some old \<Rightarrow> (Some old, [client_answer c k old]))"

definition client_spec :: "ClientProtocol \<Rightarrow> bytes \<Rightarrow> bytes \<Rightarrow> (bytes \<Rightarrow> bytes option)
    \<Rightarrow> fault + (bytes \<Rightarrow> bytes option) \<times> bytes list" where
  "client_spec c k v m =
     (case get_spec c k v m of
        (None, out) \<Rightarrow> Inr (m, out)
      | (Some w, out) \<Rightarrow>
          let m = (if cp_set c \<noteq> 0 then m(k \<mapsto> w) else m);
              out = (if cp_set c \<noteq> 0 then out @ [ack_response SET_BIT] else out)
          in if cp_delete c = 0 then Inr (m, out)
             else if m k = None then Inl NullDeref
             else Inr (m(k := None), out @ [ack_response DELETE_BIT]))"

text \<open>How a run on a connection is related to the specification; the process may run out of
  memory instead.\<close>

definition answers :: "int \<Rightarrow> peer_state \<Rightarrow> (fault + unit) \<times> peer_state
    \<Rightarrow> fault + (bytes \<Rightarrow> bytes option) \<times> bytes list \<Rightarrow> bool" where
  "answers fd s r spec \<longleftrightarrow> fst r = Inl (ProgramExit (-1)) \<or>
     (case spec of Inl f \<Rightarrow> fst r = Inl f
      | Inr (m, out) \<Rightarrow> \<exists>db. r = (Inr (), s\<lparr>peer_db := db, trace := trace s @ map (Ev_send fd) out\<rparr>) \<and>
          db_ok db \<and> db_map db = m)"

lemma encode_client_run:
  assumes "read_bytes (cp_key c) (unat (cp_key_length c)) = Inr k"
    "read_bytes (cp_value c) (unat (cp_value_length c)) = Inr v"
  shows "\<exists>r. encode_client os c s = (Inr (Obj (client_wire c k v @ r)), s)"
  using encode_clientProtocol_eq [OF assms] by (auto simp: encode_client_def cmd_simps)

lemma respond_get_run:
  assumes ok: "db_ok (peer_db s)" and k: "read_bytes (cp_key c) (unat (cp_key_length c)) = Inr k"
  shows "db_map (peer_db s) k = None \<Longrightarrow> respond_get os c fd s =
      (Inr None, s\<lparr>trace := trace s @ [Ev_send fd (ack_response GET_BIT)]\<rparr>)"
    and "db_map (peer_db s) k = Some old \<Longrightarrow> \<exists>p n. respond_get os c fd s =
      (Inr (Some (c\<lparr>cp_value := p, cp_value_length := n, cp_act := ACK_BIT\<rparr>)),
       s\<lparr>trace := trace s @ [Ev_send fd (client_answer c k old)]\<rparr>) \<and> read_bytes p (unat n) = Inr old"
proof -
  obtain t where h: "HEX_VALUE_LOG (cp_key c) (unat (cp_key_length c)) = Inr t"
    using read_bytes_hex [OF k] by blast
  show "respond_get os c fd s = (Inr None, s\<lparr>trace := trace s @ [Ev_send fd (ack_response GET_BIT)]\<rparr>)"
    if "db_map (peer_db s) k = None"
    using kv.lookup_None [OF ok k that] h by (simp add: respond_get_def cmd_simps)
  assume "db_map (peer_db s) k = Some old"
  then obtain a e where a: "get_element (cp_key c) (cp_key_length c) (peer_db s) = (Inr (Some a), peer_db s)"
    "db_heap (peer_db s) a = Some e" "read_bytes (he_value e) (unat (he_value_length e)) = Inr old"
    using get_element_stored [OF ok k] by blast
  let ?c = "c\<lparr>cp_value := he_value e, cp_value_length := he_value_length e, cp_act := ACK_BIT\<rparr>"
  obtain r where r: "encode_client os ?c s = (Inr (Obj (client_wire ?c k old @ r)), s)"
    using encode_client_run [of ?c k old os s] a(3) k by auto
  have len: "length k = unat (cp_key_length c)" "length old = unat (he_value_length e)"
    using k a(3) by (auto dest: read_bytes_length)
  have w: "client_wire ?c k old = client_answer c k old"
    unfolding client_answer_def client_wire_def client_header_def
    by (simp add: len(2))
  have n: "unat (clientProtocolCalculateSize ?c) = length (client_wire ?c k old)"
    by (simp add: unat_clientProtocolCalculateSize length_client_wire len)
  have "send fd (Obj (client_wire ?c k old @ r)) (unat (clientProtocolCalculateSize ?c)) s =
      (Inr (), s\<lparr>trace := trace s @ [Ev_send fd (client_answer c k old)]\<rparr>)"
    unfolding send_obj [OF n] by (simp add: log_event_run w)
  then have "respond_get os c fd s = (Inr (Some ?c), s\<lparr>trace := trace s @ [Ev_send fd (client_answer c k old)]\<rparr>)"
    using a h r by (simp add: respond_get_def cmd_simps deref_def Let_def)
  with a(3) show "\<exists>p n. respond_get os c fd s =
      (Inr (Some (c\<lparr>cp_value := p, cp_value_length := n, cp_act := ACK_BIT\<rparr>)),
       s\<lparr>trace := trace s @ [Ev_send fd (client_answer c k old)]\<rparr>) \<and> read_bytes p (unat n) = Inr old"
    by blast
qed

lemma respond_set_run:
  assumes ok: "db_ok (peer_db s)" and mem: "memory_bound (os_can_alloc os)"
    and k: "read_bytes (cp_key c) (unat (cp_key_length c)) = Inr k"
    and v: "read_bytes (cp_value c) (unat (cp_value_length c)) = Inr v"
  shows "fst (respond_set os c fd s) = Inl (ProgramExit (-1)) \<or>
    (\<exists>db. respond_set os c fd s =
       (Inr (), s\<lparr>peer_db := db, trace := trace s @ [Ev_send fd (ack_response SET_BIT)]\<rparr>) \<and>
       db_ok db \<and> db_map db = (db_map (peer_db s))(k \<mapsto> v))"
proof -
  obtain t where h: "HEX_VALUE_LOG (cp_value c) (unat (cp_value_length c)) = Inr t"
    using read_bytes_hex [OF v] by blast
  from kv.update_law [OF ok mem k v] show ?thesis
    by (auto simp: respond_set_def cmd_simps h)
qed

lemma respond_delete_run:
  assumes ok: "db_ok (peer_db s)"
    and k: "read_bytes (cp_key c) (unat (cp_key_length c)) = Inr k"
  shows "db_map (peer_db s) k = None \<Longrightarrow> fst (respond_delete c fd s) = Inl NullDeref"
    and "db_map (peer_db s) k \<noteq> None \<Longrightarrow> \<exists>db. respond_delete c fd s =
       (Inr (), s\<lparr>peer_db := db, trace := trace s @ [Ev_send fd (ack_response DELETE_BIT)]\<rparr>) \<and>
       db_ok db \<and> db_map db = (db_map (peer_db s))(k := None)"
  using kv.remove_missing [OF ok k] kv.remove_law [OF ok k]
  by (auto simp: respond_delete_def cmd_simps)

text \<open>The part after \<^verbatim>\<open>[GET]\<close>.\<close>

definition set_delete :: "os \<Rightarrow> ClientProtocol \<Rightarrow> int \<Rightarrow> (peer_state, unit) cmd" where
  "set_delete os c fd =
     seqc (if cp_set c \<noteq> 0 then respond_set os c fd else ret ())
          (if cp_delete c \<noteq> 0 then respond_delete c fd else ret ())"

definition set_delete_spec :: "ClientProtocol \<Rightarrow> bytes \<Rightarrow> bytes \<Rightarrow> (bytes \<Rightarrow> bytes option)
    \<Rightarrow> fault + (bytes \<Rightarrow> bytes option) \<times> bytes list" where
  "set_delete_spec c k w m =
     (let m = (if cp_set c \<noteq> 0 then m(k \<mapsto> w) else m);
          out = (if cp_set c \<noteq> 0 then [ack_response SET_BIT] else [])
      in if cp_delete c = 0 then Inr (m, out)
         else if m k = None then Inl NullDeref
         else Inr (m(k := None), out @ [ack_response DELETE_BIT]))"

lemma set_delete_refines:
  assumes ok: "db_ok (peer_db s)" and mem: "memory_bound (os_can_alloc os)"
    and k: "read_bytes (cp_key c) (unat (cp_key_length c)) = Inr k"
    and v: "read_bytes (cp_value c) (unat (cp_value_length c)) = Inr v"
  shows "answers fd s (set_delete os c fd s) (set_delete_spec c k v (db_map (peer_db s)))"
proof (cases "cp_set c = 0")
  case True
  have same: "s\<lparr>peer_db := peer_db s, trace := trace s @ map (Ev_send fd) []\<rparr> = s" by simp
  show ?thesis
  proof (cases "cp_delete c = 0")
    case True
    with \<open>cp_set c = 0\<close> ok same show ?thesis
      by (simp add: set_delete_def set_delete_spec_def answers_def cmd_simps)
        (rule exI [of _ "peer_db s"], simp)
  next
    case False
    with \<open>cp_set c = 0\<close> respond_delete_run [OF ok k, of fd] show ?thesis
      by (cases "db_map (peer_db s) k")
        (auto simp: set_delete_def set_delete_spec_def answers_def cmd_simps Let_def)
  qed
next
  case False
  from respond_set_run [OF ok mem k v, of fd] show ?thesis
  proof (elim disjE exE conjE)
    assume "fst (respond_set os c fd s) = Inl (ProgramExit (-1))"
    then obtain t where "respond_set os c fd s = (Inl (ProgramExit (-1)), t)" by (metis prod.collapse)
    with False show ?thesis by (simp add: set_delete_def answers_def cmd_simps)
  next
    fix db assume r: "respond_set os c fd s =
       (Inr (), s\<lparr>peer_db := db, trace := trace s @ [Ev_send fd (ack_response SET_BIT)]\<rparr>)"
      and db: "db_ok db" "db_map db = (db_map (peer_db s))(k \<mapsto> v)"
    let ?s = "s\<lparr>peer_db := db, trace := trace s @ [Ev_send fd (ack_response SET_BIT)]\<rparr>"
    show ?thesis
    proof (cases "cp_delete c = 0")
      case True
      then show ?thesis using False r db
        by (auto simp: set_delete_def set_delete_spec_def answers_def cmd_simps)
    next
      case del: False
      have "db_ok (peer_db ?s)" using db by simp
      from respond_delete_run(2) [OF this k, of fd] db obtain db' where
        "respond_delete c fd ?s = (Inr (), ?s\<lparr>peer_db := db',
            trace := trace ?s @ [Ev_send fd (ack_response DELETE_BIT)]\<rparr>)"
        "db_ok db'" "db_map db' = (db_map db)(k := None)" by auto
      then show ?thesis using False del r db
        by (auto simp: set_delete_def set_delete_spec_def answers_def cmd_simps)
    qed
  qed
qed

lemma client_spec_split:
  "client_spec c k v m = (case get_spec c k v m of (None, out) \<Rightarrow> Inr (m, out)
     | (Some w, out) \<Rightarrow> bindr (set_delete_spec c k w m) (\<lambda>(m, out'). Inr (m, out @ out')))"
  by (auto simp: client_spec_def set_delete_spec_def Let_def split: prod.splits option.splits)

lemma answers_prepend:
  assumes "answers fd (s\<lparr>trace := trace s @ map (Ev_send fd) out\<rparr>) r spec"
  shows "answers fd s r (bindr spec (\<lambda>(m, out'). Inr (m, out @ out')))"
  using assms by (cases spec) (auto simp: answers_def split: prod.splits)

lemma respond_refines_from:
  assumes ok: "db_ok (peer_db s)" and mem: "memory_bound (os_can_alloc os)"
    and k: "read_bytes (cp_key c) (unat (cp_key_length c)) = Inr k"
    and v: "read_bytes (cp_value c) (unat (cp_value_length c)) = Inr v"
  shows "answers fd s (respond_as_responsible_peer os c fd s) (client_spec c k v (db_map (peer_db s)))"
proof -
  have run: "respond_as_responsible_peer os c fd =
      bindc (if cp_get c \<noteq> 0 then respond_get os c fd else ret (Some c))
        (\<lambda>r. case r of None \<Rightarrow> ret () | Some c \<Rightarrow> set_delete os c fd)"
    unfolding respond_as_responsible_peer_def set_delete_def ..
  show ?thesis
  proof (cases "cp_get c = 0")
    case True
    then have "respond_as_responsible_peer os c fd s = set_delete os c fd s"
      by (simp add: run cmd_simps)
    moreover have "bindr (set_delete_spec c k v m) (\<lambda>(m, out'). Inr (m, [] @ out')) =
        set_delete_spec c k v m" for m
      by (cases "set_delete_spec c k v m") auto
    ultimately show ?thesis
      using True set_delete_refines [OF ok mem k v] by (simp add: client_spec_split get_spec_def)
  next
    case get: False
    show ?thesis
    proof (cases "db_map (peer_db s) k")
      case None
      have "respond_as_responsible_peer os c fd s =
          (Inr (), s\<lparr>trace := trace s @ [Ev_send fd (ack_response GET_BIT)]\<rparr>)"
        using get respond_get_run(1) [OF ok k None] by (simp add: run cmd_simps)
      then show ?thesis
        using get None ok by (simp add: client_spec_split get_spec_def answers_def)
          (rule exI [of _ "peer_db s"], simp)
    next
      case (Some old)
      obtain p n where g: "respond_get os c fd s =
        (Inr (Some (c\<lparr>cp_value := p, cp_value_length := n, cp_act := ACK_BIT\<rparr>)),
         s\<lparr>trace := trace s @ [Ev_send fd (client_answer c k old)]\<rparr>)" "read_bytes p (unat n) = Inr old"
        using respond_get_run(2) [OF ok k Some] by blast
      let ?c = "c\<lparr>cp_value := p, cp_value_length := n, cp_act := ACK_BIT\<rparr>"
      let ?s = "s\<lparr>trace := trace s @ map (Ev_send fd) [client_answer c k old]\<rparr>"
      have r: "respond_as_responsible_peer os c fd s = set_delete os ?c fd ?s"
        using get g(1) by (simp add: run cmd_simps)
      have "answers fd ?s (set_delete os ?c fd ?s) (set_delete_spec ?c k old (db_map (peer_db ?s)))"
        by (rule set_delete_refines) (simp_all add: ok mem k g(2))
      moreover have "set_delete_spec ?c k old m = set_delete_spec c k old m" for m
        by (simp add: set_delete_spec_def)
      ultimately have "answers fd s (set_delete os ?c fd ?s) (bindr (set_delete_spec c k old
          (db_map (peer_db s))) (\<lambda>(m, out'). Inr (m, [client_answer c k old] @ out')))"
        using answers_prepend [of fd s "[client_answer c k old]"] by simp
      then show ?thesis using get Some r by (simp add: client_spec_split get_spec_def)
    qed
  qed
qed

section \<open>Requests on the ring\<close>

definition key_id :: "bytes \<Rightarrow> byte16" where
  "key_id k = ucast (HASH_JEN k)"

text \<open>A received client request with its key and value bytes.\<close>

definition client_request :: "Response \<Rightarrow> ClientProtocol \<Rightarrow> bytes \<Rightarrow> bytes \<Rightarrow> bool" where
  "client_request rec c k v \<longleftrightarrow> isPeerProtocol (rs_data rec) = Inr 0 \<and>
     decode_clientProtocol (rs_data rec) zero_ClientProtocol = Inr c \<and>
     read_bytes (cp_key c) (unat (cp_key_length c)) = Inr k \<and>
     read_bytes (cp_value c) (unat (cp_value_length c)) = Inr v"

lemma client_dispatch:
  assumes "client_request rec c k v" "pi_this (peer_info s) = Some t"
  shows "receive_handler os fuel rec fd s =
    bindc (liftr (id_is_between (key_id k) (Some t) (pi_prev (peer_info s)))) (\<lambda>mine.
     if mine then respond_as_responsible_peer os c fd
     else bindc (liftr (id_is_between (key_id k) (pi_next (peer_info s)) (Some t))) (\<lambda>nexts.
       if nexts then forward_to_next os fuel rec fd
       else queue_request os c fd)) s"
  using assms
  by (simp add: client_request_def receive_handler_def handle_client_def cmd_simps Let_def
      get_hash_value_def HASH_VALUE_def key_id_def split: sum.splits)

text \<open>The bytes of a well-formed client message, with anything behind them, are such a request.\<close>

lemma client_header_no_control:
  assumes "wf_ClientProtocol c" shows "client_header c AND CONTROL_BIT = 0"
proof -
  have "cp_act c AND 1 = 0" "cp_get c AND 1 = 0" "cp_set c AND 1 = 0" "cp_delete c AND 1 = 0"
    using assms by (auto simp: wf_ClientProtocol_def client_bits)
  then show ?thesis by (simp add: client_header_def CONTROL_BIT_def bit.conj_disj_distrib2)
qed

lemma client_wire_request:
  assumes wf: "wf_client_message (c, k, v)" and rec: "rs_data rec = Obj (client_wire c k v @ r)"
  shows "\<exists>c'. client_request rec c' k v \<and> cp_get c' = cp_get c \<and> cp_set c' = cp_set c \<and>
    cp_delete c' = cp_delete c \<and> cp_key_length c' = cp_key_length c \<and>
    cp_value_length c' = cp_value_length c"
proof -
  let ?c = "client_view (client_header c) c (Obj (k @ v @ r)) (Obj (v @ r)) zero_ClientProtocol"
  have wfc: "wf_ClientProtocol c" using wf by (simp add: wf_client_message_def)
  have d: "decode_clientProtocol (rs_data rec) zero_ClientProtocol = Inr ?c"
    using client_codec.dec_wire [OF wf, of r] by (simp add: rec)
  have con: "client_content ?c = ((cp_act c, cp_get c, cp_set c, cp_delete c), Inr k, Inr v)"
    using client_codec.content_view [OF wf, of r] by simp
  have "isPeerProtocol (rs_data rec) = Inr 0"
    using client_header_no_control [OF wfc]
    by (simp add: rec isPeerProtocol_def client_wire_def mem_simps truthy_def)
  with d con show ?thesis
    by (intro exI [of _ ?c]) (auto simp: client_request_def client_content_def client_view_def Let_def)
qed

lemma client_spec_cong:
  assumes "cp_get c' = cp_get c" "cp_set c' = cp_set c" "cp_delete c' = cp_delete c"
    "cp_key_length c' = cp_key_length c"
  shows "client_spec c' k v m = client_spec c k v m"
  using assms by (simp add: client_spec_def get_spec_def client_answer_def client_wire_def
      client_header_def cong: option.case_cong)

lemma between_Some: "id_is_between h (Some a) (Some b) = Inr (peer_id b < h \<and> h < peer_id a)"
  by (auto simp: id_is_between_peers in_range_def)

lemma queue_request_run:
  assumes "queue_is_empty (client_requests s)"
  shows "queue_request os c fd s =
    (if unat (clientProtocolCalculateSize c) \<le> length (os_stack os (trace s)) then (Inr (), s)
     else (Inl OutOfBounds, s))"
proof -
  have "next_job_in_queue os s = (Inr (), s)" if "queue_is_empty (client_requests s)" for s
    using that by (simp add: next_job_in_queue_def cmd_simps)
  then show ?thesis
    using assms
    by (auto simp: queue_request_def cmd_simps Let_def macro_queue.append_run split: sum.splits)
qed

section \<open>The request of the full-cycle test\<close>

text \<open>The key and value of \<^verbatim>\<open>src/test/services/peer_client_full_cycle.service\<close>, and peers
  around its identifier 0x51E6; the properties below are evaluated on them.\<close>

definition DataKey :: bytes where "DataKey = [0x44, 0x61, 0x74, 0x61, 0x4B, 0x65, 0x79]"

definition Some_Value :: bytes where
  "Some_Value = [0x53, 0x6f, 0x6d, 0x65, 0x20, 0x56, 0x61, 0x6c, 0x75, 0x65]"

definition test_request :: "byte8 \<Rightarrow> byte8 \<Rightarrow> byte8 \<Rightarrow> ClientProtocol" where
  "test_request g s d = zero_ClientProtocol\<lparr>cp_get := g, cp_set := s, cp_delete := d,
     cp_key_length := 7, cp_value_length := 10\<rparr>"

definition message :: "bytes \<Rightarrow> Response" where
  "message bs = \<lparr>rs_data_length = of_nat (length bs), rs_data = Obj bs, rs_status_code = Some 200\<rparr>"

definition node :: "byte16 \<Rightarrow> byte16 \<Rightarrow> Peer" where
  "node port i = zero_Peer\<lparr>peer_ip := of_le32 [127, 0, 0, 1], peer_port := port, peer_id := i\<rparr>"

definition at_ring :: "Peer \<Rightarrow> Peer option \<Rightarrow> Peer option \<Rightarrow> peer_state" where
  "at_ring t n p = start_state\<lparr>peer_info := \<lparr>pi_this = Some t, pi_next = n, pi_prev = p, pi_join = None\<rparr>\<rparr>"

lemma key_id_DataKey: "key_id DataKey = 0x51E6"
  by (simp add: key_id_def DataKey_def HASH_JEN_DataKey)

lemma test_request_bytes:
  "client_wire (test_request 0 SET_BIT 0) DataKey Some_Value =
     [0x40, 0, 7, 0, 0, 0, 10] @ DataKey @ Some_Value"
  by code_simp

lemma wf_test_request:
  "g \<in> {0, GET_BIT} \<Longrightarrow> s \<in> {0, SET_BIT} \<Longrightarrow> d \<in> {0, DELETE_BIT} \<Longrightarrow>
   wf_client_message (test_request g s d, DataKey, Some_Value)"
  by (simp add: wf_client_message_def wf_ClientProtocol_def test_request_def zero_ClientProtocol_def
      DataKey_def Some_Value_def)

lemma length_test_request: "length (client_wire (test_request g s d) DataKey Some_Value) = 24"
  by (simp add: length_client_wire DataKey_def Some_Value_def)

lemma node_simps [simp]: "peer_id (node q i) = i" "peer_port (node q i) = q"
  "peer_ip (node q i) = of_le32 [127, 0, 0, 1]"
  by (simp_all add: node_def)

lemma at_ring_simps [simp]:
  "pi_this (peer_info (at_ring t n p)) = Some t" "pi_next (peer_info (at_ring t n p)) = n"
  "pi_prev (peer_info (at_ring t n p)) = p" "peer_db (at_ring t n p) = empty_db"
  "client_requests (at_ring t n p) = QUEUE" "trace (at_ring t n p) = []"
  by (simp_all add: at_ring_def start_state_def)

lemma message_data [simp]: "rs_data (message bs) = Obj (bs @ [])"
  "rs_data_length (message bs) = of_nat (length bs)"
  by (simp_all add: message_def)

text \<open>The first value a peer stores is always stored, if the table can be allocated.\<close>

lemma first_set_succeeds:
  assumes "can_alloc = os_can_alloc os" "can_alloc 64" "can_alloc 512" "peer_db s = empty_db"
    and "client_request rec c k v" "cp_get c = 0" "cp_set c \<noteq> 0" "cp_delete c = 0"
    and "pi_this (peer_info s) = Some t" "pi_prev (peer_info s) = Some p"
    and "peer_id p < key_id k" "key_id k < peer_id t"
  shows "\<exists>s'. receive_handler os fuel rec fd s = (Inr (), s')"
proof -
  have r: "read_bytes (cp_key c) (unat (cp_key_length c)) = Inr k"
    "read_bytes (cp_value c) (unat (cp_value_length c)) = Inr v"
    using assms(5) by (simp_all add: client_request_def)
  obtain db where "set_element can_alloc (cp_key c) (cp_key_length c) (cp_value c) (cp_value_length c)
      empty_db = (Inr (), db)"
    using set_element_first [of can_alloc, OF assms(2,3) r] by blast
  moreover obtain x where "HEX_VALUE_LOG (cp_value c) (unat (cp_value_length c)) = Inr x"
    using read_bytes_hex [OF r(2)] by blast
  moreover have "receive_handler os fuel rec fd s = respond_as_responsible_peer os c fd s"
    using client_dispatch [OF assms(5,9)] assms(10-12) by (simp add: cmd_simps between_Some)
  ultimately show ?thesis
    using assms(1,4,6-8) by (simp add: respond_as_responsible_peer_def respond_set_def cmd_simps)
qed

section \<open>Properties of the client requests\<close>

lemma responsible_refines:
  assumes "wf_client_message (c, k, v)" and "rs_data rec = Obj (client_wire c k v @ r)"
    and "pi_this (peer_info s) = Some t" and "pi_prev (peer_info s) = Some p"
    and "peer_id p < key_id k" and "key_id k < peer_id t"
    and "db_ok (peer_db s)" and "memory_bound (os_can_alloc os)"
  shows "answers fd s (receive_handler os fuel rec fd s) (client_spec c k v (db_map (peer_db s)))"
proof -
  obtain c' where c': "client_request rec c' k v" "cp_get c' = cp_get c" "cp_set c' = cp_set c"
    "cp_delete c' = cp_delete c" "cp_key_length c' = cp_key_length c"
    using client_wire_request [OF assms(1,2)] by blast
  have "receive_handler os fuel rec fd s = respond_as_responsible_peer os c' fd s"
    using client_dispatch [OF c'(1) assms(3)] assms(4-6) by (simp add: cmd_simps between_Some)
  then show ?thesis
    using respond_refines_from [OF assms(7,8), of c' k v fd] c'
      client_spec_cong [OF c'(2-5), of k v "db_map (peer_db s)"] by (simp add: client_request_def)
qed

text \<open>C1: a peer that is responsible for the key of a well-formed client message answers it as
  the specification on finite maps says, for every combination of the request flags: its database
  becomes the specified map, and exactly the specified messages go back to the client, in
  order; deleting an absent key ends in a null pointer dereference.\<close>

theorem responsible_peer_refines_map:
  assumes "wf_client_message (c, k, v)" and "rs_data rec = Obj (client_wire c k v @ r)"
    and "pi_this (peer_info s) = Some t" and "pi_prev (peer_info s) = Some p"
    and "peer_id p < key_id k" and "key_id k < peer_id t"
    and "db_ok (peer_db s)" and "memory_bound (os_can_alloc os)"
  shows "answers fd s (receive_handler os fuel rec fd s) (client_spec c k v (db_map (peer_db s)))"
  using assms by (rule responsible_refines)

theorem responsible_peer_refines_map_witness:
  "answers 7 (at_ring (node 3006 30000) None (Some (node 3005 10000)))
     (receive_handler idle_os 1 (message (client_wire (test_request 0 SET_BIT 0) DataKey Some_Value)) 7
       (at_ring (node 3006 30000) None (Some (node 3005 10000))))
     (client_spec (test_request 0 SET_BIT 0) DataKey Some_Value (db_map empty_db))"
  using responsible_peer_refines_map [OF wf_test_request message_data(1), of 0 SET_BIT 0
      "at_ring (node 3006 30000) None (Some (node 3005 10000))" "node 3006 30000" "node 3005 10000"
      idle_os 7 1]
  by (simp add: key_id_DataKey memory_bound_def idle_os_def del: db_ok_empty(2))

text \<open>
  A peer that has not met another one yet cannot serve a client: every request makes it
  follow a null pointer, before anything is stored or sent.\<close>

theorem lone_peer_crashes:
  assumes "wf_client_message (c, k, v)" and "rs_data rec = Obj (client_wire c k v @ r)"
    and "pi_this (peer_info s) = Some t" and "pi_prev (peer_info s) = None"
    and "pi_next (peer_info s) = None"
  shows "receive_handler os fuel rec fd s = (Inl NullDeref, s)"
proof -
  obtain c' where c': "client_request rec c' k v"
    using client_wire_request [OF assms(1,2)] by blast
  show ?thesis
    using client_dispatch [OF c' assms(3)] assms(4,5) by (auto simp: cmd_simps id_is_between_def)
qed

theorem lone_peer_crashes_witness:
  "receive_handler idle_os 1 (message (client_wire (test_request GET_BIT 0 0) DataKey Some_Value)) 7
     (at_ring (node 3006 30000) None None) = (Inl NullDeref, at_ring (node 3006 30000) None None)"
  by (rule lone_peer_crashes [OF wf_test_request message_data(1), of GET_BIT 0 0]) simp_all



text \<open>C17: when neither this peer nor the next is responsible the request is lost: the handler
  copies from the wrong object, leaving it when the request is longer than that, and otherwise
  returns with nothing sent, queued or changed.\<close>

theorem unknown_peer_request_lost:
  assumes "wf_client_message (c, k, v)" and "rs_data rec = Obj (client_wire c k v @ r)"
    and "pi_this (peer_info s) = Some t"
    and "id_is_between (key_id k) (Some t) (pi_prev (peer_info s)) = Inr False"
    and "id_is_between (key_id k) (pi_next (peer_info s)) (Some t) = Inr False"
    and "queue_is_empty (client_requests s)"
  shows "receive_handler os fuel rec fd s =
    (if length (client_wire c k v) \<le> length (os_stack os (trace s)) then (Inr (), s)
     else (Inl OutOfBounds, s))"
proof -
  obtain c' where c': "client_request rec c' k v" "cp_key_length c' = cp_key_length c"
    "cp_value_length c' = cp_value_length c"
    using client_wire_request [OF assms(1,2)] by blast
  have "unat (clientProtocolCalculateSize c') = length (client_wire c k v)"
    using assms(1) c' by (simp add: unat_clientProtocolCalculateSize length_client_wire
        wf_client_message_def)
  then show ?thesis
    using client_dispatch [OF c'(1) assms(3), of os fuel fd] assms(4-6) queue_request_run [of s os c' fd]
    by (simp add: cmd_simps)
qed

theorem unknown_peer_request_lost_witness:
  "let w = client_wire (test_request GET_BIT 0 0) DataKey Some_Value; n = node 3006 15000;
       s = at_ring (node 3005 10000) (Some n) (Some n) in
   receive_handler lan_os 1 (message w) 7 s =
    (if length w \<le> length (os_stack lan_os (trace s)) then (Inr (), s) else (Inl OutOfBounds, s))"
  unfolding Let_def
  by (rule unknown_peer_request_lost [OF wf_test_request message_data(1), of GET_BIT 0 0,
        where t = "node 3005 10000"])
    (simp_all add: key_id_DataKey between_Some queue_is_empty_def QUEUE_def)

end
