(* ===== verification/Server.thy ===== *)
theory Server
  imports Peer_Clients
begin

text \<open>
  \<^verbatim>\<open>src/src/server.c\<close>: the stand-alone server the peer grew out of. It is not part of the
  build any more; its handler is a copy of the answering code of the peer, which the equivalence
  below confirms, and its loop receives on the listening socket itself.
\<close>

section \<open>The program\<close>

record server_state = net +
  server_db :: hash_db

definition in_server_db :: "(hash_db, 'a) cmd \<Rightarrow> (server_state, 'a) cmd" where
  "in_server_db = zoomc server_db (\<lambda>db s. s\<lparr>server_db := db\<rparr>)"

definition server_ack :: "byte8 \<Rightarrow> int \<Rightarrow> (server_state, unit) cmd" where
  "server_ack flag sock_fd =
     send sock_fd (Obj ((ACK_BIT OR flag) # le16 0 @ le32 0)) (1 + 2 + 4)"

definition server_get :: "os \<Rightarrow> ClientProtocol \<Rightarrow> int \<Rightarrow> (server_state, ClientProtocol option) cmd" where
  "server_get os decodedData sock_fd =
     bindc (liftr (HEX_VALUE_LOG (cp_key decodedData) (unat (cp_key_length decodedData)))) (\<lambda>_.
     bindc (in_server_db (get_element (cp_key decodedData) (cp_key_length decodedData))) (\<lambda>element.
     case element of
       None \<Rightarrow> seqc (server_ack GET_BIT sock_fd) (ret None)
     | Some a \<Rightarrow>
         bindc (in_server_db (bindc getc (\<lambda>db. liftr (deref (db_heap db) a)))) (\<lambda>e.
         let decodedData = decodedData\<lparr>cp_value := he_value e,
               cp_value_length := he_value_length e, cp_act := ACK_BIT\<rparr>;
             len = clientProtocolCalculateSize decodedData in
         bindc (encode_client os decodedData) (\<lambda>m.
         seqc (send sock_fd m (unat len)) (ret (Some decodedData))))))"

definition server_set :: "os \<Rightarrow> ClientProtocol \<Rightarrow> int \<Rightarrow> (server_state, unit) cmd" where
  "server_set os decodedData sock_fd =
     seqc (in_server_db (set_element (os_can_alloc os) (cp_key decodedData)
             (cp_key_length decodedData) (cp_value decodedData) (cp_value_length decodedData)))
     (bindc (liftr (HEX_VALUE_LOG (cp_value decodedData) (unat (cp_value_length decodedData)))) (\<lambda>_.
      server_ack SET_BIT sock_fd))"

definition server_delete :: "ClientProtocol \<Rightarrow> int \<Rightarrow> (server_state, unit) cmd" where
  "server_delete decodedData sock_fd =
     seqc (in_server_db (delete_element (cp_key decodedData) (cp_key_length decodedData)))
          (server_ack DELETE_BIT sock_fd)"

definition server_handler :: "os \<Rightarrow> Response \<Rightarrow> int \<Rightarrow> (server_state, unit) cmd" where
  "server_handler os rec sock_fd =
     bindc (liftr (decode_clientProtocol (rs_data rec) zero_ClientProtocol)) (\<lambda>decodedData.
     bindc (if cp_get decodedData \<noteq> 0 then server_get os decodedData sock_fd
            else ret (Some decodedData)) (\<lambda>r.
     case r of None \<Rightarrow> ret ()
     | Some decodedData \<Rightarrow>
         seqc (if cp_set decodedData \<noteq> 0 then server_set os decodedData sock_fd else ret ())
              (if cp_delete decodedData \<noteq> 0 then server_delete decodedData sock_fd else ret ())))"

text \<open>\<open>rounds\<close> bounds the rounds of the loop, \<open>fuel\<close> the buffers of one receive.\<close>

fun server_loop :: "os \<Rightarrow> nat \<Rightarrow> nat \<Rightarrow> int \<Rightarrow> (server_state, unit) cmd" where
  "server_loop os fuel 0 sock_fd = failc OutOfFuel"
| "server_loop os fuel (Suc rounds) sock_fd =
     bindc (receive os fuel sock_fd (server_handler os)) (\<lambda>code.
     if code = Some STATUS_OK then server_loop os fuel rounds sock_fd
     else if code = Some STATUS_SOCKET_CLOSED then ret ()
     else failc (ProgramExit (-1)))"

definition server_main :: "os \<Rightarrow> nat \<Rightarrow> nat \<Rightarrow> string list \<Rightarrow> (server_state, unit) cmd" where
  "server_main os fuel rounds argv =
     bindc (liftr (STR_ARG argv 0)) (\<lambda>port.
     bindc (setup_as_server os port) (\<lambda>sock_fd.
     server_loop os fuel rounds sock_fd))"

section \<open>The handler is the peer's\<close>

definition as_server :: "peer_state \<Rightarrow> server_state" where
  "as_server s = \<lparr>trace = trace s, server_db = peer_db s\<rparr>"

lemma as_server_upd [simp]:
  "as_server (s\<lparr>trace := h\<rparr>) = (as_server s)\<lparr>trace := h\<rparr>"
  "as_server (s\<lparr>peer_db := d\<rparr>) = (as_server s)\<lparr>server_db := d\<rparr>"
  "trace (as_server s) = trace s" "server_db (as_server s) = peer_db s"
  by (simp_all add: as_server_def)

lemma in_server_db_run: "in_server_db m s = (fst (m (server_db s)), s\<lparr>server_db := snd (m (server_db s))\<rparr>)"
  by (simp add: in_server_db_def zoomc_run)

text \<open>A pair of commands that do the same on the two states.\<close>

definition same_as_server :: "(peer_state, 'a) cmd \<Rightarrow> (server_state, 'a) cmd \<Rightarrow> bool" where
  "same_as_server m n \<longleftrightarrow> (\<forall>s. n (as_server s) = (fst (m s), as_server (snd (m s))))"

named_theorems same_intros \<open>commands that do the same in the peer and in the server\<close>

lemma same_basic [same_intros]:
  "same_as_server (ret x) (ret x)" "same_as_server (liftr r) (liftr r)"
  "same_as_server (log_event e) (log_event e)"
  by (simp_all add: same_as_server_def cmd_simps)

lemma same_in_db [same_intros]: "same_as_server (in_db m) (in_server_db m)"
  by (simp add: same_as_server_def in_db_run in_server_db_run)

lemma same_bindc [same_intros]:
  assumes "same_as_server m n" "\<And>x. same_as_server (k x) (l x)"
  shows "same_as_server (bindc m k) (bindc n l)"
  using assms by (auto simp: same_as_server_def cmd_simps split: prod.splits sum.splits)

lemma same_seqc [same_intros]:
  "same_as_server m n \<Longrightarrow> same_as_server m' n' \<Longrightarrow> same_as_server (seqc m m') (seqc n n')"
  by (simp add: seqc_def same_bindc)

lemma same_if [same_intros]:
  "same_as_server m n \<Longrightarrow> same_as_server m' n' \<Longrightarrow>
   same_as_server (if b then m else m') (if b then n else n')"
  by simp

lemma same_option [same_intros]:
  "same_as_server m n \<Longrightarrow> (\<And>y. same_as_server (k y) (l y)) \<Longrightarrow>
   same_as_server (case x of None \<Rightarrow> m | Some y \<Rightarrow> k y) (case x of None \<Rightarrow> n | Some y \<Rightarrow> l y)"
  by (cases x) simp_all

lemma same_Let [same_intros]:
  "same_as_server (k x) (l x) \<Longrightarrow> same_as_server (let y = x in k y) (let y = x in l y)"
  by simp

lemma same_send [same_intros]: "same_as_server (send fd p n) (send fd p n)"
  unfolding send_def by (intro same_intros)

lemma same_encode [same_intros]: "same_as_server (encode_client os c) (encode_client os c)"
  by (simp add: same_as_server_def encode_client_def cmd_simps split: sum.splits)

lemma same_ack [same_intros]: "same_as_server (send_ack flag fd) (server_ack flag fd)"
  unfolding send_ack_def server_ack_def ack_response_def by (intro same_intros)

section \<open>Properties of the server\<close>

text \<open>C15: on every message, the handler of the server does what the peer does as responsible
  peer: the same answers on the same connection, the same database afterwards, the same
  faults.\<close>

theorem server_handler_is_peers:
  "server_handler os rec fd (as_server s) =
    (case bindc (liftr (decode_clientProtocol (rs_data rec) zero_ClientProtocol))
        (\<lambda>c. respond_as_responsible_peer os c fd) s of (r, t) \<Rightarrow> (r, as_server t))"
proof -
  have "same_as_server (bindc (liftr (decode_clientProtocol (rs_data rec) zero_ClientProtocol))
        (\<lambda>c. respond_as_responsible_peer os c fd)) (server_handler os rec fd)"
    unfolding server_handler_def respond_as_responsible_peer_def respond_get_def respond_set_def
      respond_delete_def server_get_def server_set_def server_delete_def
    by (intro same_intros)
  then show ?thesis by (simp add: same_as_server_def split: prod.splits)
qed



end
