(* ===== verification/Client.thy ===== *)
theory Client
  imports Network
begin

text \<open>
  \<^verbatim>\<open>src/src/client.c\<close>: the command-line client. It encodes one request from its arguments,
  sends it and prints the value of the answer.
\<close>

section \<open>The program\<close>

text \<open>A C string in memory, with its terminating zero.\<close>

definition c_bytes :: "string \<Rightarrow> bytes" where
  "c_bytes s = map of_char s"

definition c_string :: "string \<Rightarrow> ptr" where
  "c_string s = Obj (c_bytes s @ [0])"

text \<open>\<^verbatim>\<open>receive_handler\<close>: the decoded struct is freed at the end of every path.\<close>

definition client_receive_handler :: "Response \<Rightarrow> int \<Rightarrow> ('z net_scheme, unit) cmd" where
  "client_receive_handler rec sock_fd =
     bindc (liftr (decode_clientProtocol (rs_data rec) zero_ClientProtocol)) (\<lambda>decodedData.
     if cp_get decodedData \<noteq> 0
     then bindc (liftr (read_bytes (cp_value decodedData) (unat (cp_value_length decodedData))))
            (\<lambda>bs. log_event (Ev_stdout bs))
     else ret ())"

text \<open>The request of the arguments; a method that is none of the three sets no flag.\<close>

definition client_data :: "string \<Rightarrow> string \<Rightarrow> string option \<Rightarrow> size_t \<Rightarrow> ClientProtocol" where
  "client_data method key value value_length =
     (let data = zero_ClientProtocol;
          data = (if method = ''GET'' then data\<lparr>cp_get := GET_BIT\<rparr>
                  else if method = ''SET'' then data\<lparr>cp_set := SET_BIT\<rparr>
                  else if method = ''DELETE'' then data\<lparr>cp_delete := DELETE_BIT\<rparr> else data);
          data = data\<lparr>cp_key_length := of_nat (length key), cp_key := c_string key\<rparr>
      in if cp_set data \<noteq> 0
         then data\<lparr>cp_value_length := ucast value_length,
                cp_value := (case value of None \<Rightarrow> Null | Some v \<Rightarrow> c_string v)\<rparr>
         else data\<lparr>cp_value_length := 0, cp_value := Null\<rparr>)"

text \<open>\<^verbatim>\<open>DEFAULT_STR_ARG\<close> never yields \<^verbatim>\<open>NULL\<close>: the pointer is followed by
  \<^verbatim>\<open>strcmp\<close> and \<^verbatim>\<open>strlen\<close>.\<close>

definition str_of :: "string option \<Rightarrow> fault + string" where
  "str_of p = (case p of None \<Rightarrow> Inl NullDeref | Some s \<Rightarrow> Inr s)"

definition client_main :: "os \<Rightarrow> nat \<Rightarrow> string list \<Rightarrow> ('z net_scheme, unit) cmd" where
  "client_main os fuel argv =
     (let address = DEFAULT_STR_ARG argv 0 ''localhost''; port = DEFAULT_STR_ARG argv 1 ''4711'' in
     bindc (liftr (str_of (DEFAULT_STR_ARG argv 2 ''GET''))) (\<lambda>method.
     bindc (liftr (str_of (DEFAULT_STR_ARG argv 3 ''key''))) (\<lambda>key.
     case BINARY_ARG argv 4 of (value, value_length) \<Rightarrow>
     let data = client_data method key value value_length in
     bindc (encode_client os data) (\<lambda>encoded_data.
     let encoded_data_len = clientProtocolCalculateSize data in
     bindc (setup_as_client os address port) (\<lambda>sock_fd.
     seqc (send sock_fd encoded_data (unat encoded_data_len))
     (bindc (receive os fuel sock_fd client_receive_handler) (\<lambda>status.
      if status = Some STATUS_OK then ret () else failc (ProgramExit (-1)))))))))"

section \<open>What is sent\<close>

lemma c_bytes_length [simp]: "length (c_bytes s) = length s"
  by (simp add: c_bytes_def)

lemma read_c_string: "n = length s \<Longrightarrow> read_bytes (c_string s) n = Inr (c_bytes s)"
  by (simp add: c_string_def)

text \<open>The request, as the message of the protocol it stands for.\<close>

definition method_flags :: "string \<Rightarrow> byte8 \<times> byte8 \<times> byte8" where
  "method_flags m = (if m = ''GET'' then GET_BIT else 0, if m = ''SET'' then SET_BIT else 0,
     if m = ''DELETE'' then DELETE_BIT else 0)"

definition sent_value :: "string \<Rightarrow> string option \<Rightarrow> bytes" where
  "sent_value m v = (if m = ''SET'' then (case v of None \<Rightarrow> [] | Some s \<Rightarrow> c_bytes s) else [])"

definition sent_message :: "string \<Rightarrow> string \<Rightarrow> string option \<Rightarrow> ClientProtocol \<times> bytes \<times> bytes" where
  "sent_message m key v =
     (case method_flags m of (g, s, d) \<Rightarrow>
       (zero_ClientProtocol\<lparr>cp_get := g, cp_set := s, cp_delete := d,
          cp_key_length := of_nat (length key), cp_value_length := of_nat (length (sent_value m v))\<rparr>,
        c_bytes key, sent_value m v))"

lemma wf_sent_message:
  assumes "length key < 2 ^ 16" "\<forall>s. v = Some s \<longrightarrow> length s < 2 ^ 32"
  shows "wf_client_message (sent_message m key v)"
  using assms
  by (auto simp: sent_message_def method_flags_def wf_client_message_def wf_ClientProtocol_def
      zero_ClientProtocol_def sent_value_def unat_of_nat take_bit_nat_eq_self split: option.splits)

lemma ucast_of_nat_size: "(ucast (of_nat n :: size_t) :: byte32) = of_nat n"
  by (rule bit_word_eqI) (simp add: bit_simps)

lemma client_data_encodes:
  assumes "length key < 2 ^ 16" "\<forall>s. v = Some s \<longrightarrow> length s < 2 ^ 32"
    and "n = of_nat (case v of None \<Rightarrow> 0 | Some s \<Rightarrow> length s)"
  shows "\<exists>r. encode_client os (client_data m key v n) s =
      (Inr (Obj ((case sent_message m key v of (c, k, w) \<Rightarrow> client_wire c k w) @ r)), s)"
    and "unat (clientProtocolCalculateSize (client_data m key v n)) =
      length (case sent_message m key v of (c, k, w) \<Rightarrow> client_wire c k w)"
proof -
  let ?d = "client_data m key v n" and ?k = "c_bytes key" and ?w = "sent_value m v"
  have kl: "unat (of_nat (length key) :: byte16) = length key"
    using assms(1) by (simp add: unat_of_nat take_bit_nat_eq_self)
  have f: "cp_key ?d = c_string key" "cp_key_length ?d = of_nat (length key)"
    by (simp_all add: client_data_def Let_def)
  have k: "read_bytes (cp_key ?d) (unat (cp_key_length ?d)) = Inr ?k"
    unfolding f kl by (rule read_c_string) simp
  have vl: "cp_value_length ?d = of_nat (length ?w)"
    using assms(2,3) by (auto simp: client_data_def Let_def sent_value_def SET_BIT_def
        zero_ClientProtocol_def ucast_of_nat_size split: option.splits)
  have wl: "unat (of_nat (length ?w) :: byte32) = length ?w"
    using assms(2) by (auto simp: sent_value_def unat_of_nat take_bit_nat_eq_self split: option.splits)
  have v: "read_bytes (cp_value ?d) (unat (cp_value_length ?d)) = Inr ?w"
    unfolding vl wl
    by (auto simp: client_data_def Let_def sent_value_def SET_BIT_def read_c_string
        zero_ClientProtocol_def split: option.splits)
  have w: "client_wire ?d ?k ?w = (case sent_message m key v of (c, k, w) \<Rightarrow> client_wire c k w)"
    unfolding client_wire_def vl sent_message_def method_flags_def
    by (simp add: f client_header_def client_data_def Let_def client_bits zero_ClientProtocol_def)
  show "\<exists>r. encode_client os ?d s =
      (Inr (Obj ((case sent_message m key v of (c, k, w) \<Rightarrow> client_wire c k w) @ r)), s)"
    using encode_clientProtocol_eq [OF k v] by (auto simp: encode_client_def cmd_simps w)
  show "unat (clientProtocolCalculateSize ?d) =
      length (case sent_message m key v of (c, k, w) \<Rightarrow> client_wire c k w)"
    unfolding w [symmetric] unat_clientProtocolCalculateSize length_client_wire f vl wl kl by simp
qed

section \<open>Properties of the client\<close>

text \<open>C25: called with an address, a port, a method, a key and a value, the client sends one
  well-formed message of the protocol to that address: the flag of the method, the key, and the
  value for \<^verbatim>\<open>SET\<close> only; then it hands what it receives to its handler.\<close>

theorem client_sends_request:
  assumes "length key < 2 ^ 16" and "length v < 2 ^ 32" and "sent_message m key (Some v) = (c, k, w)"
  shows "wf_client_message (c, k, w) \<and> client_main os fuel [p, a, q, m, key, v] s =
    bindc (post os (Some a) (Some q) (client_wire c k w)) (\<lambda>fd.
    bindc (receive os fuel fd client_receive_handler) (\<lambda>status.
      if status = Some STATUS_OK then ret () else failc (ProgramExit (-1)))) s"
proof
  let ?d = "client_data m key (Some v) (of_nat (length v))"
  show "wf_client_message (c, k, w)"
    using wf_sent_message [of key "Some v" m] assms by simp
  obtain r where e: "encode_client os ?d s = (Inr (Obj (client_wire c k w @ r)), s)"
    using client_data_encodes(1) [of key "Some v" "of_nat (length v)" os m s] assms by auto
  have n: "unat (clientProtocolCalculateSize ?d) = length (client_wire c k w)"
    using client_data_encodes(2) [of key "Some v" "of_nat (length v)" m] assms by auto
  show "client_main os fuel [p, a, q, m, key, v] s =
    bindc (post os (Some a) (Some q) (client_wire c k w)) (\<lambda>fd.
    bindc (receive os fuel fd client_receive_handler) (\<lambda>status.
      if status = Some STATUS_OK then ret () else failc (ProgramExit (-1)))) s"
    by (simp add: client_main_def DEFAULT_STR_ARG_def BINARY_ARG_def argv_at_def str_of_def
        bindc_run seqc_run Let_def e n send_obj post_def log_event_run split: prod.splits sum.splits)
qed

theorem client_sends_request_witness:
  "let (c, k, w) = sent_message ''SET'' ''DataKey'' (Some ''Value'') in
   wf_client_message (c, k, w) \<and>
   client_main lan_os 3 [''client'', ''localhost'', ''3005'', ''SET'', ''DataKey'', ''Value''] \<lparr>trace = []\<rparr> =
    bindc (post lan_os (Some ''localhost'') (Some ''3005'') (client_wire c k w)) (\<lambda>fd.
    bindc (receive lan_os 3 fd client_receive_handler) (\<lambda>status.
      if status = Some STATUS_OK then ret () else failc (ProgramExit (-1)))) \<lparr>trace = []\<rparr>"
proof (cases "sent_message ''SET'' ''DataKey'' (Some ''Value'')")
  case (fields c k w)
  show ?thesis unfolding fields prod.case Let_def
    by (rule client_sends_request [OF _ _ fields]) simp_all
qed

text \<open>
  A client whose peer closes the connection without an answer, or whose receive fails,
  ends in a memory fault: the branch that reports the error is never taken.\<close>

theorem client_without_answer:
  "(os_recv os (trace s) fd = Some [] \<longrightarrow>
      fst (receive os (Suc n) fd client_receive_handler s) = Inl NullDeref) \<and>
   (os_recv os (trace s) fd = None \<longrightarrow>
      fst (receive os (Suc n) fd client_receive_handler s) = Inl UseAfterFree) \<and>
   (\<forall>st t. receive os n fd client_receive_handler s = (Inr st, t) \<longrightarrow> st = Some STATUS_OK)"
proof (intro conjI impI allI)
  assume a: "os_recv os (trace s) fd = Some []"
  show "fst (receive os (Suc n) fd client_receive_handler s) = Inl NullDeref"
    using direct_receive_short [OF a, of n True]
    by (simp add: receive_def cmd_simps BUFFER_SIZE_def Let_def shrink_def client_receive_handler_def
        decode_clientProtocol_def load8_def del: direct_receive.simps)
next
  assume a: "os_recv os (trace s) fd = None"
  show "fst (receive os (Suc n) fd client_receive_handler s) = Inl UseAfterFree"
    using direct_receive_error [OF a, of n True]
    by (simp add: receive_def cmd_simps client_receive_handler_def
        decode_clientProtocol_def load8_def del: direct_receive.simps)
next
  fix st t assume "receive os n fd client_receive_handler s = (Inr st, t)"
  then show "st = Some STATUS_OK"
    by (auto simp: receive_def seqc_run elim!: bindc_eqD dest!: direct_receive_status
        split: prod.splits sum.splits)
qed

theorem client_without_answer_witness:
  "fst (receive idle_os (Suc 0) 5 client_receive_handler \<lparr>trace = []\<rparr>) = Inl UseAfterFree"
proof -
  have "os_recv idle_os (trace \<lparr>trace = []\<rparr>) 5 = None" by (simp add: idle_os_def)
  with client_without_answer [of idle_os "\<lparr>trace = []\<rparr>" 5 0] show ?thesis by blast
qed

end
