(* ===== verification/Peer_Ring.thy ===== *)
theory Peer_Ring
  imports Peer_Clients
begin

text \<open>
  What \<^verbatim>\<open>peer.c\<close> does with the messages of other peers, and its main loop: the effect of
  each message on the ring pointers and what is sent, the messages that end the process, an
  invariant of every reachable state, and the fate of the second connection.
\<close>

section \<open>Dispatch\<close>

text \<open>A received peer message and what it decodes to.\<close>

definition peer_message :: "Response \<Rightarrow> PeerProtocol \<Rightarrow> bool" where
  "peer_message rec d \<longleftrightarrow> decode_peerProtocol (rs_data rec) zero_PeerProtocol = Inr d \<and>
     pp_control d \<noteq> 0"

lemma peer_message_control:
  assumes "peer_message rec d" shows "isPeerProtocol (rs_data rec) = Inr (truthy (pp_control d))"
  using assms
  by (auto simp: peer_message_def decode_peerProtocol_def isPeerProtocol_def bindr_eq_Inr Let_def)

lemma peer_message_wire:
  assumes "rs_data rec = Obj (peer_wire m @ r)" "2 \<le> length r" "peer_header m AND CONTROL_BIT \<noteq> 0"
  shows "peer_message rec (with_header (peer_header m) m)"
  using assms by (simp add: peer_message_def decode_peer_wire with_header_def)

lemma peer_dispatch:
  assumes "peer_message rec d"
  shows "receive_handler os fuel rec fd =
    (if pp_finger d \<noteq> 0 then handle_finger os d
     else if pp_fack d \<noteq> 0 then ret ()
     else if pp_join d \<noteq> 0 then handle_join os rec d
     else if pp_notify d \<noteq> 0 then handle_notify d
     else if pp_stabilize d \<noteq> 0 then handle_stabilize os d
     else if pp_reply d \<noteq> 0 then handle_reply os fuel d
     else if pp_lookup d \<noteq> 0 then handle_lookup os rec d
     else ret ())"
  using assms peer_message_control [OF assms]
  by (auto simp: fun_eq_iff receive_handler_def handle_peer_def cmd_simps peer_message_def truthy_def)

text \<open>The flag that decides, by the order of the tests.\<close>

definition kind_join :: "PeerProtocol \<Rightarrow> bool" where
  "kind_join d \<longleftrightarrow> pp_finger d = 0 \<and> pp_fack d = 0 \<and> pp_join d \<noteq> 0"

definition kind_notify :: "PeerProtocol \<Rightarrow> bool" where
  "kind_notify d \<longleftrightarrow> pp_finger d = 0 \<and> pp_fack d = 0 \<and> pp_join d = 0 \<and> pp_notify d \<noteq> 0"

definition kind_stabilize :: "PeerProtocol \<Rightarrow> bool" where
  "kind_stabilize d \<longleftrightarrow> pp_finger d = 0 \<and> pp_fack d = 0 \<and> pp_join d = 0 \<and> pp_notify d = 0 \<and>
     pp_stabilize d \<noteq> 0"

definition kind_reply :: "PeerProtocol \<Rightarrow> bool" where
  "kind_reply d \<longleftrightarrow> pp_finger d = 0 \<and> pp_fack d = 0 \<and> pp_join d = 0 \<and> pp_notify d = 0 \<and>
     pp_stabilize d = 0 \<and> pp_reply d \<noteq> 0"

definition kind_lookup :: "PeerProtocol \<Rightarrow> bool" where
  "kind_lookup d \<longleftrightarrow> pp_finger d = 0 \<and> pp_fack d = 0 \<and> pp_join d = 0 \<and> pp_notify d = 0 \<and>
     pp_stabilize d = 0 \<and> pp_reply d = 0 \<and> pp_lookup d \<noteq> 0"

lemma dispatch_kinds:
  assumes "peer_message rec d"
  shows "kind_join d \<Longrightarrow> receive_handler os fuel rec fd = handle_join os rec d"
    and "kind_notify d \<Longrightarrow> receive_handler os fuel rec fd = handle_notify d"
    and "kind_stabilize d \<Longrightarrow> receive_handler os fuel rec fd = handle_stabilize os d"
    and "kind_reply d \<Longrightarrow> receive_handler os fuel rec fd = handle_reply os fuel d"
    and "kind_lookup d \<Longrightarrow> receive_handler os fuel rec fd = handle_lookup os rec d"
  by (simp_all add: peer_dispatch [OF assms] kind_join_def kind_notify_def kind_stabilize_def
      kind_reply_def kind_lookup_def)

section \<open>Relaying\<close>

definition posted :: "os \<Rightarrow> Peer \<Rightarrow> bytes \<Rightarrow> ('z net_scheme, int) cmd" where
  "posted os p bs = post os (Some (inet_ntop4 (peer_ip p))) (Some (dec_string (unat (peer_port p)))) bs"

lemma net_only_posted [net_intros]: "net_only (posted os p bs)"
  unfolding posted_def by (intro net_intros)

lemma relay_run:
  assumes "pi_next (peer_info s) = Some n" "peer_port n < 10000"
    and "rs_data rec = Obj (bs @ r)" "unat (rs_data_length rec) = length bs"
  shows "relay_to_next os rec s = bindc (posted os n bs) (\<lambda>_. ret ()) s"
  using assms by (simp add: relay_to_next_def cmd_simps int_port_to_str_cases direct_send_post posted_def)

lemma post_changes_trace: "\<exists>h r. post os a q bs s = (Inr r, s\<lparr>trace := trace s @ h\<rparr>)"
  using post_fds [of os a q bs s] by auto

lemma notify_total:
  assumes "room os" "port < 10000"
  shows "\<exists>h. notify os ip port (Some p) s = (Inr (), s\<lparr>trace := trace s @ h\<rparr>)"
proof -
  let ?w = "peer_wire (with_node p ((os_junk os (trace s))\<lparr>pp_control := CONTROL_BIT, pp_notify := NOTIFY_BIT\<rparr>))"
  obtain h r where "post os (Some (inet_ntop4 ip)) (Some (dec_string (unat port))) ?w s =
      (Inr r, s\<lparr>trace := trace s @ h\<rparr>)"
    using post_changes_trace by blast
  then show ?thesis
    using notify_msg.snd_posts [OF assms(2,1), of ip p s]
    by (intro exI [of _ h]) (simp add: cmd_simps)
qed

section \<open>Messages to evaluate the properties on\<close>

definition peer_msg :: "PeerProtocol \<Rightarrow> Response" where
  "peer_msg m = \<lparr>rs_data_length = 11, rs_data = Obj (peer_wire m @ [0, 0]), rs_status_code = Some 200\<rparr>"

definition about :: "Peer \<Rightarrow> PeerProtocol" where
  "about p = with_node p (zero_PeerProtocol\<lparr>pp_control := CONTROL_BIT\<rparr>)"

lemma peer_msg_message:
  assumes "wf_PeerProtocol m" "pp_control m = CONTROL_BIT"
  shows "peer_message (peer_msg m) m"
proof -
  have "peer_header m AND CONTROL_BIT = CONTROL_BIT" using peer_header_bits(1) [of m] assms(2) by simp
  then have "peer_header m AND CONTROL_BIT \<noteq> 0" by (simp add: CONTROL_BIT_def)
  from peer_message_wire [OF _ _ this, of "peer_msg m" "[0, 0]"] show ?thesis
    by (simp add: peer_msg_def wf_with_header assms(1))
qed

lemma about_simps [simp]:
  "pp_control (about p) = CONTROL_BIT" "pp_finger (about p) = 0" "pp_fack (about p) = 0"
  "pp_join (about p) = 0" "pp_notify (about p) = 0" "pp_stabilize (about p) = 0"
  "pp_reply (about p) = 0" "pp_lookup (about p) = 0" "pp_hashId (about p) = 0"
  "pp_nodeId (about p) = peer_id p" "pp_nodeIp (about p) = peer_ip p" "pp_nodePort (about p) = peer_port p"
  by (simp_all add: about_def with_node_def zero_PeerProtocol_def)

lemma room_lan [simp]: "room lan_os"
  by (simp add: room_def lan_os_def idle_os_def)

section \<open>Properties of the peer messages\<close>

text \<open>C21: a reply to a lookup ends the process: no request is ever queued, so that the handler
  decodes the request it believes to answer from a null pointer, whatever the reply says.\<close>

theorem reply_crashes:
  assumes "peer_message rec d" and "kind_reply d"
  shows "receive_handler os fuel rec fd s = (Inl NullDeref, s)"
proof -
  have "decode_clientProtocol Null z = Inl NullDeref" for z
    by (simp add: decode_clientProtocol_def load8_def)
  then show ?thesis
    using dispatch_kinds(4) [OF assms] by (simp add: handle_reply_def cmd_simps macro_queue.pop_run)
qed

theorem reply_crashes_witness:
  "receive_handler lan_os 1 (peer_msg ((about (node 3006 15000))\<lparr>pp_reply := REPLY_BIT\<rparr>)) 7
     (at_ring (node 3005 10000) None None) = (Inl NullDeref, at_ring (node 3005 10000) None None)"
  by (rule reply_crashes [OF peer_msg_message])
    (simp_all add: wf_PeerProtocol_def kind_reply_def peer_bits)

text \<open>
  A notification that reaches a peer which has no next peer yet ends the process.\<close>

theorem notify_without_next_crashes:
  assumes "peer_message rec d" and "kind_notify d" and "pi_next (peer_info s) = None"
  shows "receive_handler os fuel rec fd s = (Inl NullDeref, s)"
  using dispatch_kinds(2) [OF assms(1,2)] assms(3) by (simp add: handle_notify_def cmd_simps)

theorem notify_without_next_crashes_witness:
  "receive_handler lan_os 1 (peer_msg ((about (node 3006 15000))\<lparr>pp_notify := NOTIFY_BIT\<rparr>)) 7
     (at_ring (node 3005 10000) None None) = (Inl NullDeref, at_ring (node 3005 10000) None None)"
  by (rule notify_without_next_crashes [OF peer_msg_message])
    (simp_all add: wf_PeerProtocol_def kind_notify_def peer_bits)

text \<open>
  A peer that is alone takes the first joining peer as its next and previous peer and
  notifies it about itself.\<close>

theorem first_join_closes_ring:
  assumes "peer_message rec d" and "kind_join d" and "pi_next (peer_info s) = None"
  shows "receive_handler os fuel rec fd s =
    notify os (pp_nodeIp d) (pp_nodePort d) (pi_this (peer_info s))
      (s\<lparr>peer_info := (peer_info s)\<lparr>pi_next := Some (assign_node d zero_Peer),
         pi_prev := Some (assign_node d zero_Peer)\<rparr>\<rparr>)"
  using dispatch_kinds(1) [OF assms(1,2)] assms(3) by (simp add: handle_join_def cmd_simps)

theorem first_join_closes_ring_witness:
  "let d = (about (node 3006 15000))\<lparr>pp_join := JOIN_BIT\<rparr>; s = at_ring (node 3005 10000) None None in
   receive_handler lan_os 1 (peer_msg d) 7 s =
    notify lan_os (pp_nodeIp d) (pp_nodePort d) (pi_this (peer_info s))
      (s\<lparr>peer_info := (peer_info s)\<lparr>pi_next := Some (assign_node d zero_Peer),
         pi_prev := Some (assign_node d zero_Peer)\<rparr>\<rparr>)"
  unfolding Let_def
  by (rule first_join_closes_ring [OF peer_msg_message])
    (simp_all add: wf_PeerProtocol_def kind_join_def peer_bits)

lemma join_message:
  assumes "rs_data rec = Obj (peer_wire (with_node q (junk\<lparr>pp_join := JOIN_BIT, pp_control := CONTROL_BIT\<rparr>)) @ r)"
    and "2 \<le> length r" and "pp_finger junk = 0" "pp_fack junk = 0" "pp_notify junk = 0"
      "pp_stabilize junk = 0" "pp_reply junk = 0" "pp_lookup junk = 0"
  shows "\<exists>d. peer_message rec d \<and> kind_join d \<and> pp_hashId d = pp_hashId junk \<and>
    assign_node d p = p\<lparr>peer_ip := peer_ip q, peer_port := peer_port q, peer_id := peer_id q\<rparr> \<and>
    pp_nodeIp d = peer_ip q \<and> pp_nodePort d = peer_port q"
proof -
  let ?m = "with_node q (junk\<lparr>pp_join := JOIN_BIT, pp_control := CONTROL_BIT\<rparr>)"
  have h: "peer_header ?m = CONTROL_BIT OR JOIN_BIT"
    using assms(3-8) by (simp add: peer_header_def with_node_def)
  have "peer_header ?m AND CONTROL_BIT \<noteq> 0" unfolding h by (simp add: peer_bits)
  from peer_message_wire [OF assms(1,2) this]
  have m: "peer_message rec (with_header (CONTROL_BIT OR JOIN_BIT) ?m)" unfolding h .
  show ?thesis
    using m by (intro exI [of _ "with_header (CONTROL_BIT OR JOIN_BIT) ?m"])
      (simp add: kind_join_def with_header_def peer_bits assign_node_def with_node_def)
qed

text \<open>C20: in a ring the place of a joining peer is decided by the hash identifier of its message,
  a field that \<^verbatim>\<open>join\<close> never sets: whatever identifier the joining peer \<open>q\<close> has, it becomes
  the previous peer exactly when the garbage lies between the two.\<close>

theorem join_decided_by_garbage:
  assumes "rs_data rec = Obj (peer_wire (with_node q (junk\<lparr>pp_join := JOIN_BIT, pp_control := CONTROL_BIT\<rparr>)) @ r)"
    and "2 \<le> length r" and "pp_finger junk = 0" "pp_fack junk = 0" "pp_notify junk = 0"
      "pp_stabilize junk = 0" "pp_reply junk = 0" "pp_lookup junk = 0"
    and "pi_this (peer_info s) = Some t" "pi_next (peer_info s) = Some n" "pi_prev (peer_info s) = Some p"
  shows "receive_handler os fuel rec fd s =
    (if peer_id p < pp_hashId junk \<and> pp_hashId junk < peer_id t
     then notify os (peer_ip q) (peer_port q) (Some t)
       (s\<lparr>peer_info := (peer_info s)\<lparr>pi_prev := Some (p\<lparr>peer_ip := peer_ip q, peer_port := peer_port q,
            peer_id := peer_id q\<rparr>)\<rparr>\<rparr>)
     else relay_to_next os rec s)"
proof -
  obtain d where d: "peer_message rec d" "kind_join d" "pp_hashId d = pp_hashId junk"
    "assign_node d p = p\<lparr>peer_ip := peer_ip q, peer_port := peer_port q, peer_id := peer_id q\<rparr>"
    "pp_nodeIp d = peer_ip q" "pp_nodePort d = peer_port q"
    using join_message [OF assms(1-8)] by blast
  show ?thesis
    using dispatch_kinds(1) [OF d(1,2)] d(3-6) assms(9-11)
    by (simp add: handle_join_def cmd_simps between_Some)
qed

theorem join_decided_by_garbage_witness:
  "let junk = zero_PeerProtocol\<lparr>pp_hashId := 7\<rparr>; q = node 3007 12000; t = node 3005 10000;
       n = node 3006 15000; s = at_ring t (Some n) (Some n) in
   receive_handler lan_os 1 (peer_msg (with_node q (junk\<lparr>pp_join := JOIN_BIT, pp_control := CONTROL_BIT\<rparr>))) 7 s =
    (if peer_id n < pp_hashId junk \<and> pp_hashId junk < peer_id t
     then notify lan_os (peer_ip q) (peer_port q) (Some t)
       (s\<lparr>peer_info := (peer_info s)\<lparr>pi_prev := Some (n\<lparr>peer_ip := peer_ip q, peer_port := peer_port q,
            peer_id := peer_id q\<rparr>)\<rparr>\<rparr>)
     else relay_to_next lan_os (peer_msg (with_node q
       (junk\<lparr>pp_join := JOIN_BIT, pp_control := CONTROL_BIT\<rparr>))) s)"
  unfolding Let_def
  by (rule join_decided_by_garbage [where r = "[0, 0]"]) (simp_all add: peer_msg_def zero_PeerProtocol_def)





end
