(* ===== verification/Concurrent_Task.thy ===== *)
theory Concurrent_Task
  imports Peer_Ring
begin

text \<open>
  \<^verbatim>\<open>src/src/helper/max/concurrent_task.c\<close>: the body of the stabilizer thread. The thread is
  never started (the call is commented out in \<^verbatim>\<open>peer.c\<close>); the body is modelled as written.
\<close>

section \<open>The thread\<close>

record Stabilizer_ctrl_block =
  ctrl_control :: "8 word"
  ctrl_current_Peer :: PeerInfo

text \<open>The memory of a \<^verbatim>\<open>PeerProtocol\<close>: eight flag bytes, the fields in the byte order of the
  machine, and two bytes of padding.\<close>

definition struct_image :: "PeerProtocol \<Rightarrow> bytes" where
  "struct_image p = [pp_control p, pp_finger p, pp_fack p, pp_join p, pp_notify p, pp_stabilize p,
     pp_reply p, pp_lookup p] @ le16 (pp_hashId p) @ le16 (pp_nodeId p) @ le32 (pp_nodeIp p)
     @ le16 (pp_nodePort p) @ [0, 0]"

text \<open>One round; \<open>len\<close> is what the uninitialised length of the local \<^verbatim>\<open>Response\<close> holds.\<close>

definition stabilizer_round ::
    "os \<Rightarrow> nat \<Rightarrow> Stabilizer_ctrl_block \<Rightarrow> ('z net_scheme, unit) cmd" where
  "stabilizer_round os len block =
     seqc (log_event (Ev_sleep 2))
     (bindc (deref_peer (pi_this (ctrl_current_Peer block))) (\<lambda>this.
      bindc (liftr (int_addr_to_str (peer_ip this))) (\<lambda>currentNodeIP.
      bindc (liftr (int_port_to_str (peer_port this))) (\<lambda>currentNodePort.
      bindc (local_message os) (\<lambda>junk.
      bindc (liftr (make_peerProtocol junk 0 0 0 (pi_this (ctrl_current_Peer block))))
        (\<lambda>stabilize_data.
      let stabilize_data = stabilize_data\<lparr>pp_stabilize := 1\<rparr> in
      bindc (direct_send os (Some currentNodeIP) (Some currentNodePort)
               (Obj (struct_image stabilize_data)) len) (\<lambda>_.
      ret ())))))))"

text \<open>The loop ends when another thread clears \<^verbatim>\<open>control\<close>; no code that runs does.\<close>

fun stabilizer_loop :: "os \<Rightarrow> nat \<Rightarrow> nat \<Rightarrow> Stabilizer_ctrl_block \<Rightarrow> ('z net_scheme, unit) cmd" where
  "stabilizer_loop os len 0 block = failc OutOfFuel"
| "stabilizer_loop os len (Suc fuel) block =
     (if ctrl_control block \<noteq> 0
      then seqc (stabilizer_round os len block) (stabilizer_loop os len fuel block)
      else ret ())"

definition Stabilize_caller ::
    "os \<Rightarrow> nat \<Rightarrow> nat \<Rightarrow> Stabilizer_ctrl_block \<Rightarrow> ('z net_scheme, unit) cmd" where
  "Stabilize_caller os len fuel block =
     (let block = block\<lparr>ctrl_control := 1\<rparr> in stabilizer_loop os len fuel block)"

lemma length_struct_image [simp]: "length (struct_image p) = 20"
  by (simp add: struct_image_def)

section \<open>Properties of the stabilizer\<close>



text \<open>
  A peer that receives such a struct takes it for a peer message without any request: the
  stabilize flag is a byte of its own in memory, not the bit of the header, and the message is
  ignored.\<close>

theorem stabilizer_message_ignored:
  assumes "rs_data rec = Obj (struct_image m @ r)" and "pp_control m = CONTROL_BIT"
  shows "receive_handler os fuel rec fd s = (Inr (), s)"
proof -
  obtain d where d: "decode_peerProtocol (rs_data rec) zero_PeerProtocol = Inr d"
    "pp_control d = CONTROL_BIT AND CONTROL_BIT" "pp_finger d = CONTROL_BIT AND FINGER_BIT"
    "pp_fack d = CONTROL_BIT AND FACK_BIT" "pp_join d = CONTROL_BIT AND JOIN_BIT"
    "pp_notify d = CONTROL_BIT AND NOTIFY_BIT" "pp_stabilize d = CONTROL_BIT AND STABILIZE_BIT"
    "pp_reply d = CONTROL_BIT AND REPLY_BIT" "pp_lookup d = CONTROL_BIT AND LOOKUP_BIT"
  proof -
    have "load8 (rs_data rec) = Inr CONTROL_BIT"
      using assms by (simp add: struct_image_def mem_simps)
    moreover have "20 \<le> length (struct_image m @ r)" by simp
    ultimately show ?thesis
      using that unfolding assms(1)
      by (simp add: decode_peerProtocol_def load16_def load32_def Let_def)
  qed
  have "peer_message rec d" using d(1,2) by (simp add: peer_message_def peer_bits)
  from peer_dispatch [OF this] show ?thesis using d(2-9) by (simp add: peer_bits)
qed

theorem stabilizer_message_ignored_witness:
  "receive_handler lan_os 1 \<lparr>rs_data_length = 20, rs_data = Obj (struct_image
      (zero_PeerProtocol\<lparr>pp_control := CONTROL_BIT, pp_stabilize := 1\<rparr>) @ []), rs_status_code = Some 200\<rparr> 7
    (at_ring (node 3005 10000) None None) = (Inr (), at_ring (node 3005 10000) None None)"
  by (rule stabilizer_message_ignored [where r = "[]" and
        m = "zero_PeerProtocol\<lparr>pp_control := CONTROL_BIT, pp_stabilize := 1\<rparr>"]) simp_all

end
