(* ===== verification/Peer_Loop.thy ===== *)
theory Peer_Loop
  imports Peer_Ring
begin

text \<open>
  The main loop of \<^verbatim>\<open>peer.c\<close>: the states a running peer can reach, the invariant they
  satisfy, and what happens after the first connection.
\<close>

section \<open>Invariants of runs that return\<close>

definition safe :: "('s \<Rightarrow> bool) \<Rightarrow> ('s, 'a) cmd \<Rightarrow> bool" where
  "safe I m \<longleftrightarrow> (\<forall>s x t. I s \<longrightarrow> m s = (Inr x, t) \<longrightarrow> I t)"

named_theorems safe_intros \<open>compositional rules for safety of commands\<close>

lemma safeI: "(\<And>s x t. I s \<Longrightarrow> m s = (Inr x, t) \<Longrightarrow> I t) \<Longrightarrow> safe I m"
  unfolding safe_def by blast

lemma safeD: "safe I m \<Longrightarrow> I s \<Longrightarrow> m s = (Inr x, t) \<Longrightarrow> I t"
  unfolding safe_def by blast

lemma safe_basic [safe_intros]: "safe I (ret x)" "safe I (failc f)" "safe I (liftr r)" "safe I getc"
  by (auto simp: safe_def)

lemma safe_bindc [safe_intros]:
  assumes "safe I m" "\<And>x. safe I (k x)" shows "safe I (bindc m k)"
  by (rule safeI) (metis assms bindc_eqD safeD)

lemma safe_seqc [safe_intros]: "safe I m \<Longrightarrow> safe I n \<Longrightarrow> safe I (seqc m n)"
  by (simp add: seqc_def safe_bindc)

lemma safe_if [safe_intros]: "(b \<Longrightarrow> safe I m) \<Longrightarrow> (\<not> b \<Longrightarrow> safe I n) \<Longrightarrow> safe I (if b then m else n)"
  by simp

lemma safe_option [safe_intros]:
  "safe I m \<Longrightarrow> (\<And>y. safe I (k y)) \<Longrightarrow> safe I (case x of None \<Rightarrow> m | Some y \<Rightarrow> k y)"
  by (cases x) simp_all

lemma safe_Let [safe_intros]: "safe I (k x) \<Longrightarrow> safe I (let y = x in k y)"
  by simp

lemma safe_keeps: "keeps I m \<Longrightarrow> safe I m"
  by (rule safeI) (metis keepsD snd_conv)

section \<open>The database after successful operations\<close>

lemma get_element_reads:
  assumes "get_element key n db = (Inr r, db')"
  shows "db' = db \<and> (db_table db = None \<longrightarrow> r = None) \<and>
    (db_table db \<noteq> None \<longrightarrow> (\<exists>k. read_bytes key (unat n) = Inr k))"
proof -
  from assms have f: "HASH_FIND (db_heap db) (db_table db) key (ucast n) = Inr r" "db' = db"
    by (auto simp: get_element_def cmd_simps Let_def split: sum.splits)
  show ?thesis
  proof (cases "db_table db")
    case None
    with f show ?thesis by (simp add: HASH_FIND_def)
  next
    case (Some t)
    with f(1) show ?thesis
      by (auto simp: f(2) HASH_FIND_def HASH_VALUE_def bindr_eq_Inr)
  qed
qed

lemma set_element_safe:
  assumes mem: "memory_bound can_alloc" shows "safe db_ok (set_element can_alloc key n p m)"
proof (rule safeI)
  fix db x db'
  assume ok: "db_ok db" and r: "set_element can_alloc key n p m db = (Inr x, db')"
  from r obtain found s db1 where g: "get_element key n db = (Inr found, db)"
    and a: "(case found of None \<Rightarrow> add_element can_alloc key n | Some s \<Rightarrow> ret s) db = (Inr s, db1)"
    and v: "store_value s p m db1 = (Inr x, db')"
    unfolding set_element_def by (elim bindc_eqD) (metis get_element_reads)
  obtain k where k: "read_bytes key (unat n) = Inr k"
  proof (cases "db_table db")
    case None
    then have "found = None" using get_element_reads [OF g] by simp
    with a that show ?thesis
      by (auto simp: add_element_def cmd_simps split: sum.splits)
  next
    case (Some t)
    then show ?thesis using get_element_reads [OF g] that by auto
  qed
  obtain w where w: "read_bytes p (unat m) = Inr w"
    using v by (auto simp: store_value_def cmd_simps split: sum.splits)
  from kv.update_law [OF ok mem k w] r show "db_ok db'" by auto
qed

lemma delete_element_safe: "safe db_ok (delete_element key n)"
proof (rule safeI)
  fix db x db'
  assume ok: "db_ok db" and r: "delete_element key n db = (Inr x, db')"
  from r obtain found where g: "get_element key n db = (Inr found, db)"
    unfolding delete_element_def by (elim bindc_eqD) (metis get_element_reads)
  have "db_table db \<noteq> None"
  proof
    assume "db_table db = None"
    with r g get_element_reads [OF g] show False
      by (simp add: delete_element_def cmd_simps HASH_DELETE_def)
  qed
  then obtain k where k: "read_bytes key (unat n) = Inr k"
    using get_element_reads [OF g] by blast
  show "db_ok db'"
  proof (cases "db_map db k = None")
    case True
    then show ?thesis using kv.remove_missing [OF ok k] r by simp
  next
    case False
    then show ?thesis using kv.remove_law [OF ok k] r by auto
  qed
qed

section \<open>The invariant\<close>

text \<open>The peer knows itself, is no base and has no fingers; it has a previous peer whenever it
  has a next one; both queues are empty; the database is well formed.\<close>

definition ring_ok :: "PeerInfo \<Rightarrow> bool" where
  "ring_ok i \<longleftrightarrow> (\<exists>t. pi_this i = Some t \<and> peer_is_base t = 0 \<and> peer_next_finger t = None) \<and>
     (pi_next i \<noteq> None \<longrightarrow> pi_prev i \<noteq> None)"

definition peer_inv :: "peer_state \<Rightarrow> bool" where
  "peer_inv s \<longleftrightarrow> ring_ok (peer_info s) \<and> queue_is_empty (client_requests s) \<and>
     queue_is_empty (sockets s) \<and> db_ok (peer_db s)"

lemma peer_inv_trace [simp]: "peer_inv (s\<lparr>trace := h\<rparr>) = peer_inv s"
  by (simp add: peer_inv_def)

lemma safe_net: "net_only m \<Longrightarrow> safe peer_inv m"
  by (rule safe_keeps [OF net_only_keeps]) simp_all

lemma safe_in_db [safe_intros]: "safe db_ok m \<Longrightarrow> safe peer_inv (in_db m)"
  by (auto simp: safe_def in_db_run peer_inv_def) (metis prod.collapse)

lemma safe_in_queues [safe_intros]:
  "safe peer_inv (in_requests (queue_append p))" "safe peer_inv (in_requests (queue_pop p))"
  "safe peer_inv (in_requests (queue_peek p))"
  "safe peer_inv (in_sockets (queue_append x))" "safe peer_inv (in_sockets (queue_pop x))"
  by (auto simp: safe_def cmd_simps macro_queue.append_run macro_queue.pop_run macro_queue.peek_run)

lemma safe_info [safe_intros]: "safe peer_inv info"
  by (auto simp: safe_def cmd_simps)

lemma safe_set_info: "(\<And>i. ring_ok i \<Longrightarrow> ring_ok (f i)) \<Longrightarrow> safe peer_inv (set_info f)"
  by (auto simp: safe_def cmd_simps peer_inv_def)

lemmas safe_calls [safe_intros] = net_only_send [THEN safe_net]
  net_only_setup_as_client [THEN safe_net] net_only_setup_as_server [THEN safe_net]
  net_only_get_new_connection [THEN safe_net] net_only_direct_receive [THEN safe_net]
  net_only_redirect [THEN safe_net] net_only_direct_send [THEN safe_net]
  net_only_messages [THEN safe_net] net_only_senders [THEN safe_net]
  net_only_buildfinger [THEN safe_net]

lemma safe_receive [safe_intros]:
  "(\<And>r. safe peer_inv (cb r fd)) \<Longrightarrow> safe peer_inv (receive os fuel fd cb)"
  unfolding receive_def by (intro safe_intros)

lemma safe_get_element [safe_intros]: "safe db_ok (get_element key n)"
  by (rule safeI) (use get_element_reads in blast)

lemma ring_ok_set_prev: "ring_ok i \<Longrightarrow> ring_ok (i\<lparr>pi_prev := Some p\<rparr>)"
  by (simp add: ring_ok_def)

lemma safe_set_prev [safe_intros]: "safe peer_inv (set_info (\<lambda>i. i\<lparr>pi_prev := Some p\<rparr>))"
  by (rule safe_set_info) (rule ring_ok_set_prev)

lemma safe_send_ack [safe_intros]: "safe peer_inv (send_ack flag fd)"
  unfolding send_ack_def by (intro safe_intros)

lemma safe_respond [safe_intros]:
  assumes "memory_bound (os_can_alloc os)"
  shows "safe peer_inv (respond_as_responsible_peer os c fd)"
  unfolding respond_as_responsible_peer_def respond_get_def respond_set_def respond_delete_def
  by (intro safe_intros set_element_safe [OF assms] delete_element_safe)

lemma safe_next_job [safe_intros]: "safe peer_inv (next_job_in_queue os)"
  unfolding next_job_in_queue_def by (intro safe_intros)

lemma safe_relay [safe_intros]: "safe peer_inv (relay_to_next os rec)"
  unfolding relay_to_next_def by (intro safe_intros)

lemma safe_join [safe_intros]: "safe peer_inv (handle_join os rec d)"
proof (rule safeI)
  fix s x t
  assume i: "peer_inv s" and r: "handle_join os rec d s = (Inr x, t)"
  show "peer_inv t"
  proof (cases "pi_next (peer_info s)")
    case None
    let ?s = "s\<lparr>peer_info := (peer_info s)\<lparr>pi_next := Some (assign_node d zero_Peer),
         pi_prev := Some (assign_node d zero_Peer)\<rparr>\<rparr>"
    have run: "notify os (pp_nodeIp d) (pp_nodePort d) (pi_this (peer_info s)) ?s = (Inr x, t)"
      using r None by (simp add: handle_join_def cmd_simps)
    have inv: "peer_inv ?s" using i by (simp add: peer_inv_def ring_ok_def)
    have "safe peer_inv (notify os (pp_nodeIp d) (pp_nodePort d) (pi_this (peer_info s)))"
      by (intro safe_intros)
    from safeD [OF this inv run] show ?thesis .
  next
    case (Some n)
    let ?m = "bindc (liftr (id_is_between (pp_hashId d) (pi_this (peer_info s)) (pi_prev (peer_info s)))) (\<lambda>here.
       if here then
         bindc (deref_peer (pi_prev (peer_info s))) (\<lambda>prev.
         seqc (set_info (\<lambda>i. i\<lparr>pi_prev := Some (assign_node d prev)\<rparr>))
         (notify os (pp_nodeIp d) (pp_nodePort d) (pi_this (peer_info s))))
       else relay_to_next os rec)"
    have run: "?m s = (Inr x, t)" using r Some by (simp add: handle_join_def bindc_run info_run)
    have "safe peer_inv ?m" by (intro safe_intros)
    from safeD [OF this i run] show ?thesis .
  qed
qed

lemma safe_notify [safe_intros]: "safe peer_inv (handle_notify d)"
  by (rule safeI) (auto simp: handle_notify_def cmd_simps peer_inv_def ring_ok_def deref_peer_def
      split: option.splits)

lemma safe_peer [safe_intros]: "safe peer_inv (handle_peer os fuel rec)"
  unfolding handle_peer_def handle_finger_def handle_stabilize_def handle_reply_def handle_lookup_def
  by (intro safe_intros)

lemma safe_client [safe_intros]:
  "memory_bound (os_can_alloc os) \<Longrightarrow> safe peer_inv (handle_client os fuel rec fd)"
  unfolding handle_client_def forward_to_next_def queue_request_def by (intro safe_intros)

lemma safe_handler [safe_intros]:
  "memory_bound (os_can_alloc os) \<Longrightarrow> safe peer_inv (receive_handler os fuel rec fd)"
  unfolding receive_handler_def by (intro safe_intros)

lemma safe_serve_round: "memory_bound (os_can_alloc os) \<Longrightarrow> safe peer_inv (serve_round os fuel fd)"
  unfolding serve_round_def by (intro safe_intros)

section \<open>Reachable states\<close>

inductive reach :: "os \<Rightarrow> nat \<Rightarrow> peer_state \<Rightarrow> bool" for os :: os and fuel :: nat where
  started: "peer_init os argv start_state = (Inr fd, s) \<Longrightarrow> reach os fuel s"
| served: "reach os fuel s \<Longrightarrow> serve_round os fuel fd s = (Inr c, t) \<Longrightarrow> reach os fuel t"

lemma peer_self_run:
  assumes "peer_self argv start_state = (Inr q, s)"
  shows "peer_inv s"
  using assms
  by (auto simp: peer_self_def cmd_simps Let_def peer_inv_def ring_ok_def zero_Peer_def
      start_state_def zero_PeerInfo_def queue_is_empty_def QUEUE_def split: sum.splits)

lemma safe_peer_join [safe_intros]: "safe peer_inv (peer_join os argv)"
proof -
  have "safe peer_inv (set_info (\<lambda>i. i\<lparr>pi_join := Some j\<rparr>))" for j
    by (rule safe_set_info) (simp add: ring_ok_def)
  then show ?thesis unfolding peer_join_def by (intro safe_intros)
qed

lemma peer_init_inv:
  assumes "peer_init os argv start_state = (Inr fd, s)" shows "peer_inv s"
proof -
  from assms obtain q u where "peer_self argv start_state = (Inr q, u)"
    and r: "bindc (setup_as_server os q) (\<lambda>sock_fd. if length argv \<le> 4 then ret sock_fd
      else seqc (peer_join os argv) (ret sock_fd)) u = (Inr fd, s)"
    unfolding peer_init_def by (rule bindc_eqD)
  then have inv: "peer_inv u" by (simp add: peer_self_run)
  have "safe peer_inv (bindc (setup_as_server os q) (\<lambda>sock_fd. if length argv \<le> 4
      then ret sock_fd else seqc (peer_join os argv) (ret sock_fd)))"
    by (intro safe_intros)
  from safeD [OF this inv r] show ?thesis .
qed

lemma reach_inv:
  assumes "reach os fuel s" "memory_bound (os_can_alloc os)"
  shows "peer_inv s"
  using assms(1)
proof (induction rule: reach.induct)
  case (started argv fd s)
  then show ?case by (rule peer_init_inv)
next
  case (served s fd c t)
  then show ?case using safeD [OF safe_serve_round [OF assms(2)]] by blast
qed

inductive_cases reachE: "reach os fuel s"

section \<open>Invariants of the history that calls do not touch\<close>

text \<open>What the functions of \<^verbatim>\<open>network.c\<close> that neither listen nor send rely on to keep a property
  of the history: that it survives every other call.\<close>

definition plain_call :: "event \<Rightarrow> bool" where
  "plain_call e \<longleftrightarrow> (case e of Ev_listen _ _ \<Rightarrow> False | Ev_send _ _ \<Rightarrow> False | Ev_send_efault _ \<Rightarrow> False
     | _ \<Rightarrow> True)"

lemma plain_calls [simp]:
  "plain_call (Ev_getaddrinfo a p)" "plain_call (Ev_socket x d)" "plain_call (Ev_connect d x r)"
  "plain_call (Ev_setsockopt d r)" "plain_call (Ev_bind d x r)" "plain_call (Ev_sigaction r)"
  "plain_call (Ev_accept d r)" "plain_call (Ev_close d)" "plain_call (Ev_recv d m)"
  "plain_call (Ev_realloc n)"
  by (simp_all add: plain_call_def)

lemma keeps_prod [keeps_intros]: "(\<And>a b. keeps I (k a b)) \<Longrightarrow> keeps I (case x of (a, b) \<Rightarrow> k a b)"
  by (cases x) simp

locale call_invariant =
  fixes I :: "event list \<Rightarrow> bool"
  assumes plain: "plain_call e \<Longrightarrow> I h \<Longrightarrow> I (h @ [e])"
begin

abbreviation holds :: "'z net_scheme \<Rightarrow> bool" where
  "holds s \<equiv> I (trace s)"

lemma log: "plain_call e \<Longrightarrow> keeps holds (log_event e)"
  by (rule keepsI) (simp add: cmd_simps plain)

lemma call: "(\<And>x. plain_call (ev x)) \<Longrightarrow> keeps holds (sys a ev)"
  by (rule keepsI) (simp add: cmd_simps plain)

lemma connect_first: "keeps holds (connect_first os ps)"
proof (induction ps)
  case (Cons p ps)
  show ?case unfolding connect_first.simps by (intro log call keeps_intros Cons) simp_all
qed (simp only: connect_first.simps keeps_basic)

lemma setup_as_client: "keeps holds (setup_as_client os a q)"
  unfolding setup_as_client_def by (intro log call keeps_intros keeps_prod connect_first) simp_all

lemma bind_first: "keeps holds (bind_first os ps)"
proof (induction ps)
  case (Cons p ps)
  show ?case unfolding bind_first.simps by (intro log call keeps_intros Cons) simp_all
qed (simp only: bind_first.simps keeps_basic)

lemma direct_receive: "keeps holds (direct_receive os fuel d status)"
proof (induction fuel arbitrary: status)
  case (Suc fuel)
  show ?case unfolding direct_receive.simps by (intro log call keeps_intros Suc) simp_all
qed (simp only: direct_receive.simps keeps_basic)

lemma accept_loop: "keeps holds (accept_loop os fuel d)"
proof (induction fuel)
  case (Suc fuel)
  show ?case unfolding accept_loop.simps
    by (intro log call keeps_intros keeps_prod Suc) (simp split: prod.splits)
qed (simp only: accept_loop.simps keeps_basic)

lemma get_new_connection: "keeps holds (get_new_connection os fuel d)"
  unfolding get_new_connection_def by (intro log call keeps_intros keeps_prod accept_loop) simp

end

section \<open>The listening socket is never opened again\<close>

abbreviation deaf :: "int \<Rightarrow> 'z net_scheme \<Rightarrow> bool" where
  "deaf fd s \<equiv> \<not> listening (trace s) fd"

interpretation deaf_calls: call_invariant "\<lambda>h. \<not> listening h fd" for fd
  by unfold_locales (auto simp: plain_call_def split: event.splits if_splits)

lemma deaf_send [keeps_intros]: "keeps (deaf fd) (send d p n)"
proof -
  have "keeps (deaf fd) (log_event (Ev_send d bs))" "keeps (deaf fd) (log_event (Ev_send_efault d))" for bs
    by (simp_all add: keeps_def cmd_simps)
  then show ?thesis unfolding send_def by (intro keeps_intros)
qed

lemmas deaf_network [keeps_intros] = deaf_calls.setup_as_client deaf_calls.direct_receive

lemma deaf_redirect [keeps_intros]: "keeps (deaf fd) (redirect os fuel a b)"
  unfolding redirect_def by (intro keeps_intros)

lemma deaf_direct_send [keeps_intros]: "keeps (deaf fd) (direct_send os a q d n)"
  unfolding direct_send_def by (intro keeps_intros)

lemma deaf_messages [keeps_intros]:
  "keeps I (deref_peer q)" "keeps I (encode_peer os m)" "keeps I (encode_client os c)"
  "keeps I (local_message os)"
  unfolding deref_peer_def encode_peer_def encode_client_def local_message_def
  by (intro keeps_intros)+

lemma deaf_senders [keeps_intros]:
  "keeps (deaf fd) (notify os ip port q)" "keeps (deaf fd) (stabilize os ip port q)"
  "keeps (deaf fd) (send_found_lookup os m q)"
  unfolding notify_def stabilize_def send_found_lookup_def by (intro keeps_intros)+

lemma deaf_buildfinger [keeps_intros]: "keeps (deaf fd) (buildfinger os ip port q)"
proof -
  have "keeps (deaf fd) (buildfinger_loop os ip port p m is)" for p m "is"
  proof (induction "is" arbitrary: m)
    case (Cons i "is")
    show ?case unfolding buildfinger_loop.simps by (intro keeps_intros Cons)
  qed (simp only: buildfinger_loop.simps keeps_basic)
  then show ?thesis unfolding buildfinger_def by (intro keeps_intros)
qed

lemma deaf_parts [keeps_intros]:
  "keeps (deaf fd) (in_db m)" "keeps (deaf fd) (in_requests r)" "keeps (deaf fd) (in_sockets q)"
  "keeps I info" "keeps (deaf fd) (set_info f)" "keeps (deaf fd) (send_ack flag d)"
  by (auto simp: keeps_def peer_runs cmd_simps)

lemma deaf_respond [keeps_intros]: "keeps (deaf fd) (respond_as_responsible_peer os c d)"
  unfolding respond_as_responsible_peer_def respond_get_def respond_set_def respond_delete_def
  by (intro keeps_intros)

lemma deaf_next_job [keeps_intros]: "keeps (deaf fd) (next_job_in_queue os)"
  unfolding next_job_in_queue_def by (intro keeps_intros)

lemma deaf_relay [keeps_intros]: "keeps (deaf fd) (relay_to_next os rec)"
  unfolding relay_to_next_def by (intro keeps_intros)

lemma deaf_peer [keeps_intros]: "keeps (deaf fd) (handle_peer os fuel rec)"
  unfolding handle_peer_def handle_finger_def handle_join_def handle_notify_def
    handle_stabilize_def handle_reply_def handle_lookup_def
  by (intro keeps_intros)

lemma deaf_client [keeps_intros]: "keeps (deaf fd) (handle_client os fuel rec d)"
  unfolding handle_client_def forward_to_next_def queue_request_def by (intro keeps_intros)

lemma deaf_receive: "keeps (deaf fd) (receive os fuel d (receive_handler os fuel))"
  unfolding receive_def receive_handler_def by (intro keeps_intros)

lemma serve_round_deaf:
  assumes "serve_round os fuel fd s = (Inr c, t)" shows "deaf fd t"
proof -
  from assms obtain n u where n: "get_new_connection os fuel fd s = (Inr n, u)"
    and r: "receive os fuel n (receive_handler os fuel) u = (Inr c, t)"
    unfolding serve_round_def by (rule bindc_eqD)
  obtain h where "u = s\<lparr>trace := trace s @ h @ [Ev_accept fd n, Ev_close fd]\<rparr>"
    using get_new_connection_run [OF n] by blast
  moreover have "listening (h @ [Ev_accept fd n, Ev_close fd]) fd = False" for h
    using listening_snoc [of "h @ [Ev_accept fd n]" "Ev_close fd" fd] by simp
  ultimately have "deaf fd u" by (simp flip: append_assoc)
  from keepsD [OF deaf_receive this, of os fuel n] show ?thesis by (simp add: r)
qed

section \<open>Properties of the main program\<close>

text \<open>C4: every state a peer can reach, from any arguments and through any messages, satisfies
  the invariant: the peer knows itself, has no base flag and no fingers, has a previous peer
  whenever it has a next one, has empty queues and a well-formed database.\<close>

theorem peer_invariant:
  assumes "reach os fuel s" and "memory_bound (os_can_alloc os)"
  shows "peer_inv s"
  using assms by (rule reach_inv)

definition test_argv :: "string list" where
  "test_argv = [''peer'', ''127.0.0.1'', ''3005'', ''10000'']"

lemma peer_init_test: "\<exists>s. peer_init lan_os test_argv start_state = (Inr 5, s) \<and>
    pi_this (peer_info s) = Some (node 3005 10000) \<and> listening (trace s) 5"
proof -
  have a: "str_addr_to_int (Some ''127.0.0.1'') = Inr (of_le32 [127, 0, 0, 1])"
    "str_port_to_int (Some ''3005'') = Inr 3005" "str_port_to_int (Some ''10000'') = Inr 10000"
    "atoi ''3005'' = 3005" by code_simp+
  show ?thesis
    by (simp add: peer_init_def peer_self_def test_argv_def STR_ARG_def argv_at_def
        DEFAULT_STR_ARG_def cmd_simps a setup_as_server_def lan_os_def Let_def node_def
        listening_def)
qed

theorem peer_invariant_witness:
  "\<exists>s. peer_init lan_os test_argv start_state = (Inr 5, s) \<and> peer_inv s"
proof -
  obtain s where s: "peer_init lan_os test_argv start_state = (Inr 5, s)"
    using peer_init_test by blast
  have "memory_bound (os_can_alloc lan_os)" by (simp add: memory_bound_def lan_os_def idle_os_def)
  from peer_invariant [OF reach.started [OF s] this] s show ?thesis by blast
qed


text \<open>A system whose only client sends a peer message without any flag.\<close>

definition one_client_os :: os where
  "one_client_os = lan_os\<lparr>os_recv := (\<lambda>_ _. Some (peer_wire (about (node 3006 15000))))\<rparr>"

lemma serve_round_test:
  "\<exists>c t. serve_round one_client_os 1 5 (start_state\<lparr>trace := [Ev_listen 5 0]\<rparr>) = (Inr c, t)"
proof -
  let ?s = "start_state\<lparr>trace := [Ev_listen 5 0]\<rparr>"
  let ?u = "start_state\<lparr>trace := [Ev_listen 5 0, Ev_accept 5 6, Ev_close 5]\<rparr>"
  let ?a = "ai_addr loopback @ replicate 112 0" and ?m = "about (node 3006 15000)"
  let ?r = "\<lparr>rs_data_length = of_nat 11, rs_data = Obj (peer_wire ?m @ replicate 13 0),
    rs_status_code = Some STATUS_OK\<rparr>"
  have t: "inet_ntop (unat (of_le16 ?a)) (get_in_addr ?a) 8 = Inr None" by code_simp
  have "os_accept one_client_os (trace ?s) 5 = (6, ?a)"
    by (simp add: one_client_os_def lan_os_def listening_def)
  with t have g: "get_new_connection one_client_os 1 5 ?s = (Inr 6, ?u)"
    by (simp add: get_new_connection_def cmd_simps)
  have rec: "os_recv one_client_os (trace ?u) 6 = Some (peer_wire ?m)"
    by (simp add: one_client_os_def)
  have ne: "peer_wire ?m \<noteq> []" by (simp add: peer_wire_def)
  have d: "direct_receive one_client_os 1 6 True ?u =
      (Inr ?r, ?u\<lparr>trace := trace ?u @ [Ev_recv 6 (Some (peer_wire ?m))]\<rparr>)"
    using direct_receive_short [OF rec, of 0 True] ne
    by (simp add: BUFFER_SIZE_def Let_def shrink_def one_client_os_def lan_os_def idle_os_def
        del: direct_receive.simps)
  have w: "wf_PeerProtocol ?m" by (simp add: wf_PeerProtocol_def)
  have "peer_header ?m AND CONTROL_BIT = CONTROL_BIT" using peer_header_bits(1) [of ?m] by simp
  then have "peer_header ?m AND CONTROL_BIT \<noteq> 0" by (simp add: CONTROL_BIT_def)
  from peer_message_wire [OF _ _ this, of ?r "replicate 13 0"]
  have "peer_message ?r ?m" by (simp add: wf_with_header w)
  from peer_dispatch [OF this] have "receive_handler one_client_os 1 ?r 6 = ret ()" by simp
  with d have "receive one_client_os 1 6 (receive_handler one_client_os 1) ?u =
      (Inr (Some STATUS_OK), ?u\<lparr>trace := trace ?u @ [Ev_recv 6 (Some (peer_wire ?m))]\<rparr>)"
    by (simp add: receive_def cmd_simps del: direct_receive.simps)
  with g show ?thesis by (simp add: serve_round_def cmd_simps)
qed


end
