(* ===== verification/Peer_Life.thy ===== *)
theory Peer_Life
  imports Peer_Loop
begin

text \<open>
  The whole life of a peer process, whatever the system and the other processes do: what it can
  send from its start to its end.
\<close>

section \<open>A fresh peer\<close>

text \<open>A peer that knows only itself.\<close>

definition alone :: "peer_state \<Rightarrow> bool" where
  "alone s \<longleftrightarrow> pi_this (peer_info s) \<noteq> None \<and> pi_next (peer_info s) = None \<and>
     pi_prev (peer_info s) = None"

lemma safe_alone_net: "net_only m \<Longrightarrow> safe alone m"
  by (rule safe_keeps [OF net_only_keeps]) (simp_all add: alone_def)

lemma peer_self_alone:
  assumes "peer_self argv start_state = (Inr q, s)" shows "alone s"
  using assms
  by (auto simp: peer_self_def cmd_simps Let_def alone_def start_state_def zero_PeerInfo_def
      split: sum.splits)

lemma peer_init_alone:
  assumes "peer_init os argv start_state = (Inr fd, s)" shows "alone s"
proof -
  from assms obtain q u where "peer_self argv start_state = (Inr q, u)"
    and r: "bindc (setup_as_server os q) (\<lambda>sock_fd. if length argv \<le> 4 then ret sock_fd
      else seqc (peer_join os argv) (ret sock_fd)) u = (Inr fd, s)"
    unfolding peer_init_def by (rule bindc_eqD)
  then have inv: "alone u" by (simp add: peer_self_alone)
  have "safe alone info" "\<And>j. safe alone (set_info (\<lambda>i. i\<lparr>pi_join := Some j\<rparr>))"
    by (auto simp: safe_def cmd_simps alone_def)
  then have j: "safe alone (peer_join os argv)"
    unfolding peer_join_def by (intro safe_intros safe_alone_net [OF net_only_senders(1)])
  have "safe alone (bindc (setup_as_server os q) (\<lambda>sock_fd. if length argv \<le> 4 then ret sock_fd
      else seqc (peer_join os argv) (ret sock_fd)))"
    by (intro safe_bindc safe_if safe_seqc safe_basic j safe_alone_net [OF net_only_setup_as_server])
  from safeD [OF this inv r] show ?thesis .
qed

section \<open>What a process has sent\<close>

fun sent :: "event list \<Rightarrow> bytes list" where
  "sent [] = []"
| "sent (Ev_send fd bs # h) = bs # sent h"
| "sent (_ # h) = sent h"

lemma sent_append [simp]: "sent (h @ h') = sent h @ sent h'"
  by (induction h rule: sent.induct) simp_all

text \<open>A message of the peer protocol: eleven bytes, the first with the control bit.\<close>

definition peer_letter :: "bytes \<Rightarrow> bool" where
  "peer_letter bs \<longleftrightarrow> length bs = 11 \<and> bs ! 0 AND CONTROL_BIT \<noteq> 0"

lemma peer_letter_wire:
  assumes "pp_control m = CONTROL_BIT" shows "peer_letter (peer_wire m)"
proof -
  have "peer_header m AND CONTROL_BIT = CONTROL_BIT" using peer_header_bits(1) [of m] assms by simp
  then show ?thesis by (simp add: peer_letter_def peer_wire_def CONTROL_BIT_def)
qed

text \<open>\<open>mails n m s\<close>: the run of \<open>m\<close> from \<open>s\<close> sends at most \<open>n\<close> messages, all of them of the
  peer protocol.\<close>

definition mails :: "nat \<Rightarrow> ('z net_scheme, 'a) cmd \<Rightarrow> 'z net_scheme \<Rightarrow> bool" where
  "mails n m s \<longleftrightarrow> (\<exists>ms. sent (trace (snd (m s))) = sent (trace s) @ ms \<and> length ms \<le> n \<and>
     list_all peer_letter ms)"

named_theorems mails_intros \<open>compositional rules for the messages a command sends\<close>

lemma mails_same: "sent (trace (snd (m s))) = sent (trace s) \<Longrightarrow> mails n m s"
  by (simp add: mails_def)

lemma mails_mono: "mails n m s \<Longrightarrow> n \<le> k \<Longrightarrow> mails k m s"
  by (auto simp: mails_def intro: order_trans)

lemma mails_basic [mails_intros]:
  "mails n (ret x) s" "mails n (failc f) s" "mails n (liftr r) s" "mails n getc s"
  by (simp_all add: mails_same)

lemma mails_bindc:
  assumes "mails i m s" and "\<And>x t. m s = (Inr x, t) \<Longrightarrow> mails j (k x) t"
  shows "mails (i + j) (bindc m k) s"
proof -
  obtain ms where ms: "sent (trace (snd (m s))) = sent (trace s) @ ms" "length ms \<le> i"
    "list_all peer_letter ms" using assms(1) by (auto simp: mails_def)
  show ?thesis
  proof (cases "m s")
    case (Pair r t)
    show ?thesis
    proof (cases r)
      case (Inl f)
      with Pair ms show ?thesis by (auto simp: mails_def cmd_simps intro!: exI [of _ ms])
    next
      case (Inr x)
      with assms(2) Pair obtain ns where "sent (trace (snd (k x t))) = sent (trace t) @ ns"
        "length ns \<le> j" "list_all peer_letter ns" by (auto simp: mails_def)
      with Pair Inr ms show ?thesis
        by (auto simp: mails_def cmd_simps intro!: exI [of _ "ms @ ns"])
    qed
  qed
qed

lemma mails_bindc_0 [mails_intros]:
  "mails 0 m s \<Longrightarrow> (\<And>x t. m s = (Inr x, t) \<Longrightarrow> mails n (k x) t) \<Longrightarrow> mails n (bindc m k) s"
  using mails_bindc [of 0 m s n k] by simp

lemma mails_bindc_ret [mails_intros]: "mails n m s \<Longrightarrow> mails n (bindc m (\<lambda>_. ret x)) s"
  using mails_bindc [of n m s 0 "\<lambda>_. ret x"] by (simp add: mails_basic)

lemma mails_if [mails_intros]:
  "(b \<Longrightarrow> mails n m s) \<Longrightarrow> (\<not> b \<Longrightarrow> mails n k s) \<Longrightarrow> mails n (if b then m else k) s"
  by simp

interpretation silent: call_invariant "\<lambda>h. sent h = L" for L
  by unfold_locales (auto simp: plain_call_def split: event.splits)

lemma mails_keeps: "(\<And>L. keeps (\<lambda>s. sent (trace s) = L) m) \<Longrightarrow> mails n m s"
  by (rule mails_same) (simp add: keeps_def)

lemmas mails_network [mails_intros] = silent.setup_as_client [THEN mails_keeps]
  silent.direct_receive [THEN mails_keeps] silent.get_new_connection [THEN mails_keeps]

lemma silent_parts [keeps_intros]:
  "keeps (\<lambda>s. sent (trace s) = L) (sys a (Ev_listen fd))"
  "keeps (\<lambda>s. sent (trace s) = L) (set_info f)"
  by (simp_all add: keeps_def cmd_simps)

lemma silent_setup_as_server: "keeps (\<lambda>s. sent (trace s) = L) (setup_as_server os q)"
  unfolding setup_as_server_def
  by (intro keeps_intros silent.bind_first silent.call silent.log) simp_all

lemma silent_peer_self: "keeps (\<lambda>s. sent (trace s) = L) (peer_self argv)"
  unfolding peer_self_def by (intro keeps_intros)

section \<open>The senders\<close>

lemma mails_letter:
  fixes s :: "'z net_scheme"
  assumes l: "peer_letter bs"
  shows "mails (Suc 0) (direct_send os a p (Obj (bs @ r)) 11) s"
proof -
  from l have "(direct_send os a p (Obj (bs @ r)) 11 :: ('z net_scheme, int) cmd) = post os a p bs"
    by (intro direct_send_post) (simp add: peer_letter_def)
  moreover have "mails (Suc 0) (log_event (Ev_send fd bs)) t" for fd and t :: "'z net_scheme"
    using l by (auto simp: mails_def cmd_simps)
  note log = this
  have "mails (Suc 0) (post os a p bs) s"
    unfolding post_def seqc_def by (rule mails_bindc_ret mails_intros log)+
  ultimately show ?thesis by simp
qed

lemma mails_encoded:
  assumes "\<And>r. 2 \<le> length r \<Longrightarrow> mails n (k (Obj (peer_wire m @ r))) s"
    and "pp_control m = CONTROL_BIT"
  shows "mails n (bindc (encode_peer os m) k) s"
proof (cases "2 \<le> length (os_slack os (trace s) 11)")
  case True
  let ?r = "[0, 0] @ drop 2 (os_slack os (trace s) 11)"
  from True have "bindc (encode_peer os m) k s = k (Obj (peer_wire m @ ?r)) s"
    by (simp add: encode_peer_def encode_peerProtocol_eq cmd_simps)
  with assms(1) [of ?r] show ?thesis by (simp add: mails_def)
next
  case False
  then show ?thesis by (intro mails_same) (simp add: encode_peer_def encode_peerProtocol_eq cmd_simps)
qed

lemma mails_locals [mails_intros]: "mails n (local_message os) s" "mails n (deref_peer q) s"
  by (simp_all add: mails_same local_message_def deref_peer_def cmd_simps split: option.splits)

lemma mails_info [mails_intros]: "mails n info s"
  by (simp add: mails_same cmd_simps)

lemma mails_peer_letter:
  "pp_control m = CONTROL_BIT \<Longrightarrow>
   mails (Suc 0) (direct_send os a p (Obj (peer_wire m @ r)) peerProtocolCalculateSize) s"
  using mails_letter [OF peer_letter_wire] by (simp add: peerProtocolCalculateSize_def)

lemma mails_join: "mails (Suc 0) (join os a p q) s"
  unfolding join_def
  by (rule mails_encoded mails_bindc_ret mails_peer_letter mails_intros)+ simp_all

lemma mails_notify: "mails (Suc 0) (notify os ip port q) s"
  unfolding notify_def
  by (rule mails_encoded mails_bindc_ret mails_peer_letter mails_intros)+ simp_all

lemma mails_peer_init: "mails (if length argv \<le> 4 then 0 else 1) (peer_init os argv) s"
proof -
  have "mails 0 (set_info f) t" for f t by (simp add: mails_same cmd_simps)
  then have "mails (Suc 0) (peer_join os argv) t" for t
    unfolding peer_join_def seqc_def by (intro mails_intros mails_join)
  then show ?thesis
    unfolding peer_init_def seqc_def
    by (intro mails_intros mails_keeps [OF silent_peer_self] mails_keeps [OF silent_setup_as_server])
      simp_all
qed

section \<open>The first message\<close>

text \<open>A peer that is alone never gets as far as an answer: a client message ends it, whatever
  it says.\<close>

lemma alone_client:
  assumes "alone s"
  shows "snd (handle_client os fuel rec fd s) = s \<and> (\<exists>f. fst (handle_client os fuel rec fd s) = Inl f)"
  using assms
  by (auto simp: handle_client_def cmd_simps alone_def id_is_between_def Let_def deref_peer_def
      split: sum.splits option.splits)

lemma alone_handler:
  assumes "alone s" shows "mails (Suc 0) (receive_handler os fuel rec fd) s"
proof -
  have j: "mails (Suc 0) (handle_join os rec d) s" for d
  proof -
    let ?j = "assign_node d zero_Peer"
    let ?s = "s\<lparr>peer_info := (peer_info s)\<lparr>pi_next := Some ?j, pi_prev := Some ?j\<rparr>\<rparr>"
    have "handle_join os rec d s = notify os (pp_nodeIp d) (pp_nodePort d) (pi_this (peer_info s)) ?s"
      using assms by (simp add: handle_join_def cmd_simps alone_def)
    moreover have "mails (Suc 0) (notify os (pp_nodeIp d) (pp_nodePort d) (pi_this (peer_info s))) ?s"
      by (rule mails_notify)
    ultimately show ?thesis by (simp add: mails_def)
  qed
  have q: "handle_reply os fuel d s = (Inl NullDeref, s)" for d
    by (simp add: handle_reply_def cmd_simps macro_queue.pop_run decode_clientProtocol_def
        load8_def)
  have "mails (Suc 0) (handle_finger os d) s" "mails (Suc 0) (handle_notify d) s"
    "mails (Suc 0) (handle_stabilize os d) s" "mails (Suc 0) (handle_reply os fuel d) s"
    "mails (Suc 0) (handle_lookup os rec d) s" for d
    using assms q
    by (auto simp: mails_same handle_finger_def handle_notify_def handle_stabilize_def
        handle_lookup_def cmd_simps alone_def deref_peer_def id_is_between_def
        split: sum.splits option.splits)
  then have "mails (Suc 0) (handle_peer os fuel rec) s"
    unfolding handle_peer_def by (intro mails_intros) (auto simp: cmd_simps intro: j)
  moreover have "mails (Suc 0) (handle_client os fuel rec fd) s"
    using alone_client [OF assms] by (simp add: mails_same)
  ultimately show ?thesis
    unfolding receive_handler_def by (intro mails_intros) (auto simp: cmd_simps)
qed

section \<open>From start to end\<close>

lemma serve_deaf:
  assumes "accept_needs_listen os" "deaf fd s"
  shows "fst (serve os fuel n fd s) = Inl OutOfFuel" and "mails 0 (serve os fuel n fd) s"
proof -
  have 1: "fst (get_new_connection os fuel fd s) = Inl OutOfFuel"
    by (rule get_new_connection_deaf [OF assms])
  then obtain u where u: "get_new_connection os fuel fd s = (Inl OutOfFuel, u)"
    by (metis prod.collapse)
  moreover have "mails 0 (get_new_connection os fuel fd) s" by (intro mails_intros)
  ultimately show "fst (serve os fuel n fd s) = Inl OutOfFuel" "mails 0 (serve os fuel n fd) s"
    by (cases n; simp add: serve_round_def cmd_simps mails_def)+
qed

lemma alone_calls: "alone s \<Longrightarrow> net_only m \<Longrightarrow> m s = (Inr x, t) \<Longrightarrow> alone t"
  by (rule safeD [OF safe_alone_net])

lemma mails_serve_round:
  assumes "alone s" shows "mails (Suc 0) (serve_round os fuel fd) s"
  unfolding serve_round_def receive_def seqc_def
proof (rule mails_bindc_0)
  show "mails 0 (get_new_connection os fuel fd) s" by (intro mails_intros)
  fix c t
  assume g: "get_new_connection os fuel fd s = (Inr c, t)"
  show "mails (Suc 0) (bindc (direct_receive os fuel c True) (\<lambda>response.
      bindc (receive_handler os fuel response c) (\<lambda>_. ret (rs_status_code response)))) t"
  proof (rule mails_bindc_0)
    show "mails 0 (direct_receive os fuel c True) t" by (intro mails_intros)
    fix r u
    assume "direct_receive os fuel c True t = (Inr r, u)"
    then have "alone u"
      using alone_calls [OF alone_calls [OF assms net_only_get_new_connection g]
          net_only_direct_receive] by blast
    then show "mails (Suc 0) (bindc (receive_handler os fuel r c) (\<lambda>_. ret (rs_status_code r))) u"
      by (intro mails_bindc_ret alone_handler)
  qed
qed

lemma mails_serve:
  assumes "accept_needs_listen os" "alone s"
  shows "mails (Suc 0) (serve os fuel n fd) s"
proof (cases n)
  case (Suc k)
  have "mails 0 (serve os fuel k fd) t" if "serve_round os fuel fd s = (Inr c, t)" for c t
    by (rule serve_deaf(2) [OF assms(1) serve_round_deaf [OF that]])
  then have "mails (Suc 0 + 0) (bindc (serve_round os fuel fd) (\<lambda>_. serve os fuel k fd)) s"
    by (rule mails_bindc [OF mails_serve_round [OF assms(2)]])
  then show ?thesis by (simp add: Suc)
qed (simp add: mails_intros)

text \<open>C7: a peer process never answers a client. Whatever its arguments, whatever it receives and
  however the system calls turn out, from its start on it sends at most one message, or two when
  it joins, and each is a message of the peer protocol to another peer.\<close>

theorem peer_only_sends_peer_messages:
  assumes "accept_needs_listen os"
  shows "let ms = sent (trace (snd (peer_main os fuel rounds argv start_state))) in
    length ms \<le> (if length argv \<le> 4 then 1 else 2) \<and> list_all peer_letter ms"
proof -
  let ?n = "if length argv \<le> 4 then 0 else 1 :: nat"
  have "mails (?n + Suc 0) (peer_main os fuel rounds argv) start_state"
    unfolding peer_main_def
  proof (rule mails_bindc [OF mails_peer_init])
    fix fd t
    assume "peer_init os argv start_state = (Inr fd, t)"
    then show "mails (Suc 0) (\<lambda>s. serve os fuel rounds fd s) t"
      using mails_serve [OF assms peer_init_alone] by blast
  qed
  then show ?thesis by (auto simp: mails_def start_state_def Let_def split: if_splits)
qed

theorem peer_only_sends_peer_messages_witness:
  "length (sent (trace (snd (peer_main lan_os 1 2 test_argv start_state)))) \<le> 1"
  using peer_only_sends_peer_messages [OF os_laws(1), of 1 2 test_argv]
  by (simp add: Let_def test_argv_def)

end
