(* ===== verification/Peer_Network.thy ===== *)
theory Peer_Network
  imports Peer_Life
begin

text \<open>
  Any number of peer processes together. A step starts a process or lets one serve a connection;
  what it receives, from another peer, a client or anybody else, and how the system calls turn
  out is chosen anew in every step. \<open>mail\<close> collects what the processes have sent.
\<close>

section \<open>Steps of a network\<close>

datatype process = Idle | Up int peer_state | Down fault

record network =
  procs :: "process list"
  mail :: "bytes list"

definition outcome :: "(fault + 'a) \<Rightarrow> ('a \<Rightarrow> int) \<Rightarrow> peer_state \<Rightarrow> process" where
  "outcome r fd s = (case r of Inl f \<Rightarrow> Down f | Inr x \<Rightarrow> Up (fd x) s)"

text \<open>A round that runs out of fuel has not been served: the process still waits in \<^verbatim>\<open>accept\<close>
  or \<^verbatim>\<open>recv\<close>.\<close>

inductive net_step :: "network \<Rightarrow> network \<Rightarrow> bool" where
  start: "i < length (procs c) \<Longrightarrow> procs c ! i = Idle \<Longrightarrow> accept_needs_listen os \<Longrightarrow>
    peer_init os argv start_state = (r, s) \<Longrightarrow>
    net_step c \<lparr>procs = (procs c)[i := outcome r id s], mail = mail c @ sent (trace s)\<rparr>"
| serve: "i < length (procs c) \<Longrightarrow> procs c ! i = Up fd s \<Longrightarrow> accept_needs_listen os \<Longrightarrow>
    serve_round os fuel fd s = (r, t) \<Longrightarrow> r \<noteq> Inl OutOfFuel \<Longrightarrow>
    net_step c \<lparr>procs = (procs c)[i := outcome r (\<lambda>_. fd) t],
      mail = mail c @ drop (length (sent (trace s))) (sent (trace t))\<rparr>"

definition idle_network :: "nat \<Rightarrow> network" where
  "idle_network n = \<lparr>procs = replicate n Idle, mail = []\<rparr>"

section \<open>What a process can still do\<close>

text \<open>A process that is up is alone, or has closed its listening socket.\<close>

definition proc_ok :: "process \<Rightarrow> bool" where
  "proc_ok p = (case p of Up fd s \<Rightarrow> alone s \<or> deaf fd s | _ \<Rightarrow> True)"

text \<open>The number of steps, and of messages, that are left to it.\<close>

definition steps_left :: "process \<Rightarrow> nat" where
  "steps_left p = (case p of Idle \<Rightarrow> 2 | Up fd s \<Rightarrow> if deaf fd s then 0 else 1 | Down _ \<Rightarrow> 0)"

lemma start_process:
  assumes "peer_init os argv start_state = (r, s)"
  shows "proc_ok (outcome r id s)" "steps_left (outcome r id s) \<le> 1"
    "length (sent (trace s)) \<le> 1" "list_all peer_letter (sent (trace s))"
proof -
  show "proc_ok (outcome r id s)"
    using assms peer_init_alone by (cases r) (auto simp: proc_ok_def outcome_def)
  show "steps_left (outcome r id s) \<le> 1"
    by (cases r) (simp_all add: steps_left_def outcome_def)
  have "mails 1 (peer_init os argv) start_state"
    by (rule mails_mono [OF mails_peer_init]) simp
  then show "length (sent (trace s)) \<le> 1" "list_all peer_letter (sent (trace s))"
    using assms by (auto simp: mails_def start_state_def)
qed

lemma serve_process:
  assumes "proc_ok (Up fd s)" "accept_needs_listen os" "serve_round os fuel fd s = (r, t)"
    and "r \<noteq> Inl OutOfFuel"
  shows "proc_ok (outcome r (\<lambda>_. fd) t)" "steps_left (outcome r (\<lambda>_. fd) t) = 0"
    "steps_left (Up fd s) = 1"
    "\<exists>ms. sent (trace t) = sent (trace s) @ ms \<and> length ms \<le> 1 \<and> list_all peer_letter ms"
proof -
  show "proc_ok (outcome r (\<lambda>_. fd) t)" "steps_left (outcome r (\<lambda>_. fd) t) = 0"
    using assms(3) serve_round_deaf
    by (cases r; force simp: proc_ok_def steps_left_def outcome_def)+
  have "\<not> deaf fd s"
  proof
    assume "deaf fd s"
    then have "fst (get_new_connection os fuel fd s) = Inl OutOfFuel"
      by (rule get_new_connection_deaf [OF assms(2)])
    then have "fst (serve_round os fuel fd s) = Inl OutOfFuel"
      by (cases "get_new_connection os fuel fd s") (simp add: serve_round_def cmd_simps)
    with assms(3,4) show False by simp
  qed
  then show "steps_left (Up fd s) = 1" by (simp add: steps_left_def)
  from \<open>\<not> deaf fd s\<close> have "alone s" using assms(1) by (simp add: proc_ok_def)
  from mails_serve_round [OF this, of os fuel fd] assms(3)
  show "\<exists>ms. sent (trace t) = sent (trace s) @ ms \<and> length ms \<le> 1 \<and> list_all peer_letter ms"
    by (simp add: mails_def)
qed

section \<open>Invariant of all networks\<close>

definition network_ok :: "network \<Rightarrow> bool" where
  "network_ok c \<longleftrightarrow> list_all proc_ok (procs c) \<and> list_all peer_letter (mail c)"

definition left :: "network \<Rightarrow> nat" where
  "left c = sum_list (map steps_left (procs c))"

lemma left_update:
  assumes "i < length ps"
  shows "sum_list (map f (ps[i := p])) + f (ps ! i) = sum_list (map f ps) + (f p :: nat)"
proof -
  have "sum_list ((map f ps)[i := f p]) = sum_list (map f ps) + f p - map f ps ! i"
    using assms by (intro sum_list_update) simp
  moreover have "map f ps ! i \<le> sum_list (map f ps)"
    using assms by (intro elem_le_sum_list) simp
  ultimately show ?thesis using assms by (simp add: map_update)
qed

lemma list_all_update: "list_all P ps \<Longrightarrow> P p \<Longrightarrow> list_all P (ps[i := p])"
  by (auto simp: list_all_iff dest!: set_update_subset_insert [THEN subsetD])

lemma net_step_ok:
  assumes "net_step c c'" "network_ok c"
  shows "network_ok c'" "left c' < left c" "length (mail c') + left c' \<le> length (mail c) + left c"
proof -
  have "network_ok c' \<and> left c' < left c \<and> length (mail c') + left c' \<le> length (mail c) + left c"
    using assms(1)
  proof (cases rule: net_step.cases)
    case (start i os argv r s)
    note p = start_process [OF start(5)]
    have "left c' + 2 = left c + steps_left (outcome r id s)"
      using left_update [of i "procs c" steps_left "outcome r id s"] start(1,2,3)
      by (simp add: left_def steps_left_def)
    then show ?thesis
      using p assms(2) start(1) by (simp add: network_ok_def list_all_update)
  next
    case (serve i fd s os fuel r t)
    have "proc_ok (Up fd s)"
      using assms(2) serve(2,3) by (metis list_all_length network_ok_def)
    note p = serve_process [OF this serve(4,5,6)]
    obtain ms where ms: "sent (trace t) = sent (trace s) @ ms" "length ms \<le> 1" "list_all peer_letter ms"
      using p(4) by blast
    have "left c' + 1 = left c"
      using left_update [of i "procs c" steps_left "outcome r (\<lambda>_. fd) t"] serve(1,2,3) p(2,3)
      by (simp add: left_def)
    then show ?thesis
      using p(1) ms assms(2) serve(1) by (simp add: network_ok_def list_all_update)
  qed
  then show "network_ok c'" "left c' < left c" "length (mail c') + left c' \<le> length (mail c) + left c"
    by simp_all
qed

lemma net_steps_ok:
  assumes "(net_step ^^ k) c c'" "network_ok c"
  shows "network_ok c' \<and> k + left c' \<le> left c \<and> length (mail c') + left c' \<le> length (mail c) + left c"
  using assms(1)
proof (induction k arbitrary: c')
  case (Suc k)
  then obtain b where b: "(net_step ^^ k) c b" "net_step b c'" by auto
  from Suc.IH [OF b(1)] net_step_ok [OF b(2)] show ?case by auto
qed (use assms(2) in simp)

text \<open>C8: a network of peers falls silent. Whatever the messages they and any clients exchange,
  \<open>n\<close> peer processes together make at most \<open>2 * n\<close> steps, starting and serving one connection
  each; on the way they send at most \<open>2 * n\<close> messages, all of them of the peer protocol, so that
  no client of any network of these peers ever gets an answer.\<close>

theorem network_falls_silent:
  assumes "(net_step ^^ k) (idle_network n) c"
  shows "k \<le> 2 * n \<and> length (mail c) \<le> 2 * n \<and> list_all peer_letter (mail c)"
proof -
  have "network_ok (idle_network n)" "left (idle_network n) = 2 * n" "mail (idle_network n) = []"
    by (simp_all add: network_ok_def idle_network_def left_def proc_ok_def steps_left_def
        list_all_iff sum_list_replicate)
  with net_steps_ok [OF assms] show ?thesis by (simp add: network_ok_def)
qed

theorem network_falls_silent_witness:
  "\<exists>c. (net_step ^^ 1) (idle_network 1) c \<and> length (mail c) \<le> 2 * 1 \<and> list_all peer_letter (mail c)"
proof -
  obtain s where "peer_init lan_os test_argv start_state = (Inr 5, s)" using peer_init_test by blast
  from net_step.start [OF _ _ os_laws(1) this, of 0 "idle_network 1"]
  have "net_step (idle_network 1) \<lparr>procs = [Up 5 s], mail = sent (trace s)\<rparr>"
    by (simp add: idle_network_def outcome_def)
  then have "(net_step ^^ 1) (idle_network 1) \<lparr>procs = [Up 5 s], mail = sent (trace s)\<rparr>"
    by (simp only: relpowp_1)
  from network_falls_silent [OF this] this show ?thesis by blast
qed

end
