(* ===== verification/Smart_Pointer.thy ===== *)
theory Smart_Pointer
  imports C_Prelude
begin

text \<open>
  \<^verbatim>\<open>src/src/helper/wulkanat/smart_pointer.h\<close>: reference-counted heap blocks. A block is the
  32 bytes of the header struct (\<^verbatim>\<open>value\<close>, \<^verbatim>\<open>length\<close>, \<^verbatim>\<open>references\<close>, six bytes of
  padding, \<^verbatim>\<open>destructor\<close>) and the requested bytes behind it. The pointer variables
  \<^verbatim>\<open>_name\<close> that the macros work on are numbered; address 0 is \<^verbatim>\<open>NULL\<close>.
\<close>

section \<open>Memory\<close>

definition le64 :: "size_t \<Rightarrow> bytes" where
  "le64 w = le32 (ucast w) @ le32 (ucast (drop_bit 32 w))"

definition of_le64 :: "bytes \<Rightarrow> size_t" where
  "of_le64 bs = ucast (of_le32 bs) OR push_bit 32 (ucast (of_le32 (drop 4 bs)))"

lemma length_le64 [simp]: "length (le64 w) = 8"
  by (simp add: le64_def)

lemma of_le64_le64 [simp]: "of_le64 (le64 w @ r) = w"
  by (rule bit_word_eqI) (auto simp: of_le64_def le64_def bit_simps)

record sp_mem =
  sp_heap :: "nat \<Rightarrow> bytes option"
  sp_vars :: "nat \<Rightarrow> nat"

text \<open>The runtime: where \<^verbatim>\<open>malloc\<close> puts a block and what it holds, and the address of the
  generated destructor \<^verbatim>\<open>void_smart_pointer_destructor\<close>, whose body is empty.\<close>

record runtime =
  rt_malloc :: "(nat \<Rightarrow> bytes option) \<Rightarrow> nat \<Rightarrow> nat \<times> bytes"
  rt_destructor :: size_t

definition var :: "nat \<Rightarrow> (sp_mem, nat) cmd" where
  "var x = bindc getc (\<lambda>s. ret (sp_vars s x))"

definition set_var :: "nat \<Rightarrow> nat \<Rightarrow> (sp_mem, unit) cmd" where
  "set_var x a = modifyc (\<lambda>s. s\<lparr>sp_vars := (sp_vars s)(x := a)\<rparr>)"

definition block :: "nat \<Rightarrow> (sp_mem, bytes) cmd" where
  "block a = bindc getc (\<lambda>s. if a = 0 then failc NullDeref
     else case sp_heap s a of None \<Rightarrow> failc UseAfterFree | Some b \<Rightarrow> ret b)"

definition rd :: "nat \<Rightarrow> nat \<Rightarrow> nat \<Rightarrow> (sp_mem, bytes) cmd" where
  "rd a off n = bindc (block a) (\<lambda>b. liftr (read_bytes (ptr_add (Obj b) off) n))"

definition wr :: "nat \<Rightarrow> nat \<Rightarrow> bytes \<Rightarrow> (sp_mem, unit) cmd" where
  "wr a off bs = bindc (block a) (\<lambda>b. bindc (liftr (store off bs b)) (\<lambda>b'.
     modifyc (\<lambda>s. s\<lparr>sp_heap := (sp_heap s)(a \<mapsto> b')\<rparr>)))"

definition references :: "nat \<Rightarrow> (sp_mem, byte16) cmd" where
  "references a = bindc (rd a 16 2) (\<lambda>bs. ret (of_le16 bs))"

definition set_references :: "nat \<Rightarrow> byte16 \<Rightarrow> (sp_mem, unit) cmd" where
  "set_references a r = wr a 16 (le16 r)"

definition smart_value :: "nat \<Rightarrow> (sp_mem, size_t) cmd" where
  "smart_value a = bindc (rd a 0 8) (\<lambda>bs. ret (of_le64 bs))"

definition free_block :: "nat \<Rightarrow> (sp_mem, unit) cmd" where
  "free_block a = bindc (block a) (\<lambda>_. modifyc (\<lambda>s. s\<lparr>sp_heap := (sp_heap s)(a := None)\<rparr>))"

section \<open>The macros\<close>

text \<open>The call of the destructor, if there is one; any other address than that of the generated
  function is not code.\<close>

definition destruct :: "runtime \<Rightarrow> nat \<Rightarrow> (sp_mem, unit) cmd" where
  "destruct E a = bindc (rd a 24 8) (\<lambda>d.
     if of_le64 d = 0 then ret ()
     else bindc (smart_value a) (\<lambda>_.
       if of_le64 d = rt_destructor E then ret () else failc WildPointer))"

definition SMART_FREE :: "runtime \<Rightarrow> nat \<Rightarrow> (sp_mem, unit) cmd" where
  "SMART_FREE E x = bindc (var x) (\<lambda>a.
     if a = 0 then ret ()
     else bindc (references a) (\<lambda>r.
       seqc (set_references a (r - 1))
       (if r - 1 = 0 then seqc (destruct E a) (free_block a) else ret ())))"

definition USE :: "runtime \<Rightarrow> nat \<Rightarrow> (size_t \<Rightarrow> (sp_mem, unit) cmd) \<Rightarrow> (sp_mem, unit) cmd" where
  "USE E x body = bindc (var x) (\<lambda>a.
     bindc (smart_value a) (\<lambda>v.
     bindc (references a) (\<lambda>r.
     seqc (set_references a (r + 1))
     (seqc (body v) (SMART_FREE E x)))))"

text \<open>A block with a variable of its own, which hides an outer one of the same name.\<close>

definition scoped :: "nat \<Rightarrow> nat \<Rightarrow> (sp_mem, unit) cmd \<Rightarrow> (sp_mem, unit) cmd" where
  "scoped x a m = bindc (var x) (\<lambda>outer. seqc (set_var x a) (seqc m (set_var x outer)))"

definition FROM_STRUCT_USE ::
    "runtime \<Rightarrow> nat \<Rightarrow> nat \<Rightarrow> (size_t \<Rightarrow> (sp_mem, unit) cmd) \<Rightarrow> (sp_mem, unit) cmd" where
  "FROM_STRUCT_USE E field new_name body =
     bindc (var field) (\<lambda>a. scoped new_name a (USE E new_name body))"

definition ABANDON :: "runtime \<Rightarrow> nat \<Rightarrow> (sp_mem, unit) cmd" where
  "ABANDON E x = seqc (SMART_FREE E x) (set_var x 0)"

definition abandon_old :: "runtime \<Rightarrow> nat \<Rightarrow> (sp_mem, unit) cmd" where
  "abandon_old E x = bindc (var x) (\<lambda>a. if a \<noteq> 0 then ABANDON E x else ret ())"

text \<open>\<^verbatim>\<open>(type*) __SP(ptr) + sizeof(...)\<close> counts the header's 32 bytes in units of \<^verbatim>\<open>type\<close>,
  whose size is \<open>sz\<close>.\<close>

definition MALLOC_ASSIGN :: "runtime \<Rightarrow> size_t \<Rightarrow> nat \<Rightarrow> size_t \<Rightarrow> (sp_mem, unit) cmd" where
  "MALLOC_ASSIGN E sz x value_length = seqc (abandon_old E x)
     (bindc getc (\<lambda>s.
     let (a, fresh) = rt_malloc E (sp_heap s) (unat (32 + value_length)) in
     seqc (if a = 0 then ret () else modifyc (\<lambda>s. s\<lparr>sp_heap := (sp_heap s)(a \<mapsto> fresh)\<rparr>))
     (seqc (set_var x a)
     (seqc (wr a 0 (le64 (of_nat a + 32 * sz)))
     (seqc (wr a 8 (le64 value_length))
     (seqc (set_references a 1)
     (wr a 24 (le64 (rt_destructor E)))))))))"

text \<open>\<^verbatim>\<open>memcpy(__SP(name), from, length)\<close>: the destination is the header.\<close>

definition MALLOC_COPY :: "runtime \<Rightarrow> size_t \<Rightarrow> nat \<Rightarrow> ptr \<Rightarrow> size_t \<Rightarrow> (sp_mem, unit) cmd" where
  "MALLOC_COPY E sz x source value_length = seqc (MALLOC_ASSIGN E sz x value_length)
     (bindc (var x) (\<lambda>a.
      bindc (liftr (read_bytes source (unat value_length))) (\<lambda>bs. wr a 0 bs)))"

definition MALLOC :: "runtime \<Rightarrow> size_t \<Rightarrow> nat \<Rightarrow> size_t \<Rightarrow> (size_t \<Rightarrow> (sp_mem, unit) cmd) \<Rightarrow>
    (sp_mem, unit) cmd" where
  "MALLOC E sz x value_length body = scoped x 0
     (seqc (MALLOC_ASSIGN E sz x value_length) (seqc (USE E x body) (SMART_FREE E x)))"

definition ASSIGN :: "runtime \<Rightarrow> nat \<Rightarrow> nat \<Rightarrow> (sp_mem, unit) cmd" where
  "ASSIGN E t x = seqc (abandon_old E t)
     (bindc (var x) (\<lambda>a.
      bindc (references a) (\<lambda>r.
      seqc (set_references a (r + 1)) (set_var t a))))"

definition SELF_ABANDON :: "runtime \<Rightarrow> nat \<Rightarrow> nat \<Rightarrow> (sp_mem, unit) cmd" where
  "SELF_ABANDON E field self_key = FROM_STRUCT_USE E field self_key (\<lambda>_. ABANDON E self_key)"

definition USE_NULL :: "runtime \<Rightarrow> nat \<Rightarrow> (size_t \<Rightarrow> (sp_mem, unit) cmd) \<Rightarrow> (sp_mem, unit) cmd" where
  "USE_NULL E x body = scoped x 0 (USE E x body)"

text \<open>\<^verbatim>\<open>it(name)\<close> and \<^verbatim>\<open>as(name, type)\<close>: \<open>n\<close> bytes read through the value pointer, which may
  only be used inside its block.\<close>

definition it :: "nat \<Rightarrow> nat \<Rightarrow> (sp_mem, bytes) cmd" where
  "it x n = bindc (var x) (\<lambda>a. bindc (smart_value a) (\<lambda>v.
     if unat v < a then failc OutOfBounds else rd a (unat v - a) n))"

section \<open>Blocks as their fields\<close>

definition header :: "size_t \<Rightarrow> size_t \<Rightarrow> byte16 \<Rightarrow> bytes \<Rightarrow> size_t \<Rightarrow> bytes" where
  "header v l r pad d = le64 v @ le64 l @ le16 r @ pad @ le64 d"

lemma length_header [simp]: "length pad = 6 \<Longrightarrow> length (header v l r pad d) = 32"
  by (simp add: header_def)

lemma store_between:
  "off = length p \<Longrightarrow> length m = length bs \<Longrightarrow> store off bs (p @ m @ q) = Inr (p @ bs @ q)"
  by (simp add: store_def)

lemma read_between:
  "off = length p \<Longrightarrow> n = length m \<Longrightarrow> read_bytes (ptr_add (Obj (p @ m @ q)) off) n = Inr m"
  by simp

lemma header_bytes:
  assumes "length pad = 6"
  shows "read_bytes (ptr_add (Obj (header v l r pad d @ c)) 0) 8 = Inr (le64 v)"
    and "read_bytes (ptr_add (Obj (header v l r pad d @ c)) 16) 2 = Inr (le16 r)"
    and "read_bytes (ptr_add (Obj (header v l r pad d @ c)) 24) 8 = Inr (le64 d)"
    and "store 16 (le16 r') (header v l r pad d @ c) = Inr (header v l r' pad d @ c)"
proof -
  have "read_bytes (ptr_add (Obj ([] @ le64 v @ le64 l @ le16 r @ pad @ le64 d @ c)) 0) 8 = Inr (le64 v)"
    by (rule read_between) simp_all
  then show "read_bytes (ptr_add (Obj (header v l r pad d @ c)) 0) 8 = Inr (le64 v)"
    by (simp only: header_def append_assoc append_Nil)
  have "read_bytes (ptr_add (Obj ((le64 v @ le64 l) @ le16 r @ pad @ le64 d @ c)) 16) 2 = Inr (le16 r)"
    by (rule read_between) simp_all
  then show "read_bytes (ptr_add (Obj (header v l r pad d @ c)) 16) 2 = Inr (le16 r)"
    by (simp only: header_def append_assoc)
  have "read_bytes (ptr_add (Obj ((le64 v @ le64 l @ le16 r @ pad) @ le64 d @ c)) 24) 8 = Inr (le64 d)"
    by (rule read_between) (simp_all add: assms)
  then show "read_bytes (ptr_add (Obj (header v l r pad d @ c)) 24) 8 = Inr (le64 d)"
    by (simp only: header_def append_assoc)
  have "store 16 (le16 r') ((le64 v @ le64 l) @ le16 r @ pad @ le64 d @ c) =
      Inr ((le64 v @ le64 l) @ le16 r' @ pad @ le64 d @ c)"
    by (rule store_between) simp_all
  then show "store 16 (le16 r') (header v l r pad d @ c) = Inr (header v l r' pad d @ c)"
    by (simp only: header_def append_assoc)
qed

lemma block_run: "a \<noteq> 0 \<Longrightarrow> sp_heap s a = Some b \<Longrightarrow> block a s = (Inr b, s)"
  by (simp add: block_def cmd_simps)

lemma rd_run: "a \<noteq> 0 \<Longrightarrow> sp_heap s a = Some b \<Longrightarrow>
    rd a off n s = (read_bytes (ptr_add (Obj b) off) n, s)"
  by (simp add: rd_def cmd_simps block_run)

lemma wr_run: "a \<noteq> 0 \<Longrightarrow> sp_heap s a = Some b \<Longrightarrow> store off bs b = Inr b' \<Longrightarrow>
    wr a off bs s = (Inr (), s\<lparr>sp_heap := (sp_heap s)(a \<mapsto> b')\<rparr>)"
  by (simp add: wr_def cmd_simps block_run)

lemma header_run:
  assumes "a \<noteq> 0" "sp_heap s a = Some (header v l r pad d @ c)" "length pad = 6"
  shows "smart_value a s = (Inr v, s)" "references a s = (Inr r, s)" "rd a 24 8 s = (Inr (le64 d), s)"
    and "set_references a r' s = (Inr (), s\<lparr>sp_heap := (sp_heap s)(a \<mapsto> header v l r' pad d @ c)\<rparr>)"
    and "free_block a s = (Inr (), s\<lparr>sp_heap := (sp_heap s)(a := None)\<rparr>)"
proof -
  note rds = rd_run [OF assms(1,2)] header_bytes [OF assms(3)]
  have v: "of_le64 (le64 v) = v" using of_le64_le64 [of v "[]"] by simp
  show "smart_value a s = (Inr v, s)"
    by (simp only: smart_value_def bindc_run rds prod.case sum.case v cmd_run)
  show "references a s = (Inr r, s)"
    by (simp only: references_def bindc_run rds prod.case sum.case of_le_nil cmd_run)
  show "rd a 24 8 s = (Inr (le64 d), s)" by (simp only: rds)
  show "set_references a r' s = (Inr (), s\<lparr>sp_heap := (sp_heap s)(a \<mapsto> header v l r' pad d @ c)\<rparr>)"
    unfolding set_references_def by (rule wr_run [OF assms(1,2) header_bytes(4) [OF assms(3)]])
  show "free_block a s = (Inr (), s\<lparr>sp_heap := (sp_heap s)(a := None)\<rparr>)"
    by (simp add: free_block_def bindc_run block_run [OF assms(1,2)])
qed

lemma destruct_run:
  assumes "a \<noteq> 0" "sp_heap s a = Some (header v l r pad (rt_destructor E) @ c)" "length pad = 6"
  shows "destruct E a s = (Inr (), s)"
proof -
  have "of_le64 (le64 (rt_destructor E)) = rt_destructor E"
    using of_le64_le64 [of "rt_destructor E" "[]"] by simp
  with header_run [OF assms] show ?thesis by (simp add: destruct_def cmd_simps)
qed

lemma SMART_FREE_run:
  assumes "sp_vars s x = a" "a \<noteq> 0" "sp_heap s a = Some (header v l r pad (rt_destructor E) @ c)"
    "length pad = 6"
  shows "SMART_FREE E x s = (Inr (), s\<lparr>sp_heap := (sp_heap s)(a :=
    if r = 1 then None else Some (header v l (r - 1) pad (rt_destructor E) @ c))\<rparr>)"
proof -
  let ?s = "s\<lparr>sp_heap := (sp_heap s)(a \<mapsto> header v l (r - 1) pad (rt_destructor E) @ c)\<rparr>"
  have a: "sp_heap ?s a = Some (header v l (r - 1) pad (rt_destructor E) @ c)" by simp
  note after = destruct_run [OF assms(2) a assms(4)] header_run(5) [OF assms(2) a assms(4)]
  have "SMART_FREE E x s =
      (if r - 1 = 0 then seqc (destruct E a) (free_block a) else ret ()) ?s"
    using header_run(2,4) [OF assms(2-4)] assms(1,2) by (simp add: SMART_FREE_def var_def cmd_simps)
  also have "\<dots> = (Inr (), s\<lparr>sp_heap := (sp_heap s)(a :=
      if r = 1 then None else Some (header v l (r - 1) pad (rt_destructor E) @ c))\<rparr>)"
  proof (cases "r = 1")
    case True
    with after show ?thesis by (simp add: seqc_run)
  qed (simp add: cmd_simps)
  finally show ?thesis .
qed

section \<open>Exact counts\<close>

text \<open>Every variable is \<^verbatim>\<open>NULL\<close> or points to a live block, and the count of every block is the
  number of variables that point to it, which is not zero: nothing dangles and nothing leaks.\<close>

definition owners :: "(nat \<Rightarrow> nat) \<Rightarrow> nat \<Rightarrow> nat set" where
  "owners vs a = {x. vs x = a}"

definition counted :: "size_t \<Rightarrow> (nat \<Rightarrow> nat) \<Rightarrow> nat \<Rightarrow> bytes \<Rightarrow> bool" where
  "counted d vs a b \<longleftrightarrow> (\<exists>v l pad c. length pad = 6 \<and> owners vs a \<noteq> {} \<and>
     b = header v l (of_nat (card (owners vs a))) pad d @ c)"

definition sp_ok :: "runtime \<Rightarrow> sp_mem \<Rightarrow> bool" where
  "sp_ok E m \<longleftrightarrow> sp_heap m 0 = None \<and> (\<forall>x. sp_vars m x \<noteq> 0 \<longrightarrow> x < 2 ^ 16 - 1) \<and>
     (\<forall>x. sp_vars m x \<noteq> 0 \<longrightarrow> sp_heap m (sp_vars m x) \<noteq> None) \<and>
     (\<forall>a b. sp_heap m a = Some b \<longrightarrow> counted (rt_destructor E) (sp_vars m) a b)"

lemma owners_upd:
  "owners (vs(x := a)) b = (if a = b then insert x (owners vs b) else owners vs b - {x})"
  by (auto simp: owners_def)

lemma finite_owners:
  assumes "\<And>x. vs x \<noteq> 0 \<Longrightarrow> x < 2 ^ 16 - 1" "a \<noteq> 0"
  shows "finite (owners vs a)" "card (owners vs a) < 2 ^ 16"
proof -
  have sub: "owners vs a \<subseteq> {..<2 ^ 16 - 1}" using assms by (auto simp: owners_def)
  show "finite (owners vs a)" using sub by (rule finite_subset) simp
  have "card (owners vs a) \<le> card {..<2 ^ 16 - 1 :: nat}" by (rule card_mono [OF _ sub]) simp
  then show "card (owners vs a) < 2 ^ 16" by simp
qed

lemma counted_other:
  assumes "counted d vs b c" "vs x \<noteq> b" "a \<noteq> b" shows "counted d (vs(x := a)) b c"
proof -
  have "owners (vs(x := a)) b = owners vs b" using assms(2,3) by (auto simp: owners_def)
  with assms(1) show ?thesis by (simp add: counted_def)
qed

lemma sp_ok_pos: "sp_ok E m \<Longrightarrow> sp_heap m a = Some b \<Longrightarrow> 0 < a"
  by (cases "a = 0") (simp_all add: sp_ok_def)

lemma sp_ok_points: "sp_ok E m \<Longrightarrow> sp_vars m x \<noteq> 0 \<Longrightarrow> \<exists>b. sp_heap m (sp_vars m x) = Some b"
  by (simp add: sp_ok_def)

lemma sp_ok_counted:
  "sp_ok E m \<Longrightarrow> sp_heap m a = Some b \<Longrightarrow> counted (rt_destructor E) (sp_vars m) a b"
  by (simp add: sp_ok_def)

lemma sp_okD:
  assumes "sp_ok E m" "sp_vars m x = a" "a \<noteq> 0"
  obtains v l pad c where "sp_heap m a =
      Some (header v l (of_nat (card (owners (sp_vars m) a))) pad (rt_destructor E) @ c)"
    "length pad = 6" "0 < card (owners (sp_vars m) a)" "card (owners (sp_vars m) a) < 2 ^ 16"
    "finite (owners (sp_vars m) a)"
proof -
  obtain b where b: "sp_heap m a = Some b" using sp_ok_points [OF assms(1), of x] assms(2,3) by auto
  have vars: "\<And>x. sp_vars m x \<noteq> 0 \<Longrightarrow> x < 2 ^ 16 - 1" using assms(1) by (simp add: sp_ok_def)
  note fin = finite_owners [of "sp_vars m", OF vars assms(3)]
  from sp_ok_counted [OF assms(1) b] obtain v l pad c where "length pad = 6" "owners (sp_vars m) a \<noteq> {}"
    "b = header v l (of_nat (card (owners (sp_vars m) a))) pad (rt_destructor E) @ c"
    unfolding counted_def by blast
  with that b fin show ?thesis by (simp add: card_gt_0_iff)
qed

text \<open>What a step keeps of the bytes behind the headers.\<close>

definition keeps_contents :: "sp_mem \<Rightarrow> sp_mem \<Rightarrow> bool" where
  "keeps_contents m m' \<longleftrightarrow> (\<forall>a b'. sp_heap m' a = Some b' \<longrightarrow>
     (\<exists>b. sp_heap m a = Some b \<and> drop 32 b = drop 32 b'))"

lemma keeps_contentsD:
  "keeps_contents m m' \<Longrightarrow> sp_heap m' a = Some b' \<Longrightarrow>
   \<exists>b. sp_heap m a = Some b \<and> drop 32 b = drop 32 b'"
  by (simp add: keeps_contents_def)

lemma drop_header [simp]: "length pad = 6 \<Longrightarrow> drop 32 (header v l r pad d) = []"
  by simp

lemma unat_of_nat16: "n < 2 ^ 16 \<Longrightarrow> unat (of_nat n :: byte16) = n"
  by (simp add: unat_of_nat take_bit_nat_eq_self)

lemma of_nat_card_eq_1:
  assumes "n < 2 ^ 16" shows "(of_nat n :: byte16) = 1 \<longleftrightarrow> n = 1"
  using unat_of_nat16 [OF assms] by (metis of_nat_1 unsigned_1)

text \<open>One owner less: the block goes when it was the last one.\<close>

definition released :: "size_t \<Rightarrow> nat \<Rightarrow> size_t \<Rightarrow> size_t \<Rightarrow> bytes \<Rightarrow> bytes \<Rightarrow> bytes option" where
  "released d k v l pad c = (if k = 1 then None else Some (header v l (of_nat k - 1) pad d @ c))"

lemma sp_ok_release:
  assumes ok: "sp_ok E m" and a: "sp_vars m x = a" "a \<noteq> 0" and "length pad = 6"
  shows "sp_ok E (m\<lparr>sp_heap := (sp_heap m)(a := released (rt_destructor E) (card (owners (sp_vars m) a)) v l pad c),
    sp_vars := (sp_vars m)(x := 0)\<rparr>)" (is "sp_ok E ?m")
proof -
  let ?k = "card (owners (sp_vars m) a)" and ?d = "rt_destructor E"
  have fin: "finite (owners (sp_vars m) a)" using sp_okD [OF ok a] by blast
  have mem: "x \<in> owners (sp_vars m) a" using a(1) by (simp add: owners_def)
  have own: "owners ((sp_vars m)(x := 0)) a = owners (sp_vars m) a - {x}"
    using a(2) by (simp add: owners_upd)
  have card: "card (owners (sp_vars m) a - {x}) = ?k - 1" using mem fin by simp
  have pos: "0 < ?k" using mem fin by (auto simp: card_gt_0_iff)
  have live: "counted ?d ((sp_vars m)(x := 0)) a b" if "released ?d ?k v l pad c = Some b" for b
  proof -
    from that pos have k: "1 < ?k" and b: "b = header v l (of_nat (?k - 1)) pad ?d @ c"
      by (auto simp: released_def of_nat_diff split: if_splits)
    then have "owners (sp_vars m) a - {x} \<noteq> {}" using card by force
    then show ?thesis unfolding counted_def own card using b assms(4) by blast
  qed
  have "sp_heap ?m (sp_vars ?m y) \<noteq> None" if "sp_vars ?m y \<noteq> 0" for y
  proof (cases "sp_vars m y = a")
    case True
    with that have "y \<in> owners (sp_vars m) a - {x}" by (auto simp: owners_def split: if_splits)
    then have "?k \<noteq> 1" using card fin by (metis card_0_eq diff_self_eq_0 empty_iff finite_Diff)
    with True that show ?thesis by (auto simp: released_def split: if_splits)
  qed (use that sp_ok_points [OF ok] in \<open>auto split: if_splits\<close>)
  moreover have "counted ?d (sp_vars ?m) a' b" if "sp_heap ?m a' = Some b" for a' b
  proof (cases "a' = a")
    case True
    with live that show ?thesis by simp
  next
    case False
    with that have "counted ?d (sp_vars m) a' b" "a' \<noteq> 0"
      using sp_ok_counted [OF ok] sp_ok_pos [OF ok] by auto
    then show ?thesis using counted_other [of ?d "sp_vars m" a' b x 0] False a(1) by simp
  qed
  ultimately show ?thesis using ok a(2) by (auto simp: sp_ok_def split: if_splits)
qed

lemma ABANDON_run:
  assumes "sp_ok E m"
  shows "\<exists>m'. ABANDON E x m = (Inr (), m') \<and> sp_ok E m' \<and> sp_vars m' = (sp_vars m)(x := 0) \<and>
    keeps_contents m m'"
proof (cases "sp_vars m x = 0")
  case True
  then have "(sp_vars m)(x := 0) = sp_vars m" by auto
  with True assms show ?thesis
    by (auto simp: ABANDON_def SMART_FREE_def var_def set_var_def cmd_simps keeps_contents_def)
next
  case False
  let ?a = "sp_vars m x" and ?d = "rt_destructor E"
  let ?k = "card (owners (sp_vars m) ?a)"
  obtain v l pad c where b: "sp_heap m ?a = Some (header v l (of_nat ?k) pad ?d @ c)"
    "length pad = 6" "0 < ?k" "?k < 2 ^ 16"
    by (rule sp_okD [OF assms refl False])
  let ?m = "m\<lparr>sp_heap := (sp_heap m)(?a := released ?d ?k v l pad c), sp_vars := (sp_vars m)(x := 0)\<rparr>"
  have "ABANDON E x m = (Inr (), ?m)"
    using SMART_FREE_run [OF refl False b(1,2)] of_nat_card_eq_1 [OF b(4)]
    by (simp add: ABANDON_def set_var_def seqc_run released_def)
  moreover have "sp_ok E ?m" by (rule sp_ok_release [OF assms refl False b(2)])
  moreover have "keeps_contents m ?m"
    using b(1,2) by (auto simp: keeps_contents_def released_def split: if_splits)
  ultimately show ?thesis by auto
qed

lemma abandon_old_run:
  assumes "sp_ok E m"
  shows "\<exists>m'. abandon_old E x m = (Inr (), m') \<and> sp_ok E m' \<and> sp_vars m' = (sp_vars m)(x := 0) \<and>
    keeps_contents m m'"
proof (cases "sp_vars m x = 0")
  case True
  then have "(sp_vars m)(x := 0) = sp_vars m" by auto
  with True assms show ?thesis
    by (auto simp: abandon_old_def var_def cmd_simps keeps_contents_def)
qed (use ABANDON_run [OF assms, of x] in \<open>auto simp: abandon_old_def var_def cmd_simps\<close>)

text \<open>A variable that was \<^verbatim>\<open>NULL\<close> is made to point to a block whose count says so.\<close>

lemma sp_ok_point:
  assumes "sp_ok E m" "sp_vars m t = 0" "t < 2 ^ 16 - 1" "a \<noteq> 0"
    and "counted (rt_destructor E) ((sp_vars m)(t := a)) a b"
  shows "sp_ok E (m\<lparr>sp_heap := (sp_heap m)(a \<mapsto> b), sp_vars := (sp_vars m)(t := a)\<rparr>)"
proof -
  have "counted (rt_destructor E) ((sp_vars m)(t := a)) a' b'" if "sp_heap m a' = Some b'" "a' \<noteq> a" for a' b'
  proof -
    have "counted (rt_destructor E) (sp_vars m) a' b'" "a' \<noteq> 0"
      using sp_ok_counted [OF assms(1) that(1)] sp_ok_pos [OF assms(1) that(1)] by simp_all
    then show ?thesis using counted_other [of _ "sp_vars m" a' b' t a] assms(2) that(2) by simp
  qed
  then show ?thesis using assms by (auto simp: sp_ok_def)
qed

lemma ASSIGN_run:
  assumes "sp_ok E m" "t < 2 ^ 16 - 1"
  shows "if t = x \<or> sp_vars m x = 0 then fst (ASSIGN E t x m) = Inl NullDeref
    else \<exists>m'. ASSIGN E t x m = (Inr (), m') \<and> sp_ok E m' \<and>
      sp_vars m' = (sp_vars m)(t := sp_vars m x) \<and> keeps_contents m m'"
proof -
  obtain n where n: "abandon_old E t m = (Inr (), n)" "sp_ok E n" "sp_vars n = (sp_vars m)(t := 0)"
    "keeps_contents m n" using abandon_old_run [OF assms(1)] by blast
  show ?thesis
  proof (cases "t = x \<or> sp_vars m x = 0")
    case True
    then have "sp_vars n x = 0" using n(3) by auto
    with True n(1) show ?thesis
      by (simp add: ASSIGN_def var_def references_def rd_def block_def cmd_simps)
  next
    case False
    let ?a = "sp_vars m x" and ?d = "rt_destructor E"
    have a: "sp_vars n x = ?a" "?a \<noteq> 0" using False n(3) by auto
    let ?k = "card (owners (sp_vars n) ?a)"
    obtain v l pad c where b: "sp_heap n ?a = Some (header v l (of_nat ?k) pad ?d @ c)"
      "length pad = 6" "finite (owners (sp_vars n) ?a)"
      by (rule sp_okD [OF n(2) a])
    let ?b = "header v l (of_nat ?k + 1) pad ?d @ c"
    let ?m = "n\<lparr>sp_heap := (sp_heap n)(?a \<mapsto> ?b), sp_vars := (sp_vars n)(t := ?a)\<rparr>"
    have run: "ASSIGN E t x m = (Inr (), ?m)"
      by (simp add: ASSIGN_def seqc_run bindc_run var_def set_var_def n(1) a
          header_run(2,4) [OF a(2) b(1,2)])
    have t: "sp_vars n t = 0" using n(3) by simp
    then have "t \<notin> owners (sp_vars n) ?a" using a(2) by (simp add: owners_def)
    then have own: "owners ((sp_vars n)(t := ?a)) ?a = insert t (owners (sp_vars n) ?a)"
      "card (insert t (owners (sp_vars n) ?a)) = Suc ?k"
      using b(3) by (simp_all add: owners_upd)
    have "counted ?d ((sp_vars n)(t := ?a)) ?a ?b"
      unfolding counted_def own using b(2) by (auto simp: add.commute)
    then have "sp_ok E ?m" by (rule sp_ok_point [OF n(2) t assms(2) a(2)])
    moreover have "keeps_contents m ?m"
      using n(4) keeps_contentsD [OF n(4) b(1)] b(2) by (auto simp: keeps_contents_def split: if_splits)
    ultimately show ?thesis using False run n(3) by auto
  qed
qed

text \<open>Documented behaviour of \<^verbatim>\<open>malloc\<close>, when memory does not run out: a block of the requested
  size at an address that is not in use.\<close>

definition malloc_ok :: "runtime \<Rightarrow> bool" where
  "malloc_ok E \<longleftrightarrow> (\<forall>h n. finite (dom h) \<longrightarrow> fst (rt_malloc E h n) \<noteq> 0 \<and>
     h (fst (rt_malloc E h n)) = None \<and> length (snd (rt_malloc E h n)) = n)"

lemma sp_ok_finite: "sp_ok E m \<Longrightarrow> finite (dom (sp_heap m))"
proof -
  assume ok: "sp_ok E m"
  have "dom (sp_heap m) \<subseteq> sp_vars m ` {..<2 ^ 16 - 1}"
  proof
    fix a assume "a \<in> dom (sp_heap m)"
    then have "owners (sp_vars m) a \<noteq> {}" "a \<noteq> 0"
      using sp_ok_counted [OF ok] sp_ok_pos [OF ok] by (auto simp: counted_def)
    then obtain x where "sp_vars m x = a" "a \<noteq> 0" by (auto simp: owners_def)
    with ok show "a \<in> sp_vars m ` {..<2 ^ 16 - 1}" by (auto simp: sp_ok_def)
  qed
  then show ?thesis by (rule finite_subset) simp
qed

lemma cut:
  assumes "n \<le> length bs" obtains p q where "bs = p @ q" "length p = n"
  using assms by (metis append_take_drop_id length_take min.absorb2)

lemma MALLOC_ASSIGN_run:
  assumes "sp_ok E m" "malloc_ok E" "x < 2 ^ 16 - 1" "unat n < 2 ^ 64 - 32"
  shows "\<exists>a c m' m0. MALLOC_ASSIGN E sz x n m = (Inr (), m') \<and> sp_ok E m' \<and> sp_vars m' = (sp_vars m)(x := a) \<and>
    abandon_old E x m = (Inr (), m0) \<and> keeps_contents m m0 \<and> sp_ok E m0 \<and>
    a \<noteq> 0 \<and> sp_heap m0 a = None \<and> length c = unat n \<and>
    (\<exists>pad. length pad = 6 \<and> m' = m0\<lparr>sp_heap := (sp_heap m0)(a \<mapsto>
       header (of_nat a + 32 * sz) n 1 pad (rt_destructor E) @ c), sp_vars := (sp_vars m0)(x := a)\<rparr>)"
proof -
  obtain m0 where m0: "abandon_old E x m = (Inr (), m0)" "sp_ok E m0" "sp_vars m0 = (sp_vars m)(x := 0)"
    "keeps_contents m m0" using abandon_old_run [OF assms(1)] by blast
  have size: "unat (32 + n) = 32 + unat n"
    using assms(4) by (subst unat_add_lem [THEN iffD1]) simp_all
  obtain a j where aj: "rt_malloc E (sp_heap m0) (32 + unat n) = (a, j)" by (meson surj_pair)
  with assms(2) have a: "a \<noteq> 0" "sp_heap m0 a = None" "length j = 32 + unat n"
    using sp_ok_finite [OF m0(2)] unfolding malloc_ok_def by (metis fst_conv snd_conv)+
  obtain j0 r0 where r0: "j = j0 @ r0" "length j0 = 8" by (rule cut [of 8 j]) (use a(3) in auto)
  obtain j1 r1 where r1: "r0 = j1 @ r1" "length j1 = 8" by (rule cut [of 8 r0]) (use a(3) r0 in auto)
  obtain j2 r2 where r2: "r1 = j2 @ r2" "length j2 = 2" by (rule cut [of 2 r1]) (use a(3) r0 r1 in auto)
  obtain pad r3 where r3: "r2 = pad @ r3" "length pad = 6"
    by (rule cut [of 6 r2]) (use a(3) r0 r1 r2 in auto)
  obtain j3 c where r4: "r3 = j3 @ c" "length j3 = 8"
    by (rule cut [of 8 r3]) (use a(3) r0 r1 r2 r3 in auto)
  have c: "length c = unat n" using a(3) r0 r1 r2 r3 r4 by simp
  let ?v = "of_nat a + 32 * sz" and ?d = "rt_destructor E"
  have s: "store 0 (le64 ?v) j = Inr (le64 ?v @ j1 @ j2 @ pad @ j3 @ c)"
    "store 8 (le64 n) (le64 ?v @ j1 @ j2 @ pad @ j3 @ c) = Inr (le64 ?v @ le64 n @ j2 @ pad @ j3 @ c)"
    "store 16 (le16 1) (le64 ?v @ le64 n @ j2 @ pad @ j3 @ c) = Inr (le64 ?v @ le64 n @ le16 1 @ pad @ j3 @ c)"
    "store 24 (le64 ?d) (le64 ?v @ le64 n @ le16 1 @ pad @ j3 @ c) = Inr (header ?v n 1 pad ?d @ c)"
    using store_between [of 0 "[]" j0 "le64 ?v" r0] store_between [of 8 "le64 ?v" j1 "le64 n" r1]
      store_between [of 16 "le64 ?v @ le64 n" j2 "le16 1" r2]
      store_between [of 24 "le64 ?v @ le64 n @ le16 1 @ pad" j3 "le64 ?d" c] r0 r1 r2 r3 r4
    by (simp_all add: header_def)
  let ?b = "header ?v n 1 pad ?d @ c"
  let ?m = "m0\<lparr>sp_heap := (sp_heap m0)(a \<mapsto> ?b), sp_vars := (sp_vars m0)(x := a)\<rparr>"
  have run: "MALLOC_ASSIGN E sz x n m = (Inr (), ?m)"
    using m0(1) aj a(1) s size
    by (simp add: MALLOC_ASSIGN_def set_references_def wr_def block_def set_var_def cmd_simps)
  have "owners (sp_vars m0) a = {}"
    using sp_ok_points [OF m0(2)] a(1,2) unfolding owners_def by fastforce
  then have "owners ((sp_vars m0)(x := a)) a = {x}" by (simp add: owners_upd)
  then have "counted ?d ((sp_vars m0)(x := a)) a ?b"
    unfolding counted_def using r3(2) by force
  moreover have "sp_vars m0 x = 0" using m0(3) by simp
  ultimately have "sp_ok E ?m" by (intro sp_ok_point [OF m0(2) _ assms(3) a(1)])
  then show ?thesis using run m0 a c r3(2) by auto
qed

section \<open>Sequences of operations\<close>

datatype sp_op = Op_abandon nat | Op_assign nat nat | Op_malloc nat size_t

fun sp_step :: "runtime \<Rightarrow> size_t \<Rightarrow> sp_op \<Rightarrow> (sp_mem, unit) cmd" where
  "sp_step E sz (Op_abandon x) = ABANDON E x"
| "sp_step E sz (Op_assign t x) = ASSIGN E t x"
| "sp_step E sz (Op_malloc x n) = MALLOC_ASSIGN E sz x n"

fun sp_run :: "runtime \<Rightarrow> size_t \<Rightarrow> sp_op list \<Rightarrow> (sp_mem, unit) cmd" where
  "sp_run E sz [] = ret ()"
| "sp_run E sz (op # ops) = seqc (sp_step E sz op) (sp_run E sz ops)"

fun op_fits :: "sp_op \<Rightarrow> bool" where
  "op_fits (Op_abandon x) = True"
| "op_fits (Op_assign t x) = (t < 2 ^ 16 - 1)"
| "op_fits (Op_malloc x n) = (x < 2 ^ 16 - 1 \<and> unat n < 2 ^ 64 - 32)"

definition sp_empty :: sp_mem where
  "sp_empty = \<lparr>sp_heap = \<lambda>_. None, sp_vars = \<lambda>_. 0\<rparr>"

lemma sp_step_ok:
  assumes "sp_ok E m" "malloc_ok E" "op_fits op"
  shows "(\<exists>m'. sp_step E sz op m = (Inr (), m') \<and> sp_ok E m') \<or> fst (sp_step E sz op m) = Inl NullDeref"
proof (cases op)
  case (Op_abandon x)
  then show ?thesis using ABANDON_run [OF assms(1), of x] by auto
next
  case (Op_assign t x)
  then have t: "t < 2 ^ 16 - 1" using assms(3) by simp
  show ?thesis
  proof (cases "t = x \<or> sp_vars m x = 0")
    case True
    with ASSIGN_run [OF assms(1) t, of x] show ?thesis by (simp add: Op_assign)
  next
    case False
    with ASSIGN_run [OF assms(1) t, of x] show ?thesis by (auto simp: Op_assign)
  qed
next
  case (Op_malloc x n)
  then have "x < 2 ^ 16 - 1" "unat n < 2 ^ 64 - 32" using assms(3) by simp_all
  from MALLOC_ASSIGN_run [OF assms(1,2) this, of sz] show ?thesis unfolding Op_malloc sp_step.simps by blast
qed

lemma sp_run_ok:
  assumes "sp_ok E m" "malloc_ok E" "list_all op_fits ops"
  shows "(\<exists>m'. sp_run E sz ops m = (Inr (), m') \<and> sp_ok E m') \<or> fst (sp_run E sz ops m) = Inl NullDeref"
  using assms
proof (induction ops arbitrary: m)
  case (Cons op ops)
  have fits: "op_fits op" "list_all op_fits ops" using Cons.prems(3) by simp_all
  from sp_step_ok [OF Cons.prems(1,2) fits(1), of sz] show ?case
  proof (elim disjE exE conjE)
    fix m' assume "sp_step E sz op m = (Inr (), m')" "sp_ok E m'"
    with Cons.IH [OF _ Cons.prems(2) fits(2)] show ?thesis by (simp add: cmd_simps)
  next
    assume "fst (sp_step E sz op m) = Inl NullDeref"
    then obtain u where "sp_step E sz op m = (Inl NullDeref, u)" by (metis prod.collapse)
    then show ?thesis by (simp add: cmd_simps)
  qed
qed simp

lemma sp_ok_empty: "sp_ok E sp_empty"
  by (simp add: sp_ok_def sp_empty_def)

lemma sp_ok_live: "sp_ok E m \<Longrightarrow> dom (sp_heap m) = range (sp_vars m) - {0}"
proof -
  assume ok: "sp_ok E m"
  have "owners (sp_vars m) a \<noteq> {} \<and> a \<noteq> 0" if "a \<in> dom (sp_heap m)" for a
    using that sp_ok_counted [OF ok] sp_ok_pos [OF ok] by (auto simp: counted_def)
  then show ?thesis using sp_ok_points [OF ok] by (fastforce simp: owners_def)
qed

lemma sp_ok_references:
  assumes "sp_ok E m" "sp_heap m a \<noteq> None"
  shows "references a m = (Inr (of_nat (card {x. sp_vars m x = a})), m)"
proof -
  have "a \<noteq> 0" using assms sp_ok_pos by blast
  moreover from assms have "a \<in> range (sp_vars m)" using sp_ok_live [OF assms(1)] by blast
  then obtain x where "sp_vars m x = a" by blast
  ultimately obtain v l pad c where "sp_heap m a =
      Some (header v l (of_nat (card (owners (sp_vars m) a))) pad (rt_destructor E) @ c)" "length pad = 6"
    using sp_okD [OF assms(1)] by metis
  from header_run(2) [OF \<open>a \<noteq> 0\<close> this] show ?thesis by (simp add: owners_def)
qed


text \<open>A runtime that puts every block behind the last one.\<close>

definition bump_runtime :: runtime where
  "bump_runtime = \<lparr>rt_malloc = (\<lambda>h n. (Suc (Max (insert 0 (dom h))), replicate n 0)),
     rt_destructor = 0x1000\<rparr>"

lemma malloc_bump: "malloc_ok bump_runtime"
proof -
  have "h (Suc (Max (insert 0 (dom h)))) = None" if "finite (dom h)" for h :: "nat \<Rightarrow> bytes option"
  proof (rule ccontr)
    assume "h (Suc (Max (insert 0 (dom h)))) \<noteq> None"
    then have "Suc (Max (insert 0 (dom h))) \<le> Max (insert 0 (dom h))"
      using that by (intro Max_ge) auto
    then show False by simp
  qed
  then show ?thesis by (simp add: malloc_ok_def bump_runtime_def)
qed


section \<open>Where the counts go wrong, or do nothing\<close>

lemma of_le_take:
  "2 \<le> n \<Longrightarrow> of_le16 (take n bs) = of_le16 bs"
  "4 \<le> n \<Longrightarrow> of_le32 (take n bs) = of_le32 bs"
  "8 \<le> n \<Longrightarrow> of_le64 (take n bs) = of_le64 bs"
proof -
  have 16: "of_le16 (take (Suc (Suc k)) bs) = of_le16 bs" for k bs
    by (cases bs rule: of_le16.cases) simp_all
  then show "2 \<le> n \<Longrightarrow> of_le16 (take n bs) = of_le16 bs"
    using le_Suc_ex [of 2 n] by (auto simp: numeral_eq_Suc)
  have "of_le32 (take (Suc (Suc (Suc (Suc k)))) bs) = of_le32 bs" for k bs
    by (cases bs rule: of_le32.cases) simp_all
  then have 32: "4 \<le> n \<Longrightarrow> of_le32 (take n bs) = of_le32 bs" for n bs
    using le_Suc_ex [of 4 n] by (auto simp: numeral_eq_Suc)
  then show "4 \<le> n \<Longrightarrow> of_le32 (take n bs) = of_le32 bs" by blast
  show "8 \<le> n \<Longrightarrow> of_le64 (take n bs) = of_le64 bs"
    by (simp add: of_le64_def 32 drop_take)
qed

lemma MALLOC_ASSIGN_new:
  assumes "sp_ok E m" "malloc_ok E" "x < 2 ^ 16 - 1" "unat n < 2 ^ 64 - 32" "sp_vars m x = 0"
  obtains a pad c where "a \<noteq> 0" "sp_heap m a = None" "length pad = 6" "length c = unat n"
    "MALLOC_ASSIGN E sz x n m = (Inr (), m\<lparr>sp_heap := (sp_heap m)(a \<mapsto>
       header (of_nat a + 32 * sz) n 1 pad (rt_destructor E) @ c), sp_vars := (sp_vars m)(x := a)\<rparr>)"
proof -
  have old: "abandon_old E x m = (Inr (), m)"
    using assms(5) by (simp add: abandon_old_def var_def cmd_simps)
  obtain a c m' m0 pad where r: "MALLOC_ASSIGN E sz x n m = (Inr (), m')" "abandon_old E x m = (Inr (), m0)"
    "a \<noteq> 0" "sp_heap m0 a = None" "length c = unat n" "length pad = 6"
    "m' = m0\<lparr>sp_heap := (sp_heap m0)(a \<mapsto>
       header (of_nat a + 32 * sz) n 1 pad (rt_destructor E) @ c), sp_vars := (sp_vars m0)(x := a)\<rparr>"
    using MALLOC_ASSIGN_run [OF assms(1-4), of sz] by blast
  have "m0 = m" using r(2) old by simp
  with r show ?thesis by (intro that [of a pad c]) simp_all
qed

text \<open>
  \<^verbatim>\<open>MALLOC_COPY\<close> copies the content over the header. After a copy of at least 18 bytes
  the value pointer and the count of the new block are whatever the content holds at their
  places, not the value and the one reference that the allocation set.\<close>

theorem malloc_copy_overwrites_header:
  assumes "sp_ok E m" and "malloc_ok E" and "x < 2 ^ 16 - 1" and "sp_vars m x = 0"
    and "unat n < 2 ^ 64 - 32" and "18 \<le> unat n" and "unat n \<le> length src"
  shows "\<exists>a m'. MALLOC_COPY E sz x (Obj src) n m = (Inr (), m') \<and> sp_vars m' x = a \<and> a \<noteq> 0 \<and>
    smart_value a m' = (Inr (of_le64 src), m') \<and>
    references a m' = (Inr (of_le16 (drop 16 src)), m')"
proof -
  obtain a pad c where a: "a \<noteq> 0" "length pad = 6" "length c = unat n" and
    run: "MALLOC_ASSIGN E sz x n m = (Inr (), m\<lparr>sp_heap := (sp_heap m)(a \<mapsto>
       header (of_nat a + 32 * sz) n 1 pad (rt_destructor E) @ c), sp_vars := (sp_vars m)(x := a)\<rparr>)"
    by (rule MALLOC_ASSIGN_new [OF assms(1-3,5,4)])
  let ?h = "header (of_nat a + 32 * sz) n 1 pad (rt_destructor E) @ c"
  let ?b = "take (unat n) src @ drop (unat n) ?h"
  let ?m1 = "m\<lparr>sp_heap := (sp_heap m)(a \<mapsto> ?h), sp_vars := (sp_vars m)(x := a)\<rparr>"
  let ?m = "?m1\<lparr>sp_heap := (sp_heap ?m1)(a \<mapsto> ?b)\<rparr>"
  have "store 0 (take (unat n) src) ?h = Inr ?b"
    using assms(7) a(2,3) by (simp add: store_def min_absorb2)
  from wr_run [OF a(1) _ this, of ?m1] have wr: "wr a 0 (take (unat n) src) ?m1 = (Inr (), ?m)" by simp
  have "MALLOC_COPY E sz x (Obj src) n m = (Inr (), ?m)"
    using assms(7) wr by (simp add: MALLOC_COPY_def seqc_run bindc_run run var_def)
  moreover have h: "sp_heap ?m a = Some ?b" by simp
  have r: "read_bytes (ptr_add (Obj ?b) 0) 8 = Inr (take 8 src)"
    "read_bytes (ptr_add (Obj ?b) 16) 2 = Inr (take 2 (drop 16 src))"
    using assms(6,7) a(2,3) by (simp_all add: min_absorb1 min_absorb2 drop_take)
  have "smart_value a ?m = (Inr (of_le64 src), ?m)"
    using r(1) of_le_take(3) [of 8 src] by (simp only: smart_value_def bindc_run rd_run [OF a(1) h]
        prod.case sum.case cmd_run order_refl)
  moreover have "references a ?m = (Inr (of_le16 (drop 16 src)), ?m)"
    using r(2) of_le_take(1) [of 2 "drop 16 src"] by (simp only: references_def bindc_run
        rd_run [OF a(1) h] prod.case sum.case cmd_run order_refl)
  ultimately show ?thesis using a(1) by (intro exI [of _ a] exI [of _ ?m]) simp
qed

text \<open>A text of 18 letters.\<close>

theorem malloc_copy_overwrites_header_witness:
  "\<exists>a m'. MALLOC_COPY bump_runtime 1 0 (Obj (replicate 18 0x61)) 18 sp_empty = (Inr (), m') \<and>
    sp_vars m' 0 = a \<and> a \<noteq> 0 \<and> smart_value a m' = (Inr (of_le64 (replicate 18 0x61)), m') \<and>
    references a m' = (Inr (of_le16 (drop 16 (replicate 18 0x61))), m')"
  by (rule malloc_copy_overwrites_header [OF sp_ok_empty malloc_bump]) (simp_all add: sp_empty_def)

text \<open>
  \<^verbatim>\<open>SELF_ABANDON\<close> abandons nothing: it works on a local copy of the field, whose own
  reference is the one that is given up, so that memory is as before; and \<^verbatim>\<open>USE_NULL\<close> always
  follows the null pointer it declares.\<close>

theorem self_abandon_abandons_nothing:
  assumes "sp_ok E m" and "sp_vars m field \<noteq> 0" and "self_key \<noteq> field"
  shows "SELF_ABANDON E field self_key m = (Inr (), m) \<and> fst (USE_NULL E x body m) = Inl NullDeref"
proof
  let ?a = "sp_vars m field" and ?d = "rt_destructor E"
  let ?k = "card (owners (sp_vars m) ?a)"
  obtain v l pad c where b: "sp_heap m ?a = Some (header v l (of_nat ?k) pad ?d @ c)" "length pad = 6"
    "0 < ?k" "?k < 2 ^ 16"
    by (rule sp_okD [OF assms(1) refl assms(2)])
  have k: "(of_nat ?k :: byte16) \<noteq> 0"
    using unat_of_nat16 [OF b(4)] b(3) by (metis less_numeral_extra(3) unsigned_0)
  let ?m1 = "m\<lparr>sp_vars := (sp_vars m)(self_key := ?a)\<rparr>"
  have b1: "sp_heap ?m1 ?a = Some (header v l (of_nat ?k) pad ?d @ c)" using b(1) by simp
  let ?m2 = "?m1\<lparr>sp_heap := (sp_heap m)(?a \<mapsto> header v l (of_nat ?k + 1) pad ?d @ c)\<rparr>"
  have b2: "sp_heap ?m2 ?a = Some (header v l (of_nat ?k + 1) pad ?d @ c)" by simp
  have v2: "sp_vars ?m2 self_key = ?a" by simp
  note f = SMART_FREE_run [where E = E, OF v2 assms(2) b2 b(2)]
  have same: "(sp_heap m)(?a \<mapsto> header v l (of_nat ?k) pad ?d @ c) = sp_heap m" using b(1) by auto
  let ?m3 = "m\<lparr>sp_vars := (sp_vars m)(self_key := 0)\<rparr>"
  have ab: "ABANDON E self_key ?m2 = (Inr (), ?m3)"
    using f k by (simp add: ABANDON_def seqc_run set_var_def same)
  have fr: "SMART_FREE E self_key ?m3 = (Inr (), ?m3)"
    by (simp add: SMART_FREE_def bindc_run var_def)
  have "USE E self_key (\<lambda>_. ABANDON E self_key) ?m1 = (Inr (), ?m3)"
    using header_run(1,2,4) [OF assms(2) b1 b(2)] ab fr
    by (simp add: USE_def bindc_run seqc_run var_def)
  then show "SELF_ABANDON E field self_key m = (Inr (), m)"
    by (simp add: SELF_ABANDON_def FROM_STRUCT_USE_def scoped_def bindc_run seqc_run var_def set_var_def)
  show "fst (USE_NULL E x body m) = Inl NullDeref"
    by (simp add: USE_NULL_def scoped_def USE_def smart_value_def rd_def block_def bindc_run seqc_run
        var_def set_var_def)
qed

text \<open>The value of a new block of \<open>n\<close> bytes for elements of \<open>sz\<close> bytes.\<close>

lemma it_new_run:
  assumes "sp_vars m x = a" "a \<noteq> 0" "length pad = 6" "0 < k"
    and "sp_heap m a = Some (header (of_nat a + 32 * sz) n r pad d @ c)"
    and "a + 32 * unat sz < 2 ^ 64"
  shows "(\<exists>bs. it x k m = (Inr bs, m)) \<longleftrightarrow> 32 * unat sz + k \<le> 32 + length c"
proof -
  have "unat (of_nat a + 32 * sz) = a + 32 * unat sz"
  proof -
    have "of_nat a + 32 * sz = of_nat (a + 32 * unat sz)" by simp
    then show ?thesis using assms(6) by (simp only: unat_of_nat take_bit_nat_eq_self len_num1 len_bit0) (simp add: take_bit_nat_eq_self)
  qed
  then have "it x k m = rd a (32 * unat sz) k m"
    using header_run(1) [OF assms(2,5,3)] assms(1) by (simp add: it_def bindc_run var_def)
  then show ?thesis
    using assms(3,4) by (auto simp: rd_run [OF assms(2,5)] read_bytes.simps)
qed

text \<open>
  The value pointer of a block is right for single bytes only. It lies 32 elements, not
  32 bytes, behind the start of the header: \<open>k\<close> bytes can be read through it exactly when they
  end, counted from 32 times the element size on, before the end of the block. A block that was
  allocated for one \<^verbatim>\<open>int\<close> does not contain its own value.\<close>

theorem value_pointer_bounds:
  assumes "sp_ok E m" and "malloc_ok E" and "x < 2 ^ 16 - 1" and "sp_vars m x = 0"
    and "unat n < 2 ^ 64 - 32" and "0 < k"
  shows "\<exists>a m'. MALLOC_ASSIGN E sz x n m = (Inr (), m') \<and> sp_vars m' x = a \<and>
    (a + 32 * unat sz < 2 ^ 64 \<longrightarrow>
      ((\<exists>bs. it x k m' = (Inr bs, m')) \<longleftrightarrow> 32 * unat sz + k \<le> 32 + unat n))"
proof -
  obtain a pad c where a: "a \<noteq> 0" "length pad = 6" "length c = unat n" and
    run: "MALLOC_ASSIGN E sz x n m = (Inr (), m\<lparr>sp_heap := (sp_heap m)(a \<mapsto>
       header (of_nat a + 32 * sz) n 1 pad (rt_destructor E) @ c), sp_vars := (sp_vars m)(x := a)\<rparr>)"
    by (rule MALLOC_ASSIGN_new [OF assms(1-3,5,4)])
  let ?m = "m\<lparr>sp_heap := (sp_heap m)(a \<mapsto>
       header (of_nat a + 32 * sz) n 1 pad (rt_destructor E) @ c), sp_vars := (sp_vars m)(x := a)\<rparr>"
  have "sp_vars ?m x = a" "sp_heap ?m a = Some (header (of_nat a + 32 * sz) n 1 pad (rt_destructor E) @ c)"
    by simp_all
  from it_new_run [OF this(1) a(1,2) assms(6) this(2)] a(3) run
  show ?thesis by (intro exI [of _ a] exI [of _ ?m]) simp
qed

theorem value_pointer_bounds_witness:
  "\<exists>a m'. MALLOC_ASSIGN bump_runtime 4 0 4 sp_empty = (Inr (), m') \<and> sp_vars m' 0 = a \<and>
    (a + 32 * unat (4 :: size_t) < 2 ^ 64 \<longrightarrow>
      ((\<exists>bs. it 0 4 m' = (Inr bs, m')) \<longleftrightarrow> 32 * unat (4 :: size_t) + 4 \<le> 32 + unat (4 :: size_t)))"
  by (rule value_pointer_bounds [OF sp_ok_empty malloc_bump]) (simp_all add: sp_empty_def)

section \<open>Scopes\<close>

lemma MALLOC_run:
  assumes "sp_ok E m" "malloc_ok E" "x < 2 ^ 16 - 1" "sp_vars m x = 0" "unat n < 2 ^ 64 - 32"
    and "g \<noteq> x" "sp_vars m g = 0"
  shows "MALLOC E sz x n (\<lambda>_. ret ()) m = (Inr (), m)"
    and "\<exists>a pad c. a \<noteq> 0 \<and> sp_heap m a = None \<and> length pad = 6 \<and> length c = unat n \<and>
      MALLOC E sz x n (\<lambda>_. ASSIGN E g x) m = (Inr (), m\<lparr>sp_heap := (sp_heap m)(a \<mapsto>
        header (of_nat a + 32 * sz) n 1 pad (rt_destructor E) @ c), sp_vars := (sp_vars m)(g := a)\<rparr>)"
proof -
  have x0: "(sp_vars m)(x := 0) = sp_vars m" using assms(4) by auto
  obtain a pad c where a: "a \<noteq> 0" "sp_heap m a = None" "length pad = 6" "length c = unat n" and
    run: "MALLOC_ASSIGN E sz x n m = (Inr (), m\<lparr>sp_heap := (sp_heap m)(a \<mapsto>
       header (of_nat a + 32 * sz) n 1 pad (rt_destructor E) @ c), sp_vars := (sp_vars m)(x := a)\<rparr>)"
    by (rule MALLOC_ASSIGN_new [OF assms(1-3,5,4)])
  define h where "h = (\<lambda>r. header (of_nat a + 32 * sz) n r pad (rt_destructor E) @ c)"
  define st where "st = (\<lambda>r vs. m\<lparr>sp_heap := (sp_heap m)(a \<mapsto> h r), sp_vars := vs\<rparr>)"
  have hd: "sp_heap (st r vs) a = Some (header (of_nat a + 32 * sz) n r pad (rt_destructor E) @ c)"
    "sp_vars (st r vs) = vs" for r vs by (simp_all add: st_def h_def)
  have rd: "smart_value a (st r vs) = (Inr (of_nat a + 32 * sz), st r vs)"
    "references a (st r vs) = (Inr r, st r vs)"
    "set_references a r' (st r vs) = (Inr (), st r' vs)" for r r' vs
    using header_run(1,2,4) [OF a(1) hd(1) a(3)] by (simp_all add: st_def h_def)
  have fr: "SMART_FREE E x (st r vs) = (Inr (), if r = 1 then m\<lparr>sp_vars := vs\<rparr> else st (r - 1) vs)"
    if "vs x = a" for r vs
  proof -
    have "(sp_heap m)(a := None) = sp_heap m" using a(2) by auto
    with SMART_FREE_run [where E = E and x = x and s = "st r vs", OF _ a(1) hd(1) a(3)] hd(2) that
    show ?thesis by (simp add: st_def h_def)
  qed
  let ?x = "(sp_vars m)(x := a)"
  have new: "MALLOC_ASSIGN E sz x n m = (Inr (), st 1 ?x)" using run by (simp add: st_def h_def)
  have m0: "m\<lparr>sp_vars := sp_vars m\<rparr> = m" by simp
  have enter: "scoped x 0 p m = bindc p (\<lambda>_. set_var x 0) m" for p
    using assms(4) x0 by (simp add: scoped_def bindc_run seqc_run var_def set_var_def m0 seqc_def)
  have use0: "USE E x (\<lambda>_. ret ()) (st 1 ?x) = (Inr (), st 1 ?x)"
    by (simp add: USE_def bindc_run seqc_run var_def hd rd fr)
  show "MALLOC E sz x n (\<lambda>_. ret ()) m = (Inr (), m)"
    using x0 by (simp add: MALLOC_def enter bindc_run seqc_run new use0 fr set_var_def)
  let ?g = "?x(g := a)"
  have asg: "ASSIGN E g x (st 2 ?x) = (Inr (), st 3 ?g)"
    using assms(6,7) by (simp add: ASSIGN_def abandon_old_def bindc_run seqc_run var_def set_var_def
        hd rd) (simp add: st_def)
  have "USE E x (\<lambda>_. ASSIGN E g x) (st 1 ?x) = (Inr (), st 2 ?g)"
    using assms(6) by (simp add: USE_def bindc_run seqc_run var_def hd rd asg fr)
  then have "MALLOC E sz x n (\<lambda>_. ASSIGN E g x) m = (Inr (), st 1 (?g(x := 0)))"
    using assms(6) by (simp add: MALLOC_def enter bindc_run seqc_run new fr set_var_def)
      (simp add: st_def)
  moreover have "?g(x := 0) = (sp_vars m)(g := a)" using assms(4,6) by auto
  ultimately show "\<exists>a pad c. a \<noteq> 0 \<and> sp_heap m a = None \<and> length pad = 6 \<and> length c = unat n \<and>
      MALLOC E sz x n (\<lambda>_. ASSIGN E g x) m = (Inr (), m\<lparr>sp_heap := (sp_heap m)(a \<mapsto>
        header (of_nat a + 32 * sz) n 1 pad (rt_destructor E) @ c), sp_vars := (sp_vars m)(g := a)\<rparr>)"
    using a by (intro exI [of _ a] exI [of _ pad] exI [of _ c]) (simp add: st_def h_def)
qed

text \<open>
  \<^verbatim>\<open>MALLOC\<close> frees what its body does not keep. With a body that does nothing, memory is
  as before; with a body that assigns the pointer to an outer variable \<open>g\<close>, as the example in the
  source does with a global, exactly the new block stays, owned by \<open>g\<close> alone.\<close>

theorem malloc_scope:
  assumes "sp_ok E m" and "malloc_ok E" and "x < 2 ^ 16 - 1" and "sp_vars m x = 0"
    and "unat n < 2 ^ 64 - 32" and "g \<noteq> x" and "sp_vars m g = 0" and "g < 2 ^ 16 - 1"
  shows "MALLOC E sz x n (\<lambda>_. ret ()) m = (Inr (), m) \<and>
    (\<exists>a m'. MALLOC E sz x n (\<lambda>_. ASSIGN E g x) m = (Inr (), m') \<and> sp_ok E m' \<and>
       sp_vars m' = (sp_vars m)(g := a) \<and> dom (sp_heap m') = insert a (dom (sp_heap m)) \<and>
       a \<notin> dom (sp_heap m))"
proof
  show "MALLOC E sz x n (\<lambda>_. ret ()) m = (Inr (), m)" by (rule MALLOC_run(1) [OF assms(1-7)])
  obtain a pad c where a: "a \<noteq> 0" "sp_heap m a = None" "length pad = 6" "length c = unat n"
    and run: "MALLOC E sz x n (\<lambda>_. ASSIGN E g x) m = (Inr (), m\<lparr>sp_heap := (sp_heap m)(a \<mapsto>
      header (of_nat a + 32 * sz) n 1 pad (rt_destructor E) @ c), sp_vars := (sp_vars m)(g := a)\<rparr>)"
    using MALLOC_run(2) [OF assms(1-7), of sz] by blast
  have "owners (sp_vars m) a = {}"
    using sp_ok_points [OF assms(1)] a(1,2) unfolding owners_def by fastforce
  then have "owners ((sp_vars m)(g := a)) a = {g}" by (simp add: owners_upd)
  then have "counted (rt_destructor E) ((sp_vars m)(g := a)) a
      (header (of_nat a + 32 * sz) n 1 pad (rt_destructor E) @ c)"
    unfolding counted_def using a(3) by force
  from sp_ok_point [OF assms(1,7,8) a(1) this] run a(2)
  show "\<exists>a m'. MALLOC E sz x n (\<lambda>_. ASSIGN E g x) m = (Inr (), m') \<and> sp_ok E m' \<and>
       sp_vars m' = (sp_vars m)(g := a) \<and> dom (sp_heap m') = insert a (dom (sp_heap m)) \<and>
       a \<notin> dom (sp_heap m)"
    by (intro exI [of _ a]) auto
qed

theorem malloc_scope_witness:
  "MALLOC bump_runtime 1 0 10 (\<lambda>_. ret ()) sp_empty = (Inr (), sp_empty) \<and>
    (\<exists>a m'. MALLOC bump_runtime 1 0 10 (\<lambda>_. ASSIGN bump_runtime 1 0) sp_empty = (Inr (), m') \<and>
       sp_ok bump_runtime m' \<and> sp_vars m' = (sp_vars sp_empty)(1 := a) \<and>
       dom (sp_heap m') = insert a (dom (sp_heap sp_empty)) \<and> a \<notin> dom (sp_heap sp_empty))"
  by (rule malloc_scope [OF sp_ok_empty malloc_bump]) (simp_all add: sp_empty_def)

end
