(* ===== verification/Friendly_Heap.thy ===== *)
theory Friendly_Heap
  imports C_Prelude
begin

text \<open>
  \<^verbatim>\<open>src/src/helper/wulkanat/friendly_heap.h\<close>: heap blocks that mean to carry their size in the
  eight bytes before the content. A pointer is the block it was made from and an offset, which
  may be negative: \<open>blk\<close> are the bytes of the block.
\<close>

section \<open>The macros\<close>

record heap_ptr =
  hp_block :: bytes
  hp_offset :: int

text \<open>\<^verbatim>\<open>((size_t*) name) - sizeof(size_t)\<close>: the offset is counted in elements of \<^verbatim>\<open>size_t\<close>,
  which makes it 64 bytes.\<close>

definition size_slot :: "heap_ptr \<Rightarrow> int" where
  "size_slot p = hp_offset p - 8 * 8"

definition in_block :: "int \<Rightarrow> nat \<Rightarrow> heap_ptr \<Rightarrow> bool" where
  "in_block off n p \<longleftrightarrow> 0 \<le> off \<and> off + int n \<le> int (length (hp_block p))"

definition set_size :: "heap_ptr \<Rightarrow> bytes \<Rightarrow> fault + heap_ptr" where
  "set_size p value =
     (if in_block (size_slot p) 8 p
      then bindr (store (nat (size_slot p)) value (hp_block p)) (\<lambda>b. Inr (p\<lparr>hp_block := b\<rparr>))
      else Inl OutOfBounds)"

definition get_size :: "heap_ptr \<Rightarrow> fault + bytes" where
  "get_size p =
     (if in_block (size_slot p) 8 p
      then read_bytes (Obj (drop (nat (size_slot p)) (hp_block p))) 8
      else Inl OutOfBounds)"

text \<open>\<^verbatim>\<open>heap(name, amount)\<close>: the block is \<^verbatim>\<open>calloc(amount + sizeof(size_t), 1)\<close>, a
  \<^verbatim>\<open>void*\<close>, on which the offset counts bytes. \<open>amount8\<close> are the bytes of \<^verbatim>\<open>amount\<close>.\<close>

definition heap_alloc :: "(nat \<Rightarrow> bytes) \<Rightarrow> nat \<Rightarrow> bytes \<Rightarrow> fault + heap_ptr" where
  "heap_alloc slack amount amount8 =
     set_size \<lparr>hp_block = calloc slack (amount + 8), hp_offset = 8\<rparr> amount8"

text \<open>\<^verbatim>\<open>dealloc(name)\<close> for a pointer to elements of \<open>sz\<close> bytes: \<^verbatim>\<open>free\<close> takes the start of a
  block only.\<close>

definition dealloc :: "nat \<Rightarrow> heap_ptr \<Rightarrow> fault + unit" where
  "dealloc sz p = (if hp_offset p - 8 * int sz = 0 then Inr () else Inl WildPointer)"

section \<open>No block can be made\<close>

text \<open>
  No sized block can ever be allocated: whatever the size, and however much the allocator
  gives on top, the macro writes the size 56 bytes before the start of the block; and no block
  whose content starts behind an eight-byte size can have its size read. Only pointers to single
  bytes could be deallocated.\<close>

theorem sized_blocks_out_of_bounds:
  "heap_alloc slack amount amount8 = Inl OutOfBounds \<and>
   get_size \<lparr>hp_block = b, hp_offset = 8\<rparr> = Inl OutOfBounds \<and>
   (dealloc sz \<lparr>hp_block = b, hp_offset = 8\<rparr> = Inr () \<longleftrightarrow> sz = 1)"
  by (simp add: heap_alloc_def set_size_def get_size_def dealloc_def in_block_def size_slot_def)

end
