(* ===== verification/Signals.thy ===== *)
theory Signals
  imports C_Prelude
begin

text \<open>
  The signal handler that \<^verbatim>\<open>setup_as_server\<close> of \<^verbatim>\<open>src/src/generic/network.c\<close> installs for
  \<^verbatim>\<open>SIGCHLD\<close>. It interrupts the program anywhere; what it shares with it is \<^verbatim>\<open>errno\<close>. The state
  of the kernel is of any type, \<^verbatim>\<open>waitpid(-1, NULL, WNOHANG)\<close> a function on it: its result, the
  error it leaves in \<^verbatim>\<open>errno\<close> when the result is -1, and the state afterwards.
\<close>

section \<open>The handler\<close>

record 'k signal_state =
  sg_kernel :: 'k
  sg_errno :: int

definition waitpid_call :: "('k \<Rightarrow> int \<times> int \<times> 'k) \<Rightarrow> ('k signal_state, int) cmd" where
  "waitpid_call waitpid = bindc getc (\<lambda>s.
     case waitpid (sg_kernel s) of (r, e, k) \<Rightarrow>
     seqc (modifyc (\<lambda>s. s\<lparr>sg_kernel := k, sg_errno := if r = -1 then e else sg_errno s\<rparr>)) (ret r))"

text \<open>\<open>fuel\<close> bounds the rounds of \<^verbatim>\<open>while (waitpid(-1, NULL, WNOHANG) > 0);\<close>.\<close>

fun reap :: "('k \<Rightarrow> int \<times> int \<times> 'k) \<Rightarrow> nat \<Rightarrow> ('k signal_state, unit) cmd" where
  "reap waitpid 0 = failc OutOfFuel"
| "reap waitpid (Suc fuel) =
     bindc (waitpid_call waitpid) (\<lambda>r. if r > 0 then reap waitpid fuel else ret ())"

definition sigchld_handler ::
    "('k \<Rightarrow> int \<times> int \<times> 'k) \<Rightarrow> nat \<Rightarrow> int \<Rightarrow> ('k signal_state, unit) cmd" where
  "sigchld_handler waitpid fuel s =
     bindc getc (\<lambda>st. let saved_errno = sg_errno st in
     seqc (reap waitpid fuel) (modifyc (\<lambda>st. st\<lparr>sg_errno := saved_errno\<rparr>)))"

section \<open>It returns\<close>

text \<open>Documented behaviour of \<^verbatim>\<open>waitpid\<close>: each child that it reports is gone afterwards.\<close>

definition reports_once :: "('k \<Rightarrow> int \<times> int \<times> 'k) \<Rightarrow> ('k \<Rightarrow> nat) \<Rightarrow> bool" where
  "reports_once waitpid zombies \<longleftrightarrow>
     (\<forall>k r e k'. waitpid k = (r, e, k') \<longrightarrow> 0 < r \<longrightarrow> zombies k' < zombies k)"

lemma reap_run:
  assumes "reports_once waitpid zombies" "zombies (sg_kernel s) < fuel"
  shows "\<exists>k e. reap waitpid fuel s = (Inr (), s\<lparr>sg_kernel := snd (snd (waitpid k)), sg_errno := e\<rparr>) \<and>
    fst (waitpid k) \<le> 0"
  using assms(2)
proof (induction fuel arbitrary: s)
  case (Suc fuel)
  obtain r e k where w: "waitpid (sg_kernel s) = (r, e, k)" by (cases "waitpid (sg_kernel s)") auto
  let ?s = "s\<lparr>sg_kernel := k, sg_errno := if r = -1 then e else sg_errno s\<rparr>"
  show ?case
  proof (cases "0 < r")
    case True
    then have "zombies k < zombies (sg_kernel s)"
      using assms(1) w unfolding reports_once_def by blast
    then have "zombies (sg_kernel ?s) < fuel" using Suc.prems by simp
    from Suc.IH [OF this] w True show ?thesis
      by (auto simp: waitpid_call_def cmd_simps)
  next
    case False
    then show ?thesis using w
      by (intro exI [of _ "sg_kernel s"] exI [of _ "if r = -1 then e else sg_errno s"]) (auto simp: waitpid_call_def cmd_simps)
  qed
qed simp

text \<open>C14: the handler returns, whatever state it interrupts, with \<^verbatim>\<open>errno\<close> as it was and with no
  child left that \<^verbatim>\<open>waitpid\<close> would report: one round per finished child and one more are
  enough.\<close>

theorem sigchld_handler_returns:
  assumes "reports_once waitpid zombies" and "zombies (sg_kernel st) < fuel"
  shows "\<exists>k. sigchld_handler waitpid fuel s st = (Inr (), st\<lparr>sg_kernel := snd (snd (waitpid k))\<rparr>) \<and>
    fst (waitpid k) \<le> 0"
proof -
  obtain k e where "reap waitpid fuel st =
      (Inr (), st\<lparr>sg_kernel := snd (snd (waitpid k)), sg_errno := e\<rparr>)" "fst (waitpid k) \<le> 0"
    using reap_run [OF assms] by blast
  then show ?thesis by (intro exI [of _ k]) (simp add: sigchld_handler_def cmd_simps Let_def)
qed

text \<open>A kernel with a list of finished children; \<^verbatim>\<open>ECHILD\<close> is 10.\<close>

definition finished_children :: "int list \<Rightarrow> int \<times> int \<times> int list" where
  "finished_children ps = (case ps of [] \<Rightarrow> (-1, 10, []) | p # ps \<Rightarrow> (max 1 p, 0, ps))"

theorem sigchld_handler_returns_witness:
  "\<exists>k. sigchld_handler finished_children 3 17 \<lparr>sg_kernel = [411, 412], sg_errno = 4\<rparr> =
      (Inr (), \<lparr>sg_kernel = snd (snd (finished_children k)), sg_errno = 4\<rparr>) \<and>
    fst (finished_children k) \<le> 0"
proof -
  have "reports_once finished_children length"
    by (auto simp: reports_once_def finished_children_def split: list.splits)
  from sigchld_handler_returns [OF this, of "\<lparr>sg_kernel = [411, 412], sg_errno = 4\<rparr>" 3 17]
  show ?thesis by simp
qed

end
