(* ===== verification/Spec2Isabelle.thy ===== *)
theory Spec2Isabelle
  imports Uthash_Select Uthash_Sort_Links Uthash_Hashes Uthash_Bloom Uthash_Oom Uthash_Strings Server Client Concurrent_Task Peer_Network Smart_Pointer Friendly_Heap Signals
begin

text \<open>
  The peers, the client and the stand-alone server of a distributed hash table that are built
  from \<^verbatim>\<open>src/src\<close>, and their correctness, or the reason why there is none.

  \<^bold>\<open>The program.\<close> A peer (\<^verbatim>\<open>peer.c\<close>) knows itself, the next and the previous peer of a ring of
  16-bit identifiers, and stores the values of the keys whose hash lies between the previous
  peer and itself. It accepts a connection, receives one message and handles it: messages with
  the control bit are peer messages (join, notify, stabilize, lookup, reply, finger), all others
  are client messages (get, set, delete). It answers on the same connection when it is
  responsible, relays the request when the next peer is, and otherwise means to queue the
  request and to ask the ring. \<^verbatim>\<open>client.c\<close> sends one request and prints the value of the
  answer, \<^verbatim>\<open>server.c\<close> is a hash table behind one socket.

  \<^bold>\<open>Theories and sources\<close>, in the order in which they import each other.
  \<^item> \<open>C_Prelude\<close>: integers, faults, commands, byte objects and pointers into them, loads and
    stores (\<^verbatim>\<open>descriptive_types.h\<close>). A command takes the state and returns the value or the fault
    together with the state reached; \<open>keeps\<close> and its rules carry invariants through commands.
  \<^item> \<open>C_Strings\<close>: the text conversions of \<^verbatim>\<open>network.h\<close> over the C library functions used.
  \<^item> \<open>Helpers\<close>: \<^verbatim>\<open>extended_math.h\<close>, \<^verbatim>\<open>debug.h\<close>, \<^verbatim>\<open>commander.h\<close>.
  \<^item> \<open>Data_Helper\<close>: \<^verbatim>\<open>data_helper.c\<close>, the records and the wire formats. \<open>peer_wire\<close> and
    \<open>client_wire\<close> are the formats as byte lists, against which the encoders and decoders are
    proved; a decoded pointer \<open>At object offset\<close> keeps the object it points into.
  \<^item> \<open>Uthash\<close>: the macros of \<^verbatim>\<open>uthash.h\<close> the program expands: hash function, buckets, chains,
    search, insertion, deletion, expansion, over an explicit heap of elements, with the
    invariant of the table.
  \<^item> \<open>Uthash_Sort\<close>: \<^verbatim>\<open>HASH_SRT\<close>, the merge sort, on the list of the order of a table;
    \<open>Uthash_Sort_Links\<close>: the same macro on the \<open>prev\<close> and \<open>next\<close> links, which carries out the sort
    on lists and leaves the links of the sorted order.
  \<^item> \<open>Uthash_Links\<close>, \<open>Uthash_Refine\<close>, \<open>Uthash_Check\<close>: the same macros as they set and follow the
    pointers of the two doubly linked lists, with head and tail; their refinement by the lists of
    \<open>Uthash\<close> (\<open>in_step\<close> relates a table and its pointers); \<^verbatim>\<open>HASH_FSCK\<close> and any sequence of operations.
  \<^item> \<open>Uthash_Order\<close>, \<open>Uthash_Select\<close>: the other operations on pointers: insertion in order, replacement,
    clearing, iteration, and \<^verbatim>\<open>HASH_SELECT\<close> into a second table.
  \<^item> \<open>Uthash_Oom\<close>: the insertion as compiled with \<^verbatim>\<open>HASH_NONFATAL_OOM\<close>, which undoes itself when
    memory runs out.
  \<^item> \<open>Uthash_Strings\<close>: the forms of the macros for string keys.
  \<^item> \<open>Uthash_Hashes\<close>, \<open>Uthash_Bloom\<close>: what a program can switch on: the other hash functions, and the
    Bloom filter with the search through it. The locales \<open>absorbing\<close> and \<open>set_filter\<close> hold their contracts.
  \<^item> \<open>Hash_Helper\<close>: \<^verbatim>\<open>hash_helper.c\<close>. The locale of a key-value store states what its clients
    rely on; it is interpreted on the model of the code, and any sequence of operations refines
    a finite map.
  \<^item> \<open>Os\<close>: the operating system as a parameter (a record of functions from the trace so far to
    the result of the next call) and the trace of calls as the state \<open>net\<close> which every process
    extends. It holds no definition of the program beyond \<^verbatim>\<open>send\<close> and the type aliases.
  \<^item> \<open>Network\<close>: \<^verbatim>\<open>network.c\<close> and the two functions of \<^verbatim>\<open>data_helper.c\<close> that send. The locale
    \<open>peer_sender\<close> states what the senders share.
  \<^item> \<open>Queue_Macros\<close>: \<^verbatim>\<open>queue.h\<close>. The locale of a frozen queue is interpreted on the macros.
  \<^item> \<open>Peer\<close>: \<^verbatim>\<open>peer.c\<close>. The globals \<^verbatim>\<open>peer_info\<close>, \<^verbatim>\<open>client_requests\<close>, \<^verbatim>\<open>sockets\<close> and the
    database are the fields of \<open>peer_state\<close>; one definition per branch of \<^verbatim>\<open>receive_handler\<close>.
  \<^item> \<open>Peer_Clients\<close>: the client messages a peer handles, with their specification \<open>client_spec\<close>.
  \<^item> \<open>Peer_Ring\<close>: the peer messages a peer handles.
  \<^item> \<open>Peer_Loop\<close>: \<^verbatim>\<open>main\<close> of the peer: the reachable states (\<open>reach\<close>), their invariant, and
    what happens after the first connection.
  \<^item> \<open>Server\<close>, \<open>Client\<close>, \<open>Concurrent_Task\<close>: \<^verbatim>\<open>server.c\<close>, \<^verbatim>\<open>client.c\<close>, \<^verbatim>\<open>concurrent_task.c\<close>.
  \<^item> \<open>Peer_Life\<close>: what a peer process sends from its start to its end, for every system and every
    other process.
  \<^item> \<open>Peer_Network\<close>: any number of peer processes as a step relation, with an invariant and a
    measure.
  \<^item> \<open>Signals\<close>: the \<^verbatim>\<open>SIGCHLD\<close> handler of \<^verbatim>\<open>network.c\<close>.
  \<^item> \<open>Smart_Pointer\<close>, \<open>Friendly_Heap\<close>: the two headers \<^verbatim>\<open>smart_pointer.h\<close> and
    \<^verbatim>\<open>friendly_heap.h\<close>, which the program ships but does not include.
  \<^item> this theory: properties of several parts together.

  \<^bold>\<open>Faults.\<close> Undefined behaviour is modelled where it happens: a null pointer dereference, an
  access outside its object, a use after free, a write through an uninitialised pointer each
  end the run with a \<open>fault\<close>. Contents that C leaves undefined (uninitialised fields, fresh heap
  blocks) are functions of the parameter \<open>os\<close> (\<open>os_stack\<close>, \<open>os_junk\<close>), so that a theorem holds
  for all of them. \<open>os_slack\<close> says how many bytes of a heap chunk can be written beyond what
  was requested, \<open>os_realloc_moves\<close> whether a growing block moves, \<open>os_can_alloc\<close> which
  allocations of the hash table succeed.

  \<^bold>\<open>Fuel.\<close> \<open>direct_receive\<close>, the accept loop and the loops of the processes take a number of
  rounds; running out of it is the fault \<open>OutOfFuel\<close>. So do the loops that follow the pointers of
  a hash table, where the number of its elements, and one more, is enough. \<open>direct_receive\<close> needs one round per full
  buffer and one more (\<open>receive_assembles\<close>), and more fuel changes nothing
  (\<open>receive_fuel_irrelevant\<close>). The accept loop may run forever, and does after the first
  connection (\<open>listener_closed_after_accept\<close>): there the statement is that no fuel is enough.

  \<^bold>\<open>What the theorems show.\<close> The data structures do what they promise: the hash table refines
  a finite map, down to the pointers of its lists, its check accepts exactly the well-formed ones,
  both wire formats round-trip, a responsible peer answers as the specification
  on maps says, the server does the same, what is stored comes back. The theorems about
  composition show where the program does not do what it means to: the queues never hold
  anything, a reply ends the peer, a fresh peer ends at its first request, joining never
  completes, in a ring of two most keys belong to nobody, a peer serves one connection, and
  therefore no peer process ever answers a client (\<open>peer_only_sends_peer_messages\<close>), nor does a network of
  them (\<open>network_falls_silent\<close>). Two macros of the hash table library that the program does not use
  are wrong: \<^verbatim>\<open>HASH_SELECT\<close> leaves a table that loses elements at the next insertion, and
  MurmurHash off Intel skips the blocks of a key that is not aligned.

  \<^bold>\<open>Hypotheses on the environment.\<close> \<open>room\<close>: heap chunks have the two bytes the encoder
  overruns its block by, as the allocator of glibc provides for eleven requested bytes.
  \<open>accept_needs_listen\<close>: accept fails on a descriptor that is not listening.
  \<open>realloc_in_place\<close>: a growing block stays where it is. Each theorem with one of them has a
  witness with a concrete \<open>os\<close>.

  \<^bold>\<open>Not modelled.\<close> What \<^verbatim>\<open>printf\<close> writes for \<^verbatim>\<open>LOG\<close>, \<^verbatim>\<open>WARN\<close> and \<^verbatim>\<open>ERROR\<close>;
  the debugging output \<^verbatim>\<open>HASH_EMIT_KEY\<close> of \<^verbatim>\<open>uthash.h\<close>, its \<^verbatim>\<open>NO_DECLTYPE\<close> and big-endian variants, and with
  \<^verbatim>\<open>HASH_NONFATAL_OOM\<close> the selection and the insertion in order, none of which is compiled; the
  Python test runner and the build files. The finger code and \<^verbatim>\<open>find_last_entry\<close> that are commented out
  in the source have no model. The stabilizer thread is modelled as a process of its own: its creation
  is commented out in \<^verbatim>\<open>main\<close>, so that no state is shared.
\<close>

section \<open>Properties of the whole\<close>

text \<open>C11: whatever its arguments, a peer that has just started, with or without joining another
  one, ends in a null pointer dereference on its first client request and on its first
  notification.\<close>

theorem fresh_peer_crashes:
  assumes "peer_init os argv start_state = (Inr lfd, s)"
    and "wf_client_message (c, k, v) \<and> rs_data rec = Obj (client_wire c k v @ r) \<or>
      peer_message rec d \<and> kind_notify d"
  shows "receive_handler os fuel rec fd s = (Inl NullDeref, s)"
proof -
  obtain t where t: "pi_this (peer_info s) = Some t" "pi_next (peer_info s) = None"
    "pi_prev (peer_info s) = None"
    using peer_init_alone [OF assms(1)] by (auto simp: alone_def)
  from assms(2) show ?thesis
  proof (elim disjE conjE)
    assume "wf_client_message (c, k, v)" "rs_data rec = Obj (client_wire c k v @ r)"
    then obtain c' where c': "client_request rec c' k v" using client_wire_request by blast
    show ?thesis
      using client_dispatch [OF c' t(1)] t(2,3) by (auto simp: cmd_simps id_is_between_def)
  next
    assume "peer_message rec d" "kind_notify d"
    then show ?thesis using dispatch_kinds(2) t(2) by (simp add: handle_notify_def cmd_simps)
  qed
qed

theorem fresh_peer_crashes_witness:
  "\<exists>s. peer_init lan_os test_argv start_state = (Inr 5, s) \<and>
     receive_handler lan_os 1 (message (client_wire (test_request GET_BIT 0 0) DataKey Some_Value)) 7 s =
       (Inl NullDeref, s)"
proof -
  obtain s where s: "peer_init lan_os test_argv start_state = (Inr 5, s)"
    using peer_init_test by blast
  have "wf_client_message (test_request GET_BIT 0 0, DataKey, Some_Value)"
    by (rule wf_test_request) simp_all
  from fresh_peer_crashes [OF s disjI1 [OF conjI [OF this message_data(1)]]] s show ?thesis by blast
qed



text \<open>C10: in a correct ring of two peers the keys outside the arc between the two identifiers
  belong to nobody: whichever peer is asked, a request for such a key is dropped without an
  answer.\<close>

theorem two_peer_ring_drops:
  assumes "wf_client_message (c, k, v)" and "rs_data rec = Obj (client_wire c k v @ r)"
    and "pi_this (peer_info s) = Some x" "pi_next (peer_info s) = Some y" "pi_prev (peer_info s) = Some y"
    and "x = a \<and> y = b \<or> x = b \<and> y = a" and "peer_id a < peer_id b"
    and "key_id k \<le> peer_id a \<or> peer_id b \<le> key_id k"
    and "queue_is_empty (client_requests s)"
    and "length (client_wire c k v) \<le> length (os_stack os (trace s))"
  shows "receive_handler os fuel rec fd s = (Inr (), s)"
proof -
  obtain c' where c': "client_request rec c' k v" "cp_key_length c' = cp_key_length c"
    "cp_value_length c' = cp_value_length c"
    using client_wire_request [OF assms(1,2)] by blast
  have n: "unat (clientProtocolCalculateSize c') = length (client_wire c k v)"
    using assms(1) c' by (simp add: unat_clientProtocolCalculateSize length_client_wire
        wf_client_message_def)
  have "\<not> (peer_id y < key_id k \<and> key_id k < peer_id x)" "\<not> (peer_id x < key_id k \<and> key_id k < peer_id y)"
    using assms(6-8) by auto
  then show ?thesis
    using client_dispatch [OF c'(1) assms(3), of os fuel fd] assms(4,5,9,10)
      queue_request_run [of s os c' fd] n
    by (simp add: cmd_simps between_Some) blast
qed

theorem two_peer_ring_drops_witness:
  "let a = node 3005 10000; b = node 3006 15000; s = at_ring a (Some b) (Some b) in
   receive_handler lan_os 1 (message (client_wire (test_request GET_BIT 0 0) DataKey Some_Value)) 7 s
     = (Inr (), s)"
  unfolding Let_def
  by (rule two_peer_ring_drops [OF wf_test_request message_data(1), of GET_BIT 0 0,
        where x = "node 3005 10000" and y = "node 3006 15000" and a = "node 3005 10000"
          and b = "node 3006 15000"])
    (simp_all add: key_id_DataKey queue_is_empty_def QUEUE_def length_test_request
        lan_os_def idle_os_def)

lemma client_prints_answer:
  assumes "cp_get c = GET_BIT" "cp_set c \<in> {0, SET_BIT}" "cp_delete c \<in> {0, DELETE_BIT}"
    and "length k = unat (cp_key_length c)" "length v < 2 ^ 32"
    and "rs_data rec = Obj (client_answer c k v @ r)"
  shows "client_receive_handler rec fd s = (Inr (), s\<lparr>trace := trace s @ [Ev_stdout v]\<rparr>)"
proof -
  let ?c = "c\<lparr>cp_act := ACK_BIT, cp_value_length := of_nat (length v)\<rparr>"
  have vl: "unat (of_nat (length v) :: byte32) = length v"
    using assms(5) by (simp add: unat_of_nat take_bit_nat_eq_self)
  have wf: "wf_client_message (?c, k, v)"
    using assms vl by (simp add: wf_client_message_def wf_ClientProtocol_def)
  have "rs_data rec = Obj (client_wire ?c k v @ r)" using assms(6) by (simp add: client_answer_def)
  from client_wire_request [OF wf this] obtain c' where c': "client_request rec c' k v"
    "cp_get c' = GET_BIT" using assms(1) by auto
  then show ?thesis
    by (simp add: client_receive_handler_def client_request_def cmd_simps GET_BIT_def)
qed

text \<open>The two requests of the next property, each at a peer that is responsible.\<close>

lemma set_served:
  assumes "wf_client_message (cs, k, v)" "rs_data rs = Obj (client_wire cs k v @ r)"
    and "cp_get cs = 0" "cp_set cs = SET_BIT" "cp_delete cs = 0"
    and "pi_this (peer_info s) = Some t" "pi_prev (peer_info s) = Some p"
    and "peer_id p < key_id k" "key_id k < peer_id t"
    and "db_ok (peer_db s)" "memory_bound (os_can_alloc os)"
    and "receive_handler os fuel rs fd s = (Inr (), s')"
  shows "peer_info s' = peer_info s \<and> db_ok (peer_db s') \<and> db_map (peer_db s') k = Some v"
proof -
  have "client_spec cs k v m = Inr (m(k \<mapsto> v), [ack_response SET_BIT])" for m
    using assms(3-5) by (simp add: client_spec_def get_spec_def SET_BIT_def)
  then have "answers fd s (Inr (), s') (Inr ((db_map (peer_db s))(k \<mapsto> v), [ack_response SET_BIT]))"
    using responsible_refines [OF assms(1,2,6-11), of fd fuel] assms(12) by simp
  then show ?thesis by (auto simp: answers_def)
qed

lemma get_served:
  assumes "wf_client_message (cg, k, w)" "rs_data rg = Obj (client_wire cg k w @ r)"
    and "cp_get cg = GET_BIT" "cp_set cg = 0" "cp_delete cg = 0"
    and "pi_this (peer_info s) = Some t" "pi_prev (peer_info s) = Some p"
    and "peer_id p < key_id k" "key_id k < peer_id t"
    and "db_ok (peer_db s)" "memory_bound (os_can_alloc os)" "db_map (peer_db s) k = Some v"
  shows "\<exists>db. receive_handler os fuel rg fd s =
    (Inr (), s\<lparr>peer_db := db, trace := trace s @ [Ev_send fd (client_answer cg k v)]\<rparr>)"
proof -
  have "client_spec cg k w (db_map (peer_db s)) = Inr (db_map (peer_db s), [client_answer cg k v])"
    using assms(3-5,12) by (simp add: client_spec_def get_spec_def GET_BIT_def)
  then have a: "answers fd s (receive_handler os fuel rg fd s)
      (Inr (db_map (peer_db s), [client_answer cg k v]))"
    using responsible_refines [OF assms(1,2,6-11), of fd fuel] by simp
  moreover have "fst (receive_handler os fuel rg fd s) \<noteq> Inl (ProgramExit (-1))"
  proof -
    obtain c where c: "client_request rg c k w" "cp_get c = cp_get cg" "cp_set c = cp_set cg"
      "cp_delete c = cp_delete cg" using client_wire_request [OF assms(1,2)] by blast
    have "receive_handler os fuel rg fd s = respond_as_responsible_peer os c fd s"
      using client_dispatch [OF c(1) assms(6)] assms(7-9) by (simp add: cmd_simps between_Some)
    moreover obtain p' n' where "respond_get os c fd s =
        (Inr (Some (c\<lparr>cp_value := p', cp_value_length := n', cp_act := ACK_BIT\<rparr>)),
         s\<lparr>trace := trace s @ [Ev_send fd (client_answer c k v)]\<rparr>)"
      using respond_get_run(2) [of s c k v os fd] assms(10,12) c(1) by (auto simp: client_request_def)
    ultimately show ?thesis
      using c(2-4) assms(3-5) by (simp add: respond_as_responsible_peer_def cmd_simps GET_BIT_def)
  qed
  ultimately show ?thesis by (auto simp: answers_def)
qed

lemma wf_client_value_length: "wf_client_message (c, k, v) \<Longrightarrow> length v < 2 ^ 32"
proof -
  assume "wf_client_message (c, k, v)"
  moreover have "unat (cp_value_length c) < 2 ^ 32" by (rule order_less_le_trans [OF unsigned_less]) simp
  ultimately show ?thesis by (simp add: wf_client_message_def)
qed

text \<open>C2: a value that was stored through the responsible peer comes back: when the peer has
  served a request to set a key, and then serves a request to get it, the client that receives
  the answer prints exactly the bytes that were stored.\<close>

theorem value_comes_back:
  assumes "wf_client_message (cs, k, v)" "rs_data rs = Obj (client_wire cs k v @ r)"
    and "cp_get cs = 0" "cp_set cs = SET_BIT" "cp_delete cs = 0"
    and "wf_client_message (cg, k, w)" "rs_data rg = Obj (client_wire cg k w @ r')"
    and "cp_get cg = GET_BIT" "cp_set cg = 0" "cp_delete cg = 0"
    and "pi_this (peer_info s) = Some t" "pi_prev (peer_info s) = Some p"
    and "peer_id p < key_id k" "key_id k < peer_id t"
    and "db_ok (peer_db s)" "memory_bound (os_can_alloc os)"
    and "receive_handler os fuel rs fd s = (Inr (), s')"
  shows "\<exists>bs u. receive_handler os fuel rg fd' s' = (Inr (), u) \<and> trace u = trace s' @ [Ev_send fd' bs] \<and>
    (\<forall>rec x n (z :: net). rs_data rec = Obj (bs @ x) \<longrightarrow>
       client_receive_handler rec n z = (Inr (), z\<lparr>trace := trace z @ [Ev_stdout v]\<rparr>))"
proof -
  have s': "peer_info s' = peer_info s" "db_ok (peer_db s')" "db_map (peer_db s') k = Some v"
    using set_served [OF assms(1-5,11-17)] by simp_all
  have "pi_this (peer_info s') = Some t" "pi_prev (peer_info s') = Some p"
    using s'(1) assms(11,12) by simp_all
  from get_served [OF assms(6-10) this assms(13,14) s'(2) assms(16) s'(3), of fuel fd']
  obtain db where u: "receive_handler os fuel rg fd' s' =
      (Inr (), s'\<lparr>peer_db := db, trace := trace s' @ [Ev_send fd' (client_answer cg k v)]\<rparr>)"
    by blast
  have k: "length k = unat (cp_key_length cg)" using assms(6) by (simp add: wf_client_message_def)
  have "client_receive_handler rec n z = (Inr (), z\<lparr>trace := trace z @ [Ev_stdout v]\<rparr>)"
    if "rs_data rec = Obj (client_answer cg k v @ x)" for rec x n and z :: net
    by (rule client_prints_answer [OF assms(8) _ _ k wf_client_value_length [OF assms(1)] that])
      (simp_all add: assms(9,10))
  with u show ?thesis by (intro exI [of _ "client_answer cg k v"]) auto
qed

theorem value_comes_back_witness:
  "let t = node 3006 30000; s = at_ring t None (Some (node 3005 10000)) in
   \<exists>s'. receive_handler lan_os 1 (message (client_wire (test_request 0 SET_BIT 0) DataKey Some_Value)) 7 s
      = (Inr (), s') \<and>
    (\<exists>bs u. receive_handler lan_os 1 (message (client_wire (test_request GET_BIT 0 0) DataKey Some_Value)) 8 s'
        = (Inr (), u) \<and> trace u = trace s' @ [Ev_send 8 bs] \<and>
      (\<forall>rec x n (z :: net). rs_data rec = Obj (bs @ x) \<longrightarrow>
         client_receive_handler rec n z = (Inr (), z\<lparr>trace := trace z @ [Ev_stdout Some_Value]\<rparr>)))"
proof -
  let ?t = "node 3006 30000" and ?p = "node 3005 10000"
  let ?s = "at_ring ?t None (Some ?p)" and ?c = "test_request 0 SET_BIT 0"
  have wf: "wf_client_message (?c, DataKey, Some_Value)"
    "wf_client_message (test_request GET_BIT 0 0, DataKey, Some_Value)"
    by (rule wf_test_request; simp)+
  have mem: "memory_bound (os_can_alloc lan_os)"
    by (simp add: memory_bound_def lan_os_def idle_os_def)
  obtain c' where c': "client_request (message (client_wire ?c DataKey Some_Value)) c' DataKey Some_Value"
    "cp_get c' = 0" "cp_set c' = SET_BIT" "cp_delete c' = 0"
    using client_wire_request [OF wf(1) message_data(1)]
    by (auto simp: test_request_def zero_ClientProtocol_def)
  obtain s' where s': "receive_handler lan_os 1 (message (client_wire ?c DataKey Some_Value)) 7 ?s = (Inr (), s')"
    using first_set_succeeds [OF refl _ _ _ c'(1,2) _ c'(4), of lan_os ?s ?t ?p 1 7] c'(3)
    by (auto simp: lan_os_def idle_os_def key_id_DataKey SET_BIT_def)
  show ?thesis
    unfolding Let_def
    using value_comes_back [OF wf(1) message_data(1) _ _ _ wf(2) message_data(1) _ _ _ _ _ _ _ _ mem s',
        of ?t ?p 8] s'
    by (simp add: test_request_def [of 0] test_request_def [of GET_BIT] zero_ClientProtocol_def key_id_DataKey)
qed

end
